(* ===== verification/Prelude.thy ===== *)
theory Prelude
  imports Main "HOL-Library.Word" "HOL-Library.AList" "HOL-Library.Sublist"
begin

text \<open>
  Shared vocabulary of the development: bytes and byte strings, the constants of
  src/src/common/types.h, little-endian images of unsigned integers, association lists as
  the model of \<open>std::unordered_map\<close>, counting over lists of thread states, and the
  generic locale for invariants of step relations.
\<close>

unbundle bit_operations_syntax

text \<open>
  A C++ \<open>char\<close> is a byte. File contents, payloads, user names and file names are all
  sequences of bytes, so \<open>std::string\<close> and \<open>std::vector<char>\<close> are both \<open>bytes\<close>.
\<close>

type_synonym byte = char
type_synonym bytes = "char list"
type_synonym u16 = "16 word"
type_synonym u32 = "32 word"
type_synonym u64 = "64 word"

named_theorems frame_simps \<open>what an operation leaves unchanged\<close>

section \<open>Constants of the program\<close>

definition PROTOCOL_VERSION :: u16 where "PROTOCOL_VERSION = 1"
definition DEFAULT_PORT :: u16 where "DEFAULT_PORT = 9090"
definition DEFAULT_THREAD_POOL :: int where "DEFAULT_THREAD_POOL = 4"
definition TRANSFER_BUFFER_SIZE :: nat where "TRANSFER_BUFFER_SIZE = 8192"

lemma TRANSFER_BUFFER_SIZE_pos [simp]: "0 < TRANSFER_BUFFER_SIZE"
  by (simp add: TRANSFER_BUFFER_SIZE_def)

lemma TRANSFER_BUFFER_SIZE_int: "TRANSFER_BUFFER_SIZE < 2 ^ 31"
  by (simp add: TRANSFER_BUFFER_SIZE_def)

section \<open>Conversions between C++ integer types\<close>

text \<open>
  \<open>static_cast<int>(n)\<close> for a \<open>size_t\<close> n: the low 32 bits, read as two's complement.
\<close>

definition c_int :: "nat \<Rightarrow> int" where
  "c_int n = sint (word_of_nat n :: u32)"

lemma c_int_small: "n < 2 ^ 31 \<Longrightarrow> c_int n = int n"
  by (simp add: c_int_def signed_of_nat signed_take_bit_int_eq_self)

lemma c_int_mod: "c_int (n mod 2 ^ 32) = c_int n"
proof -
  have "(word_of_nat (n mod 2 ^ 32) :: u32) = word_of_nat n"
    by (simp add: word_of_nat_eq_iff take_bit_eq_mod)
  then show ?thesis by (simp add: c_int_def)
qed

lemma c_int_negative: "2 ^ 31 \<le> n mod 2 ^ 32 \<Longrightarrow> c_int n < 0"
proof -
  assume "2 ^ 31 \<le> n mod 2 ^ 32"
  moreover define m where "m = n mod 2 ^ 32"
  ultimately have m: "2 ^ 31 \<le> m" "m < 2 ^ 32" by auto
  then have "m div 2 ^ 31 = 1" by (intro div_nat_eqI) auto
  then have "odd (m div 2 ^ 31)" by simp
  then have "bit (int m) 31" by (simp only: bit_of_nat_iff_bit) (simp add: bit_iff_odd)
  then have "c_int m = take_bit 32 (int m) - 2 ^ 32"
    by (simp add: c_int_def signed_of_nat signed_take_bit_eq_take_bit_minus)
  also have "\<dots> < 0" using take_bit_int_less_exp [of 32 "int m"] by simp
  finally show ?thesis by (simp only: m_def c_int_mod)
qed

lemma nat_c_int: "nat (c_int n) = (if n mod 2 ^ 32 < 2 ^ 31 then n mod 2 ^ 32 else 0)"
proof (cases "n mod 2 ^ 32 < 2 ^ 31")
  case True
  then have "c_int (n mod 2 ^ 32) = int (n mod 2 ^ 32)" by (rule c_int_small)
  then have "nat (c_int n) = n mod 2 ^ 32" by (simp only: c_int_mod nat_int)
  with True show ?thesis by (simp only: if_True)
next
  case False
  with c_int_negative [of n] show ?thesis by (simp add: not_less)
qed

lemma nat_c_int_le: "nat (c_int n) \<le> n mod 2 ^ 32"
  unfolding nat_c_int by (simp only: split: if_split) blast

lemma large_minus_turn:
  assumes "k \<le> nat (c_int n)" and "0 < k" and "2 ^ 31 \<le> n"
  shows "2 ^ 31 \<le> n - k"
proof -
  have k: "k \<le> n mod 2 ^ 32" and "n mod 2 ^ 32 < 2 ^ 31"
    using assms(1,2) unfolding nat_c_int by (simp_all only: split: if_splits)
  with assms(3) have "n \<noteq> n mod 2 ^ 32" by linarith
  then have "2 ^ 32 \<le> n" by (metis mod_less not_less)
  then have "2 ^ 32 * 1 \<le> 2 ^ 32 * (n div 2 ^ 32)"
    by (intro mult_le_mono2) (simp add: div_greater_zero_iff Suc_le_eq)
  also have "\<dots> = n - n mod 2 ^ 32" by (simp only: minus_mod_eq_mult_div)
  finally show ?thesis using k by simp
qed

text \<open>\<open>std::to_string\<close> of an unsigned integer: its decimal digits.\<close>

fun to_string :: "nat \<Rightarrow> bytes" where
  "to_string n =
     (if n < 10 then [char_of (n + 48)] else to_string (n div 10) @ [char_of (n mod 10 + 48)])"

declare to_string.simps [simp del]

lemma to_string_nonempty: "to_string n \<noteq> []"
  by (subst to_string.simps) simp

section \<open>Little-endian images\<close>

text \<open>\<open>le_bytes k n\<close>: the k low bytes of n, least significant first; \<open>le_val\<close> reads them back.\<close>

fun le_bytes :: "nat \<Rightarrow> nat \<Rightarrow> bytes" where
  "le_bytes 0 n = []"
| "le_bytes (Suc k) n = char_of (n mod 256) # le_bytes k (n div 256)"

fun le_val :: "bytes \<Rightarrow> nat" where
  "le_val [] = 0"
| "le_val (c # cs) = of_char c + 256 * le_val cs"

lemma length_le_bytes [simp]: "length (le_bytes k n) = k"
  by (induction k arbitrary: n) auto

lemma le_bytes_numeral:
  "le_bytes (numeral k) n = char_of (n mod 256) # le_bytes (pred_numeral k) (n div 256)"
  unfolding numeral_eq_Suc [of k] by simp

lemma of_char_lt_256: "(of_char c :: nat) < 256"
proof -
  have "(of_char c :: nat) mod 256 < 256" by (rule mod_less_divisor) simp
  then show ?thesis by simp
qed

lemma le_val_le_bytes: "le_val (le_bytes k n) = n mod 256 ^ k"
proof (induction k arbitrary: n)
  case 0
  then show ?case by simp
next
  case (Suc k)
  have "n mod 256 + 256 * (n div 256 mod 256 ^ k) = n mod (256 * 256 ^ k)"
    by (simp add: mod_mult2_eq add.commute)
  with Suc show ?case by (simp add: of_char_of)
qed

lemma le_bytes_le_val: "length cs = k \<Longrightarrow> le_bytes k (le_val cs) = cs"
  by (induction cs arbitrary: k) (auto simp: of_char_lt_256 div_mult_self2)

lemma le_val_bound: "le_val cs < 256 ^ length cs"
proof (induction cs)
  case Nil
  then show ?case by simp
next
  case (Cons c cs)
  then have "256 * le_val cs + 256 \<le> 256 * 256 ^ length cs" by simp
  then show ?case using of_char_lt_256 [of c] by (simp only: le_val.simps length_Cons power_Suc)
qed

lemma le_bytes_add: "le_bytes (j + k) n = le_bytes j n @ le_bytes k (n div 256 ^ j)"
  by (induction j arbitrary: n) (auto simp: div_mult2_eq)

lemma le_bytes_mod: "le_bytes k (n mod 256 ^ k) = le_bytes k n"
  by (metis le_bytes_le_val le_val_le_bytes length_le_bytes)

section \<open>Reading in sequence from a byte stream\<close>

text \<open>
  What a component promises when it reads exactly n bytes from a stream that a peer feeds:
  \<open>pending\<close> is what the peer has sent and nobody has read yet, \<open>lawful\<close> says the system
  underneath keeps its documented contract, \<open>live\<close> that it reports no errors, and \<open>rest\<close>
  is everything reading must not touch.
\<close>

locale byte_source =
  fixes rcv :: "'s \<Rightarrow> nat \<Rightarrow> bytes option \<times> 's"
    and pending :: "'s \<Rightarrow> bytes"
    and lawful :: "'s \<Rightarrow> bool"
    and live :: "'s \<Rightarrow> bool"
    and rest :: "'s \<Rightarrow> 'f"
  assumes rcv_exact: "lawful s \<Longrightarrow> rcv s n = (Some bs, t) \<Longrightarrow> length bs = n \<and> pending s = bs @ pending t"
    and rcv_prefix: "rcv s n = (r, t) \<Longrightarrow> \<exists>xs. pending s = xs @ pending t"
    and rcv_lawful: "rcv s n = (r, t) \<Longrightarrow> lawful t = lawful s"
    and rcv_live: "rcv s n = (r, t) \<Longrightarrow> live t = live s"
    and rcv_rest: "rcv s n = (r, t) \<Longrightarrow> rest t = rest s"
    and rcv_some: "lawful s \<Longrightarrow> live s \<Longrightarrow> n < 2 ^ 31 \<Longrightarrow> n \<le> length (pending s) \<Longrightarrow> \<exists>bs t. rcv s n = (Some bs, t)"
begin

lemma rcv_append:
  assumes "lawful s" and "live s" and "pending s = xs @ ys" and "length xs < 2 ^ 31"
  obtains t where "rcv s (length xs) = (Some xs, t)" and "pending t = ys"
    and "lawful t" and "live t" and "rest t = rest s"
proof -
  obtain bs t where r: "rcv s (length xs) = (Some bs, t)"
    using rcv_some [OF assms(1,2,4)] assms(3) by auto
  from rcv_exact [OF assms(1) r] assms(3) have "bs = xs" and "pending t = ys" by auto
  with r show thesis
    using that rcv_lawful [OF r] rcv_live [OF r] rcv_rest [OF r] assms(1,2) by blast
qed

lemma rcv_two:
  assumes "lawful s" and "rcv s m = (Some xs, t)" and "rcv t n = (Some ys, u)"
  shows "pending s = xs @ ys @ pending u \<and> length xs = m \<and> length ys = n \<and> lawful u"
  using rcv_exact [OF assms(1,2)] rcv_exact [OF _ assms(3)] rcv_lawful [OF assms(2)]
    rcv_lawful [OF assms(3)] assms(1) by simp

lemma rcv_shrinks: "rcv s n = (r, t) \<Longrightarrow> length (pending t) \<le> length (pending s)"
  using rcv_prefix by force

end

section \<open>Writing in sequence to a byte stream\<close>

text \<open>
  The sending side: \<open>sent\<close> is what the system has accepted so far. A failed send has
  transmitted some prefix of the data; a successful one all of it.
\<close>

locale byte_sink =
  fixes snd_all :: "'s \<Rightarrow> bytes \<Rightarrow> nat \<Rightarrow> bool \<times> 's"
    and sent :: "'s \<Rightarrow> bytes"
    and lawful :: "'s \<Rightarrow> bool"
    and live :: "'s \<Rightarrow> bool"
    and rest :: "'s \<Rightarrow> 'f"
  assumes snd_exact: "lawful s \<Longrightarrow> n \<le> length d \<Longrightarrow> snd_all s d n = (True, t) \<Longrightarrow> sent t = sent s @ take n d"
    and snd_prefix: "lawful s \<Longrightarrow> n \<le> length d \<Longrightarrow> snd_all s d n = (r, t) \<Longrightarrow> \<exists>k\<le>n. sent t = sent s @ take k d"
    and snd_lawful: "snd_all s d n = (r, t) \<Longrightarrow> lawful t = lawful s"
    and snd_live: "snd_all s d n = (r, t) \<Longrightarrow> live t = live s"
    and snd_rest: "snd_all s d n = (r, t) \<Longrightarrow> rest t = rest s"
    and snd_some: "lawful s \<Longrightarrow> live s \<Longrightarrow> n < 2 ^ 31 \<Longrightarrow> \<exists>t. snd_all s d n = (True, t)"
begin

lemma snd_complete:
  assumes "lawful s" and "live s" and "length d < 2 ^ 31"
  obtains t where "snd_all s d (length d) = (True, t)" and "sent t = sent s @ d"
    and "lawful t" and "live t" and "rest t = rest s"
proof -
  obtain t where r: "snd_all s d (length d) = (True, t)" using snd_some [OF assms] by blast
  from snd_exact [OF assms(1) _ r] have "sent t = sent s @ d" by simp
  with r show thesis
    using that snd_lawful [OF r] snd_live [OF r] snd_rest [OF r] assms(1,2) by blast
qed

lemma snd_extends:
  assumes "lawful s" and "n \<le> length d" and "snd_all s d n = (r, t)"
  shows "\<exists>k\<le>n. sent t = sent s @ take k d \<and> (r \<longrightarrow> k = n)"
  using snd_exact [OF assms(1,2)] snd_prefix [OF assms] assms(3) by (cases r) auto

end

section \<open>Invariants of step relations\<close>

text \<open>
  A predicate that holds in the initial states and that every step keeps holds in every
  state a run can reach. Each concurrent component of the program interprets this locale.
\<close>

locale invariant_of_steps =
  fixes start :: "'s \<Rightarrow> bool" and step :: "'s \<Rightarrow> 's \<Rightarrow> bool" and inv :: "'s \<Rightarrow> bool"
  assumes inv_start: "start s \<Longrightarrow> inv s"
    and inv_step: "inv s \<Longrightarrow> step s t \<Longrightarrow> inv t"
begin

lemma inv_run: "step\<^sup>*\<^sup>* s t \<Longrightarrow> inv s \<Longrightarrow> inv t"
  by (induction rule: rtranclp_induct) (auto intro: inv_step)

lemma inv_reachable: "start s \<Longrightarrow> step\<^sup>*\<^sup>* s t \<Longrightarrow> inv t"
  by (blast intro: inv_run inv_start)

end

section \<open>Association lists as unordered maps\<close>

text \<open>
  A \<open>std::unordered_map\<close> is an association list with distinct keys; its order stands for the
  unspecified iteration order. \<open>AList.update\<close> is assignment through \<open>operator[]\<close>,
  \<open>AList.delete\<close> is \<open>erase\<close>, \<open>map_of\<close> is \<open>find\<close>.
\<close>

lemma map_of_alist_delete [simp]: "map_of (AList.delete k al) = (map_of al)(k := None)"
  by (rule delete_conv')

lemma map_of_alist_update [simp]: "map_of (AList.update k v al) = (map_of al)(k \<mapsto> v)"
  by (rule update_conv')

lemma set_update_subset: "x \<in> set (AList.update k v al) \<Longrightarrow> x = (k, v) \<or> x \<in> set al"
  by (induction al) (auto split: if_splits)

lemma set_delete_subset: "x \<in> set (AList.delete k al) \<Longrightarrow> x \<in> set al"
  by (induction al) (auto split: if_splits)

lemma map_of_filter_keys:
  "map_of (filter (\<lambda>(k, v). P k) al) = (\<lambda>k. if P k then map_of al k else None)"
  by (induction al) (auto simp: fun_eq_iff)

lemma distinct_map_filter_fst: "distinct (map fst al) \<Longrightarrow> distinct (map fst (filter P al))"
  by (induction al) auto

section \<open>Counting thread states\<close>

text \<open>The threads of a component are a list indexed by thread number; \<open>cnt\<close> counts states.\<close>

definition cnt :: "('a \<Rightarrow> bool) \<Rightarrow> 'a list \<Rightarrow> nat" where
  "cnt P xs = length (filter P xs)"

lemma cnt_update:
  "i < length xs \<Longrightarrow> cnt P (xs[i := v]) + of_bool (P (xs ! i)) = cnt P xs + of_bool (P v)"
proof (induction xs arbitrary: i)
  case Nil
  then show ?case by simp
next
  case (Cons x xs)
  then show ?case by (cases i) (auto simp: cnt_def)
qed

lemma cnt_pos: "i < length xs \<Longrightarrow> P (xs ! i) \<Longrightarrow> 0 < cnt P xs"
  unfolding cnt_def by (metis filter_empty_conv length_greater_0_conv nth_mem)

lemma cnt_zero: "cnt P xs = 0 \<longleftrightarrow> (\<forall>i<length xs. \<not> P (xs ! i))"
  unfolding cnt_def by (auto simp: filter_empty_conv all_set_conv_all_nth)

end
