(* ===== verification/Logger.thy ===== *)
theory Logger
  imports Prelude
begin

text \<open>
  src/src/server/logger.cpp: the asynchronous logger. Callers of \<open>log\<close> put messages into a
  queue, one thread (\<open>process_queue\<close>) prints them, and the destructor ends that thread. The
  destructor changes \<open>running_\<close> without holding \<open>mutex_\<close>, so the wait of the printing thread
  takes two steps here: testing the predicate, and falling asleep with the mutex released.
\<close>

section \<open>Messages\<close>

datatype LogLevel = INFO | WARN | ERR | DEBUG

record LogMessage =
  lm_level :: LogLevel
  lm_file :: bytes
  lm_line :: int
  lm_message :: bytes
  lm_timestamp :: bytes

text \<open>\<open>path(file).filename()\<close>: what follows the last separator.\<close>

definition base_name :: "bytes \<Rightarrow> bytes" where
  "base_name file = rev (takeWhile (\<lambda>c. c \<noteq> CHR ''/'' \<and> c \<noteq> CHR 0x5C) (rev file))"

definition make_message :: "LogLevel \<Rightarrow> bytes \<Rightarrow> int \<Rightarrow> bytes \<Rightarrow> bytes \<Rightarrow> LogMessage" where
  "make_message level file line message now =
     \<lparr>lm_level = level, lm_file = base_name file, lm_line = line, lm_message = message, lm_timestamp = now\<rparr>"

text \<open>
  The macros of logger.h: each formats its operands into a text and calls \<open>log\<close> with its level and
  the place in the source where it stands.
\<close>

definition LOG_INFO :: "bytes \<Rightarrow> int \<Rightarrow> bytes \<Rightarrow> bytes \<Rightarrow> LogMessage" where
  "LOG_INFO file line oss now = make_message INFO file line oss now"

definition LOG_WARN :: "bytes \<Rightarrow> int \<Rightarrow> bytes \<Rightarrow> bytes \<Rightarrow> LogMessage" where
  "LOG_WARN file line oss now = make_message WARN file line oss now"

definition LOG_ERROR :: "bytes \<Rightarrow> int \<Rightarrow> bytes \<Rightarrow> bytes \<Rightarrow> LogMessage" where
  "LOG_ERROR file line oss now = make_message ERR file line oss now"

definition LOG_DEBUG :: "bytes \<Rightarrow> int \<Rightarrow> bytes \<Rightarrow> bytes \<Rightarrow> LogMessage" where
  "LOG_DEBUG file line oss now = make_message DEBUG file line oss now"

fun level_str :: "LogLevel \<Rightarrow> bytes" where
  "level_str INFO = ''INFO ''"
| "level_str WARN = ''WARN ''"
| "level_str ERR = ''ERROR''"
| "level_str DEBUG = ''DEBUG''"

definition show_int :: "int \<Rightarrow> bytes" where
  "show_int n = (if n < 0 then ''-'' @ to_string (nat (- n)) else to_string (nat n))"

text \<open>The line printed for a message, and whether it goes to \<open>std::cerr\<close>.\<close>

definition print_message :: "LogMessage \<Rightarrow> bool \<times> bytes" where
  "print_message msg =
     (lm_level msg = ERR,
      ''['' @ lm_timestamp msg @ ''] ['' @ level_str (lm_level msg) @ ''] ['' @ lm_file msg @ '':''
      @ show_int (lm_line msg) @ ''] '' @ lm_message msg @ [CHR 0x0A])"

section \<open>Threads\<close>

text \<open>
  The printing thread: at the test of the loop, about to lock and test the wait's predicate,
  having tested it false (with the mutex held), asleep, printing, ended.
\<close>

datatype printer = At_Loop | At_Wait | Tested_False | Asleep | Printing LogMessage | Ended

text \<open>The destructor: not called, having cleared the flag, joining, returned.\<close>

datatype destructor = Alive | Flag_Cleared | Joining | Gone

record logger =
  lg_queue :: "LogMessage list"
  lg_running :: bool
  lg_printer :: printer
  lg_destructor :: destructor
  lg_notices :: nat
  lg_logged :: "LogMessage list"
  lg_output :: "(bool \<times> bytes) list"

definition new_logger :: logger where
  "new_logger = \<lparr>lg_queue = [], lg_running = True, lg_printer = At_Loop, lg_destructor = Alive,
     lg_notices = 0, lg_logged = [], lg_output = []\<rparr>"

text \<open>\<open>log\<close> stores its message under the mutex and notifies afterwards.\<close>

definition log_store :: "LogMessage \<Rightarrow> logger \<Rightarrow> logger" where
  "log_store m s = s\<lparr>lg_queue := lg_queue s @ [m], lg_logged := lg_logged s @ [m], lg_notices := Suc (lg_notices s)\<rparr>"

definition wake :: "printer \<Rightarrow> printer" where
  "wake p = (if p = Asleep then At_Wait else p)"

text \<open>
  The steps of the threads of the logger. \<open>lg_notices\<close> counts the callers of \<open>log\<close> that have
  stored their message and not yet notified.
\<close>

inductive lg_step :: "logger \<Rightarrow> logger \<Rightarrow> bool" where
  log_notify: "lg_notices s = Suc k \<Longrightarrow> lg_step s (s\<lparr>lg_notices := k, lg_printer := wake (lg_printer s)\<rparr>)"
| loop_on: "lg_printer s = At_Loop \<Longrightarrow> lg_running s \<or> lg_queue s \<noteq> [] \<Longrightarrow> lg_step s (s\<lparr>lg_printer := At_Wait\<rparr>)"
| loop_end: "lg_printer s = At_Loop \<Longrightarrow> \<not> lg_running s \<Longrightarrow> lg_queue s = [] \<Longrightarrow> lg_step s (s\<lparr>lg_printer := Ended\<rparr>)"
| test_false: "lg_printer s = At_Wait \<Longrightarrow> lg_queue s = [] \<Longrightarrow> lg_running s \<Longrightarrow> lg_step s (s\<lparr>lg_printer := Tested_False\<rparr>)"
| test_end: "lg_printer s = At_Wait \<Longrightarrow> lg_queue s = [] \<Longrightarrow> \<not> lg_running s \<Longrightarrow> lg_step s (s\<lparr>lg_printer := Ended\<rparr>)"
| test_take: "lg_printer s = At_Wait \<Longrightarrow> lg_queue s = m # ms \<Longrightarrow>
     lg_step s (s\<lparr>lg_printer := Printing m, lg_queue := ms\<rparr>)"
| fall_asleep: "lg_printer s = Tested_False \<Longrightarrow> lg_step s (s\<lparr>lg_printer := Asleep\<rparr>)"
| print: "lg_printer s = Printing m \<Longrightarrow>
     lg_step s (s\<lparr>lg_printer := At_Loop, lg_output := lg_output s @ [print_message m]\<rparr>)"
| clear_flag: "lg_destructor s = Alive \<Longrightarrow> lg_step s (s\<lparr>lg_destructor := Flag_Cleared, lg_running := False\<rparr>)"
| notify_all: "lg_destructor s = Flag_Cleared \<Longrightarrow>
     lg_step s (s\<lparr>lg_destructor := Joining, lg_printer := wake (lg_printer s)\<rparr>)"
| join: "lg_destructor s = Joining \<Longrightarrow> lg_printer s = Ended \<Longrightarrow> lg_step s (s\<lparr>lg_destructor := Gone\<rparr>)"

text \<open>
  What comes from outside: a new call of \<open>log\<close>, which needs the mutex to store its message, and
  a spurious wake-up.
\<close>

inductive lg_outside :: "logger \<Rightarrow> logger \<Rightarrow> bool" where
  log_push: "lg_printer s \<noteq> Tested_False \<Longrightarrow> m \<in> {LOG_INFO src line oss now, LOG_WARN src line oss now, LOG_ERROR src line oss now, LOG_DEBUG src line oss now} \<Longrightarrow>
     lg_outside s (log_store m s)"
| spurious: "lg_printer s = Asleep \<Longrightarrow> lg_outside s (s\<lparr>lg_printer := At_Wait\<rparr>)"

definition lg_any :: "logger \<Rightarrow> logger \<Rightarrow> bool" where
  "lg_any s t \<longleftrightarrow> lg_step s t \<or> lg_outside s t"

section \<open>The invariant\<close>

definition in_print :: "logger \<Rightarrow> LogMessage list" where
  "in_print s = (case lg_printer s of Printing m \<Rightarrow> [m] | _ \<Rightarrow> [])"

definition logger_ok :: "logger \<Rightarrow> bool" where
  "logger_ok s \<longleftrightarrow>
     map print_message (lg_logged s) = lg_output s @ map print_message (in_print s @ lg_queue s)
     \<and> (lg_printer s \<in> {Tested_False, Asleep} \<and> lg_queue s \<noteq> [] \<longrightarrow> lg_printer s = Asleep \<and> 0 < lg_notices s)
     \<and> (lg_running s \<longleftrightarrow> lg_destructor s = Alive)
     \<and> (lg_printer s = Ended \<longrightarrow> \<not> lg_running s)
     \<and> (lg_destructor s = Gone \<longrightarrow> lg_printer s = Ended)"

lemma logger_ok_step: "lg_step s t \<Longrightarrow> logger_ok s \<Longrightarrow> logger_ok t"
  by (induction rule: lg_step.induct)
    (auto simp: logger_ok_def in_print_def wake_def split: printer.splits if_splits)

lemma logger_ok_outside: "lg_outside s t \<Longrightarrow> logger_ok s \<Longrightarrow> logger_ok t"
  by (induction rule: lg_outside.induct) (auto simp: logger_ok_def in_print_def log_store_def split: printer.splits)

text \<open>Every message logged shows its text, level and the file's base name; errors go to \<open>std::cerr\<close>.\<close>

definition well_printed :: "LogMessage \<Rightarrow> bool" where
  "well_printed m \<longleftrightarrow> (\<exists>file line oss now level. print_message m = (level = ''ERROR'',
     ''['' @ now @ ''] ['' @ level @ ''] ['' @ base_name file @ '':'' @ show_int line @ ''] '' @ oss @ [CHR 0x0A])
     \<and> level \<in> {''INFO '', ''WARN '', ''ERROR'', ''DEBUG''})"

lemma make_well_printed: "well_printed (make_message level file line oss now)"
  unfolding well_printed_def
  by (intro exI [of _ "file"] exI [of _ line] exI [of _ oss] exI [of _ now] exI [of _ "level_str level"], cases level)
    (simp_all add: print_message_def make_message_def)

lemma macros_well_printed:
  "well_printed (LOG_INFO file line oss now)" "well_printed (LOG_WARN file line oss now)"
  "well_printed (LOG_ERROR file line oss now)" "well_printed (LOG_DEBUG file line oss now)"
  by (simp_all add: LOG_INFO_def LOG_WARN_def LOG_ERROR_def LOG_DEBUG_def make_well_printed)

interpretation logged: invariant_of_steps "\<lambda>s. s = new_logger" lg_any "\<lambda>s. \<forall>m\<in>set (lg_logged s). well_printed m"
proof unfold_locales
  show "\<forall>m\<in>set (lg_logged t). well_printed m" if "\<forall>m\<in>set (lg_logged s). well_printed m" "lg_any s t" for s t
    using that(2,1) macros_well_printed unfolding lg_any_def
    by (auto elim!: lg_step.cases lg_outside.cases simp: log_store_def)
qed (simp add: new_logger_def)

interpretation log: invariant_of_steps "\<lambda>s. s = new_logger" lg_any logger_ok
  by unfold_locales
    (auto simp: lg_any_def intro: logger_ok_step logger_ok_outside,
      simp add: logger_ok_def new_logger_def in_print_def)

section \<open>Properties\<close>

text \<open>C32: whatever the interleaving, messages are printed exactly once and in the order they were
  logged, each as one line with its time stamp, level, place and text, and as long as messages
  wait in the queue the printing thread is awake or a notification is on its way to it.\<close>

theorem log_in_order:
  assumes "lg_any\<^sup>*\<^sup>* new_logger s"
  shows "(\<exists>rest. map print_message (lg_logged s) = lg_output s @ rest)
    \<and> (lg_printer s = Asleep \<and> lg_queue s \<noteq> [] \<longrightarrow> 0 < lg_notices s)
    \<and> (lg_destructor s = Gone \<longrightarrow> map print_message (lg_logged s) = lg_output s @ map print_message (lg_queue s))
    \<and> (\<forall>m\<in>set (lg_logged s). well_printed m)"
proof -
  have "logger_ok s" by (rule log.inv_reachable [OF refl assms])
  moreover have "\<forall>m\<in>set (lg_logged s). well_printed m" by (rule logged.inv_reachable [OF refl assms])
  ultimately show ?thesis by (auto simp: logger_ok_def in_print_def)
qed

text \<open>The printing thread asleep, the destructor past its notification.\<close>

definition stuck :: logger where
  "stuck = new_logger\<lparr>lg_running := False, lg_printer := Asleep, lg_destructor := Joining\<rparr>"

text \<open>C33: the destructor can lose its wake-up. It clears \<open>running_\<close> and notifies without holding the
  mutex; when that falls between the printing thread's test of the predicate and its falling
  asleep, the thread sleeps for good and the destructor waits for it for good: no thread of the
  logger has a step, and only a new message or a spurious wake-up could free them.\<close>

theorem destructor_can_hang: "lg_step\<^sup>*\<^sup>* new_logger stuck \<and> (\<forall>t. \<not> lg_step stuck t) \<and> lg_destructor stuck \<noteq> Gone"
proof -
  let ?s1 = "new_logger\<lparr>lg_printer := At_Wait\<rparr>" and ?s2 = "new_logger\<lparr>lg_printer := Tested_False\<rparr>"
  let ?s3 = "?s2\<lparr>lg_destructor := Flag_Cleared, lg_running := False\<rparr>"
  let ?s4 = "?s3\<lparr>lg_destructor := Joining\<rparr>"
  have "lg_step new_logger ?s1" by (rule loop_on) (simp_all add: new_logger_def)
  moreover have "lg_step ?s1 ?s2" using test_false [of ?s1] by (simp add: new_logger_def)
  moreover have "lg_step ?s2 ?s3" by (rule clear_flag) (simp add: new_logger_def)
  moreover have "lg_step ?s3 ?s4" using notify_all [of ?s3] by (simp add: wake_def new_logger_def)
  moreover have "lg_step ?s4 stuck" using fall_asleep [of ?s4] by (simp add: stuck_def new_logger_def)
  ultimately have "lg_step\<^sup>*\<^sup>* new_logger stuck" by (meson converse_rtranclp_into_rtranclp rtranclp.rtrancl_refl)
  moreover have "\<not> lg_step stuck t" for t
    by (auto elim!: lg_step.cases simp: stuck_def new_logger_def)
  ultimately show ?thesis by (simp add: stuck_def)
qed

theorem log_in_order_witness:
  "\<exists>s. lg_any\<^sup>*\<^sup>* new_logger s \<and> lg_logged s = [LOG_INFO ''a/b.cpp'' 3 ''hi'' ''now'']
     \<and> map print_message (lg_logged s) = lg_output s @ map print_message (lg_queue s)"
proof -
  let ?m = "LOG_INFO ''a/b.cpp'' 3 ''hi'' ''now''"
  let ?s1 = "new_logger\<lparr>lg_queue := [?m], lg_logged := [?m], lg_notices := 1\<rparr>"
  have "lg_any new_logger ?s1" using log_push [where s = new_logger and m = ?m and src = "''a/b.cpp''" and line = 3 and oss = "''hi''" and now = "''now''"]
    by (simp add: lg_any_def new_logger_def log_store_def)
  then have reach: "lg_any\<^sup>*\<^sup>* new_logger ?s1" by (rule r_into_rtranclp)
  from log_in_order [OF reach] show ?thesis
    by (intro exI [of _ ?s1]) (simp add: new_logger_def reach [unfolded new_logger_def, simplified])
qed

end
