(* ===== verification/Winsock.thy ===== *)
theory Winsock
  imports Prelude
begin

text \<open>
  The socket interface of the operating system, which the program only calls. What a call to
  \<open>recv\<close> or \<open>send\<close> answers is a parameter: every socket carries two functions that give the
  system's answer to its next call, from the number of the call, the requested length and,
  for \<open>recv\<close>, how much the peer has sent that is still unread. Nothing is assumed of the
  answers here. What the documentation of the two calls promises is stated as the named
  hypotheses \<open>recv_contract\<close> and \<open>send_contract\<close>, and the absence of errors as
  \<open>recv_reliable\<close> and \<open>send_reliable\<close>.
\<close>

text \<open>A count of bytes, or \<open>SOCKET_ERROR\<close> with the value of \<open>WSAGetLastError()\<close>.\<close>

datatype os_answer = OS_count nat | OS_error int

record socket =
  sk_rx :: bytes
  sk_rx_answer :: "nat \<Rightarrow> int \<Rightarrow> nat \<Rightarrow> os_answer"
  sk_rx_calls :: nat
  sk_tx :: bytes
  sk_tx_answer :: "nat \<Rightarrow> int \<Rightarrow> os_answer"
  sk_tx_calls :: nat
  sk_open :: bool

text \<open>
  \<open>sk_rx\<close> is the stream the peer sends on the connection, less what has been read;
  \<open>sk_tx\<close> is what the system has accepted for sending. A call to \<open>recv\<close> answered with a
  count takes that many bytes off the front of the stream.
\<close>

definition recv :: "socket \<Rightarrow> int \<Rightarrow> (int + bytes) \<times> socket" where
  "recv s n =
     (let t = s\<lparr>sk_rx_calls := Suc (sk_rx_calls s)\<rparr>
      in case sk_rx_answer s (sk_rx_calls s) n (length (sk_rx s)) of
           OS_error e \<Rightarrow> (Inl e, t)
         | OS_count k \<Rightarrow> (Inr (take k (sk_rx s)), t\<lparr>sk_rx := drop k (sk_rx s)\<rparr>))"

definition send :: "socket \<Rightarrow> bytes \<Rightarrow> int \<Rightarrow> (int + nat) \<times> socket" where
  "send s d n =
     (let t = s\<lparr>sk_tx_calls := Suc (sk_tx_calls s)\<rparr>
      in case sk_tx_answer s (sk_tx_calls s) n of
           OS_error e \<Rightarrow> (Inl e, t)
         | OS_count k \<Rightarrow> (Inr k, t\<lparr>sk_tx := sk_tx s @ take k d\<rparr>))"

definition closesocket :: "socket \<Rightarrow> socket" where
  "closesocket s = s\<lparr>sk_open := False\<rparr>"

text \<open>The size of a socket is what is still to be read from it: what loops over messages consume.\<close>

instantiation socket_ext :: (type) size
begin

definition size_socket_ext :: "'a socket_scheme \<Rightarrow> nat" where
  "size_socket_ext s = length (sk_rx s)"

instance ..

end

section \<open>The documented behaviour\<close>

text \<open>
  \<open>recv\<close> never delivers more than was asked for, and when asked for something it delivers
  nothing only at the end of the stream, when the peer has closed the connection.
\<close>

definition recv_contract :: "socket \<Rightarrow> bool" where
  "recv_contract s \<longleftrightarrow>
     (\<forall>i n av k. sk_rx_answer s i n av = OS_count k \<longrightarrow> k \<le> nat n \<and> (0 < n \<and> 0 < av \<longrightarrow> 0 < k))"

definition send_contract :: "socket \<Rightarrow> bool" where
  "send_contract s \<longleftrightarrow> (\<forall>i n k. sk_tx_answer s i n = OS_count k \<longrightarrow> k \<le> nat n)"

text \<open>The connection stays up: no call reports an error, and \<open>send\<close> makes progress.\<close>

definition recv_reliable :: "socket \<Rightarrow> bool" where
  "recv_reliable s \<longleftrightarrow> (\<forall>i n av. 0 < n \<longrightarrow> (\<exists>k. sk_rx_answer s i n av = OS_count k))"

definition send_reliable :: "socket \<Rightarrow> bool" where
  "send_reliable s \<longleftrightarrow> (\<forall>i n. 0 < n \<longrightarrow> (\<exists>k>0. sk_tx_answer s i n = OS_count k))"

abbreviation wire_ok :: "socket \<Rightarrow> bool" where
  "wire_ok s \<equiv> recv_contract s \<and> recv_reliable s \<and> send_contract s \<and> send_reliable s"

lemmas winsock_defs = recv_contract_def send_contract_def recv_reliable_def send_reliable_def

text \<open>What a call leaves alone.\<close>

lemma recv_frame:
  "recv s n = (r, t) \<Longrightarrow>
     sk_rx_answer t = sk_rx_answer s \<and> sk_tx t = sk_tx s \<and> sk_tx_answer t = sk_tx_answer s
     \<and> sk_tx_calls t = sk_tx_calls s \<and> sk_open t = sk_open s"
  by (auto simp: recv_def Let_def split: os_answer.splits)

lemma send_frame:
  "send s d n = (r, t) \<Longrightarrow>
     sk_tx_answer t = sk_tx_answer s \<and> sk_rx t = sk_rx s \<and> sk_rx_answer t = sk_rx_answer s
     \<and> sk_rx_calls t = sk_rx_calls s \<and> sk_open t = sk_open s"
  by (auto simp: send_def Let_def split: os_answer.splits)

lemma recv_error_rx: "recv s n = (Inl e, t) \<Longrightarrow> sk_rx t = sk_rx s"
  by (auto simp: recv_def Let_def split: os_answer.splits)

lemma recv_data_rx: "recv s n = (Inr bs, t) \<Longrightarrow> sk_rx s = bs @ sk_rx t"
  by (auto simp: recv_def Let_def split: os_answer.splits)

lemma recv_data_length: "recv_contract s \<Longrightarrow> recv s n = (Inr bs, t) \<Longrightarrow> length bs \<le> nat n"
  by (auto simp: recv_def Let_def recv_contract_def min_le_iff_disj split: os_answer.splits)

lemma recv_progress:
  assumes "recv_contract s" and "recv_reliable s" and "0 < n" and "sk_rx s \<noteq> []"
  obtains bs t where "recv s n = (Inr bs, t)" and "bs \<noteq> []"
proof -
  obtain k where k: "sk_rx_answer s (sk_rx_calls s) n (length (sk_rx s)) = OS_count k"
    using assms(2,3) unfolding recv_reliable_def by blast
  with assms(1,3,4) have "0 < k" unfolding recv_contract_def by blast
  with assms(4) have "take k (sk_rx s) \<noteq> []" by simp
  moreover have "recv s n = (Inr (take k (sk_rx s)), snd (recv s n))"
    using k by (simp add: recv_def Let_def)
  ultimately show thesis by (rule that [rotated])
qed

lemma send_error_tx: "send s d n = (Inl e, t) \<Longrightarrow> sk_tx t = sk_tx s"
  by (auto simp: send_def Let_def split: os_answer.splits)

lemma send_data_tx: "send s d n = (Inr k, t) \<Longrightarrow> sk_tx t = sk_tx s @ take k d"
  by (auto simp: send_def Let_def split: os_answer.splits)

lemma send_data_count: "send_contract s \<Longrightarrow> send s d n = (Inr k, t) \<Longrightarrow> k \<le> nat n"
  by (auto simp: send_def Let_def send_contract_def split: os_answer.splits)

lemma send_progress:
  assumes "send_reliable s" and "0 < n"
  obtains k t where "send s d n = (Inr k, t)" and "0 < k"
proof -
  obtain k where "0 < k" and "sk_tx_answer s (sk_tx_calls s) n = OS_count k"
    using assms unfolding send_reliable_def by blast
  then show thesis by (intro that) (auto simp: send_def Let_def)
qed

section \<open>Concrete sockets\<close>

text \<open>
  Three behaviours the contracts allow, used wherever a statement is evaluated: everything at
  once, one byte per call, and a connection on which every call fails.
\<close>

definition prompt_socket :: "bytes \<Rightarrow> socket" where
  "prompt_socket bs =
     \<lparr>sk_rx = bs, sk_rx_answer = (\<lambda>i n av. OS_count (min (nat n) av)), sk_rx_calls = 0,
      sk_tx = [], sk_tx_answer = (\<lambda>i n. OS_count (nat n)), sk_tx_calls = 0, sk_open = True\<rparr>"

definition trickle_socket :: "bytes \<Rightarrow> socket" where
  "trickle_socket bs =
     \<lparr>sk_rx = bs, sk_rx_answer = (\<lambda>i n av. OS_count (min (nat n) (min 1 av))), sk_rx_calls = 0,
      sk_tx = [], sk_tx_answer = (\<lambda>i n. OS_count (min (nat n) 1)), sk_tx_calls = 0, sk_open = True\<rparr>"

definition broken_socket :: "bytes \<Rightarrow> socket" where
  "broken_socket bs =
     \<lparr>sk_rx = bs, sk_rx_answer = (\<lambda>i n av. OS_error 10054), sk_rx_calls = 0,
      sk_tx = [], sk_tx_answer = (\<lambda>i n. OS_error 10054), sk_tx_calls = 0, sk_open = True\<rparr>"

lemma prompt_socket_ok [simp]:
  "recv_contract (prompt_socket bs)" "send_contract (prompt_socket bs)"
  "recv_reliable (prompt_socket bs)" "send_reliable (prompt_socket bs)"
  by (auto simp: winsock_defs prompt_socket_def)

lemma trickle_socket_ok [simp]:
  "recv_contract (trickle_socket bs)" "send_contract (trickle_socket bs)"
  "recv_reliable (trickle_socket bs)" "send_reliable (trickle_socket bs)"
  by (auto simp: winsock_defs trickle_socket_def)

lemma broken_socket_ok [simp]:
  "recv_contract (broken_socket bs)" "send_contract (broken_socket bs)"
  by (auto simp: winsock_defs broken_socket_def)

lemma socket_sel [simp]:
  "sk_rx (prompt_socket bs) = bs" "sk_tx (prompt_socket bs) = []" "sk_open (prompt_socket bs)"
  "sk_rx (trickle_socket bs) = bs" "sk_tx (trickle_socket bs) = []" "sk_open (trickle_socket bs)"
  "sk_rx (broken_socket bs) = bs" "sk_tx (broken_socket bs) = []" "sk_open (broken_socket bs)"
  by (auto simp: prompt_socket_def trickle_socket_def broken_socket_def)

end
