(* ===== verification/Net_Utils.thy ===== *)
theory Net_Utils
  imports Winsock
begin

text \<open>
  src/src/common/network_utils.cpp: the loops that send or receive exactly \<open>length\<close> bytes
  over a socket whose calls may move fewer. The diagnostics written to \<open>std::cerr\<close> are left
  out; they change nothing the functions return.
\<close>

section \<open>The loops\<close>

text \<open>
  \<open>recv_loop len tot buf s\<close> is the loop with \<open>total_received = tot\<close> and the bytes
  already stored in \<open>buf\<close>. The length passed to \<open>recv\<close> goes through
  \<open>static_cast<int>\<close>.
\<close>

function recv_loop :: "nat \<Rightarrow> nat \<Rightarrow> bytes \<Rightarrow> socket \<Rightarrow> bytes option \<times> socket" where
  "recv_loop len tot buf s =
     (if tot < len then
        (case recv s (c_int (len - tot)) of
           (Inl e, t) \<Rightarrow> (None, t)
         | (Inr bs, t) \<Rightarrow>
             if length bs = 0 then (None, t)
             else recv_loop len (tot + length bs) (buf @ bs) t)
      else (Some buf, s))"
  by pat_completeness auto
termination
  by (relation "measure (\<lambda>(len, tot, buf, s). len - tot)") (auto intro: diff_less_mono2)

text \<open>\<open>recv_all\<close> returns the filled buffer where the code returns true, and None for false.\<close>

definition recv_all :: "socket \<Rightarrow> nat \<Rightarrow> bytes option \<times> socket" where
  "recv_all s len = recv_loop len 0 [] s"

function send_loop :: "nat \<Rightarrow> nat \<Rightarrow> bytes \<Rightarrow> socket \<Rightarrow> bool \<times> socket" where
  "send_loop len tot d s =
     (if tot < len then
        (case send s (drop tot d) (c_int (len - tot)) of
           (Inl e, t) \<Rightarrow> (False, t)
         | (Inr k, t) \<Rightarrow>
             if k = 0 then (False, t) else send_loop len (tot + k) d t)
      else (True, s))"
  by pat_completeness auto
termination
  by (relation "measure (\<lambda>(len, tot, d, s). len - tot)") (auto intro: diff_less_mono2)

definition send_all :: "socket \<Rightarrow> bytes \<Rightarrow> nat \<Rightarrow> bool \<times> socket" where
  "send_all s d len = send_loop len 0 d s"

declare recv_loop.simps [simp del] send_loop.simps [simp del]

section \<open>Receiving\<close>

text \<open>One rule for every fact about a run of the loop: how it can end, and one more turn.\<close>

lemma recv_loop_rule [consumes 1, case_names finish stop more]:
  assumes "recv_loop len tot buf s = (r, t)"
    and "\<And>len tot buf s. len \<le> tot \<Longrightarrow> P len tot buf s (Some buf) s"
    and "\<And>len tot buf s e t. tot < len \<Longrightarrow> recv s (c_int (len - tot)) = (e, t) \<Longrightarrow>
           e = Inr [] \<or> isl e \<Longrightarrow> P len tot buf s None t"
    and "\<And>len tot buf s bs u r t. tot < len \<Longrightarrow> recv s (c_int (len - tot)) = (Inr bs, u) \<Longrightarrow>
           bs \<noteq> [] \<Longrightarrow> P len (tot + length bs) (buf @ bs) u r t \<Longrightarrow> P len tot buf s r t"
  shows "P len tot buf s r t"
  using assms(1)
proof (induction len tot buf s arbitrary: r t rule: recv_loop.induct)
  case (1 len tot buf s)
  show ?case
  proof (cases "tot < len")
    case False
    with "1.prems" have "r = Some buf \<and> t = s" by (subst (asm) recv_loop.simps) simp
    with assms(2) [of len tot buf s] False show ?thesis by (simp add: not_less)
  next
    case True
    obtain e u where e: "recv s (c_int (len - tot)) = (e, u)" by fastforce
    show ?thesis
    proof (cases "e = Inr [] \<or> isl e")
      case True
      with "1.prems" e \<open>tot < len\<close> have "r = None \<and> t = u"
        by (subst (asm) recv_loop.simps) (auto split: sum.splits)
      with assms(3) [OF \<open>tot < len\<close> e True] show ?thesis by simp
    next
      case False
      then obtain bs where bs: "e = Inr bs" "bs \<noteq> []" by (cases e) auto
      with "1.prems" e \<open>tot < len\<close> have "recv_loop len (tot + length bs) (buf @ bs) u = (r, t)"
        by (subst (asm) recv_loop.simps) auto
      with "1.IH" e bs \<open>tot < len\<close> have "P len (tot + length bs) (buf @ bs) u r t" by auto
      with assms(4) e bs \<open>tot < len\<close> show ?thesis by blast
    qed
  qed
qed

lemma recv_loop_frame:
  "recv_loop len tot buf s = (r, t) \<Longrightarrow>
     sk_rx_answer t = sk_rx_answer s \<and> sk_tx t = sk_tx s \<and> sk_tx_answer t = sk_tx_answer s
     \<and> sk_tx_calls t = sk_tx_calls s \<and> sk_open t = sk_open s"
  by (induction rule: recv_loop_rule) (auto dest: recv_frame)

lemma recv_loop_prefix: "recv_loop len tot buf s = (r, t) \<Longrightarrow> \<exists>xs. sk_rx s = xs @ sk_rx t"
proof (induction rule: recv_loop_rule)
  case (stop len tot buf s e t)
  then show ?case by (cases e) (auto dest: recv_error_rx recv_data_rx)
qed (auto dest!: recv_data_rx)

lemma recv_loop_data:
  "recv_loop len tot buf s = (r, t) \<Longrightarrow> r = Some bs \<Longrightarrow>
     \<exists>xs. bs = buf @ xs \<and> sk_rx s = xs @ sk_rx t \<and> len \<le> tot + length xs"
proof (induction rule: recv_loop_rule)
  case (more len tot buf s bs' u r t)
  then obtain xs where "bs = (buf @ bs') @ xs" "sk_rx u = xs @ sk_rx t" "len \<le> tot + length bs' + length xs"
    by auto
  with recv_data_rx [OF more.hyps(2)] show ?case by (intro exI [of _ "bs' @ xs"]) simp
qed auto

lemma recv_contract_cong: "sk_rx_answer t = sk_rx_answer s \<Longrightarrow> recv_contract t = recv_contract s"
  by (simp add: recv_contract_def)

lemma recv_reliable_cong: "sk_rx_answer t = sk_rx_answer s \<Longrightarrow> recv_reliable t = recv_reliable s"
  by (simp add: recv_reliable_def)

lemma recv_contract_step: "recv s n = (r, t) \<Longrightarrow> recv_contract t = recv_contract s"
  using recv_contract_cong recv_frame by blast

lemma recv_reliable_step: "recv s n = (r, t) \<Longrightarrow> recv_reliable t = recv_reliable s"
  using recv_reliable_cong recv_frame by blast

text \<open>One turn never receives more than is missing, so the loop fills the buffer exactly.\<close>

lemma recv_turn_bound:
  assumes "recv_contract s" and "recv s (c_int n) = (Inr bs, t)"
  shows "length bs \<le> n"
proof -
  have "length bs \<le> n mod 2 ^ 32"
    using recv_data_length [OF assms] nat_c_int_le by (rule order_trans)
  also have "\<dots> \<le> n" by (rule mod_less_eq_dividend)
  finally show ?thesis .
qed

lemma recv_loop_length:
  "recv_loop len tot buf s = (r, t) \<Longrightarrow> recv_contract s \<Longrightarrow> tot \<le> len \<Longrightarrow> r = Some bs \<Longrightarrow>
     length bs = length buf + (len - tot)"
proof (induction rule: recv_loop_rule)
  case (more len tot buf s bs' u r t)
  from recv_turn_bound [OF more.prems(1) more.hyps(2)] more.hyps(1)
  have "tot + length bs' \<le> len" by simp
  with more.IH more.prems recv_contract_step [OF more.hyps(2)] show ?case by simp
qed auto

lemma recv_loop_complete:
  "recv_loop len tot buf s = (r, t) \<Longrightarrow> recv_contract s \<Longrightarrow> recv_reliable s \<Longrightarrow>
     tot \<le> len \<Longrightarrow> len - tot < 2 ^ 31 \<Longrightarrow> len - tot \<le> length (sk_rx s) \<Longrightarrow> r \<noteq> None"
proof (induction rule: recv_loop_rule)
  case (stop len tot buf s e t)
  have "c_int (len - tot) > 0" using stop.hyps(1) stop.prems(4) by (simp add: c_int_small)
  moreover have "sk_rx s \<noteq> []" using stop.hyps(1) stop.prems(5) by auto
  ultimately obtain bs u where "recv s (c_int (len - tot)) = (Inr bs, u)" "bs \<noteq> []"
    using recv_progress stop.prems(1,2) by blast
  with stop.hyps(2,3) show ?case by auto
next
  case (more len tot buf s bs u r t)
  note bound = recv_turn_bound [OF more.prems(1) more.hyps(2)]
  have "length (sk_rx s) = length bs + length (sk_rx u)"
    using recv_data_rx [OF more.hyps(2)] by simp
  with bound more.IH more.prems more.hyps(1) show ?case
    using recv_contract_step [OF more.hyps(2)] recv_reliable_step [OF more.hyps(2)] by simp
qed simp

text \<open>
  From 2 GiB on the cast makes the length zero or negative before the loop can finish, so
  the request fails whatever the peer sends.
\<close>

lemma recv_loop_large:
  "recv_loop len tot buf s = (r, t) \<Longrightarrow> recv_contract s \<Longrightarrow> 2 ^ 31 \<le> len - tot \<Longrightarrow> r = None"
proof (induction rule: recv_loop_rule)
  case (more len tot buf s bs u r t)
  have "length bs \<le> nat (c_int (len - tot))" "0 < length bs"
    using recv_data_length [OF more.prems(1) more.hyps(2)] more.hyps(3) by auto
  then have "2 ^ 31 \<le> len - tot - length bs"
    using more.prems(2) by (rule large_minus_turn)
  with more.IH more.prems(1) show ?case
    using recv_contract_step [OF more.hyps(2)] by (simp add: diff_diff_left)
qed auto

section \<open>Sending\<close>

lemma send_loop_rule [consumes 1, case_names finish stop more]:
  assumes "send_loop len tot d s = (r, t)"
    and "\<And>len tot d s. len \<le> tot \<Longrightarrow> P len tot d s True s"
    and "\<And>len tot d s e t. tot < len \<Longrightarrow> send s (drop tot d) (c_int (len - tot)) = (e, t) \<Longrightarrow>
           e = Inr 0 \<or> isl e \<Longrightarrow> P len tot d s False t"
    and "\<And>len tot d s k u r t. tot < len \<Longrightarrow> send s (drop tot d) (c_int (len - tot)) = (Inr k, u) \<Longrightarrow>
           0 < k \<Longrightarrow> P len (tot + k) d u r t \<Longrightarrow> P len tot d s r t"
  shows "P len tot d s r t"
  using assms(1)
proof (induction len tot d s arbitrary: r t rule: send_loop.induct)
  case (1 len tot d s)
  show ?case
  proof (cases "tot < len")
    case False
    with "1.prems" have "r = True \<and> t = s" by (subst (asm) send_loop.simps) simp
    with assms(2) [of len tot d s] False show ?thesis by (simp add: not_less)
  next
    case True
    obtain e u where e: "send s (drop tot d) (c_int (len - tot)) = (e, u)" by fastforce
    show ?thesis
    proof (cases "e = Inr 0 \<or> isl e")
      case True
      with "1.prems" e \<open>tot < len\<close> have "r = False \<and> t = u"
        by (subst (asm) send_loop.simps) (auto split: sum.splits)
      with assms(3) [OF \<open>tot < len\<close> e True] show ?thesis by simp
    next
      case False
      then obtain k where k: "e = Inr k" "0 < k" by (cases e) auto
      with "1.prems" e \<open>tot < len\<close> have "send_loop len (tot + k) d u = (r, t)"
        by (subst (asm) send_loop.simps) auto
      with "1.IH" e k \<open>tot < len\<close> have "P len (tot + k) d u r t" by auto
      with assms(4) e k \<open>tot < len\<close> show ?thesis by blast
    qed
  qed
qed

lemma send_loop_frame:
  "send_loop len tot d s = (r, t) \<Longrightarrow>
     sk_tx_answer t = sk_tx_answer s \<and> sk_rx t = sk_rx s \<and> sk_rx_answer t = sk_rx_answer s
     \<and> sk_rx_calls t = sk_rx_calls s \<and> sk_open t = sk_open s"
  by (induction rule: send_loop_rule) (auto dest: send_frame)

lemma send_loop_grows: "send_loop len tot d s = (r, t) \<Longrightarrow> prefix (sk_tx s) (sk_tx t)"
proof (induction rule: send_loop_rule)
  case (stop len tot d s e t)
  then show ?case by (cases e) (auto dest: send_error_tx send_data_tx)
next
  case (more len tot d s k u r t)
  then show ?case using send_data_tx [OF more.hyps(2)] by (auto simp: prefix_def)
qed simp

lemma send_contract_cong: "sk_tx_answer t = sk_tx_answer s \<Longrightarrow> send_contract t = send_contract s"
  by (simp add: send_contract_def)

lemma send_reliable_cong: "sk_tx_answer t = sk_tx_answer s \<Longrightarrow> send_reliable t = send_reliable s"
  by (simp add: send_reliable_def)

lemma send_contract_step: "send s d n = (r, t) \<Longrightarrow> send_contract t = send_contract s"
  using send_contract_cong send_frame by blast

lemma send_reliable_step: "send s d n = (r, t) \<Longrightarrow> send_reliable t = send_reliable s"
  using send_reliable_cong send_frame by blast

lemma send_turn_bound:
  assumes "send_contract s" and "send s d (c_int n) = (Inr k, t)"
  shows "k \<le> n"
proof -
  have "k \<le> n mod 2 ^ 32" using send_data_count [OF assms] nat_c_int_le by (rule order_trans)
  also have "\<dots> \<le> n" by (rule mod_less_eq_dividend)
  finally show ?thesis .
qed

text \<open>What goes out is a prefix of what was still to be sent, and all of it on success.\<close>

lemma send_loop_data:
  "send_loop len tot d s = (r, t) \<Longrightarrow> send_contract s \<Longrightarrow> tot \<le> len \<Longrightarrow> len \<le> length d \<Longrightarrow>
     \<exists>k. tot \<le> k \<and> k \<le> len \<and> sk_tx t = sk_tx s @ take (k - tot) (drop tot d) \<and> (r \<longrightarrow> k = len)"
proof (induction rule: send_loop_rule)
  case (stop len tot d s e t)
  then have "sk_tx t = sk_tx s" by (cases e) (auto dest: send_error_tx send_data_tx)
  with stop show ?case by (intro exI [of _ tot]) auto
next
  case (more len tot d s k u r t)
  have le: "tot + k \<le> len" using send_turn_bound [OF more.prems(1) more.hyps(2)] more.hyps(1) by simp
  with more.IH more.prems send_contract_step [OF more.hyps(2)] obtain j where j:
    "tot + k \<le> j" "j \<le> len" "sk_tx t = sk_tx u @ take (j - (tot + k)) (drop (tot + k) d)" "r \<longrightarrow> j = len"
    by auto
  have "take (j - tot) (drop tot d) = take k (drop tot d) @ take (j - (tot + k)) (drop (tot + k) d)"
    using take_add [of k "j - (tot + k)" "drop tot d"] j(1) by (simp add: add.commute)
  with j send_data_tx [OF more.hyps(2)] show ?case by (intro exI [of _ j]) auto
qed auto

lemma send_loop_complete:
  "send_loop len tot d s = (r, t) \<Longrightarrow> send_contract s \<Longrightarrow> send_reliable s \<Longrightarrow>
     tot \<le> len \<Longrightarrow> len - tot < 2 ^ 31 \<Longrightarrow> r"
proof (induction rule: send_loop_rule)
  case (stop len tot d s e t)
  have "c_int (len - tot) > 0" using stop.hyps(1) stop.prems(4) by (simp add: c_int_small)
  then obtain k u where "send s (drop tot d) (c_int (len - tot)) = (Inr k, u)" "0 < k"
    using send_progress stop.prems(2) by blast
  with stop.hyps(2,3) show ?case by auto
next
  case (more len tot d s k u r t)
  from send_turn_bound [OF more.prems(1) more.hyps(2)] more.IH more.prems more.hyps(1)
  show ?case using send_contract_step [OF more.hyps(2)] send_reliable_step [OF more.hyps(2)] by simp
qed simp

section \<open>The two loops keep the stream contracts\<close>

interpretation rx: byte_source recv_all sk_rx recv_contract recv_reliable
  "\<lambda>s. (sk_rx_answer s, sk_tx s, sk_tx_answer s, sk_tx_calls s, sk_open s)"
proof unfold_locales
  fix s :: socket and n bs t
  assume "recv_contract s" and r: "recv_all s n = (Some bs, t)"
  then show "length bs = n \<and> sk_rx s = bs @ sk_rx t"
    using recv_loop_length [of n 0 "[]" s _ t bs] recv_loop_data [of n 0 "[]" s _ t bs]
    by (auto simp: recv_all_def)
next
  fix s n r t
  assume r: "recv_all s n = (r, t)"
  note r' = r [unfolded recv_all_def]
  show "\<exists>xs. sk_rx s = xs @ sk_rx t" using recv_loop_prefix [OF r'] .
  from recv_loop_frame [OF r']
  show "recv_contract t = recv_contract s" "recv_reliable t = recv_reliable s"
    "(sk_rx_answer t, sk_tx t, sk_tx_answer t, sk_tx_calls t, sk_open t) =
       (sk_rx_answer s, sk_tx s, sk_tx_answer s, sk_tx_calls s, sk_open s)"
    by (auto simp: recv_contract_def recv_reliable_def)
next
  fix s :: socket and n :: nat
  assume "recv_contract s" "recv_reliable s" "n < 2 ^ 31" "n \<le> length (sk_rx s)"
  then show "\<exists>bs t. recv_all s n = (Some bs, t)"
    using recv_loop_complete [of n 0 "[]" s] by (cases "recv_all s n") (auto simp: recv_all_def)
qed

interpretation tx: byte_sink send_all sk_tx send_contract send_reliable
  "\<lambda>s. (sk_rx s, sk_rx_answer s, sk_rx_calls s, sk_tx_answer s, sk_open s)"
proof unfold_locales
  fix s :: socket and d :: bytes and n t
  assume "send_contract s" "n \<le> length d" "send_all s d n = (True, t)"
  then show "sk_tx t = sk_tx s @ take n d"
    using send_loop_data [of n 0 d s True t] by (auto simp: send_all_def)
next
  fix s :: socket and d :: bytes and n r t
  assume "send_contract s" "n \<le> length d" "send_all s d n = (r, t)"
  then show "\<exists>k\<le>n. sk_tx t = sk_tx s @ take k d"
    using send_loop_data [of n 0 d s r t] by (auto simp: send_all_def)
next
  fix s d n r t
  assume "send_all s d n = (r, t)"
  from send_loop_frame [OF this [unfolded send_all_def]]
  show "send_contract t = send_contract s" "send_reliable t = send_reliable s"
    "(sk_rx t, sk_rx_answer t, sk_rx_calls t, sk_tx_answer t, sk_open t) =
       (sk_rx s, sk_rx_answer s, sk_rx_calls s, sk_tx_answer s, sk_open s)"
    by (auto simp: send_contract_def send_reliable_def)
next
  fix s :: socket and d :: bytes and n :: nat
  assume "send_contract s" "send_reliable s" "n < 2 ^ 31"
  then show "\<exists>t. send_all s d n = (True, t)"
    using send_loop_complete [of n 0 d s] by (cases "send_all s d n") (auto simp: send_all_def)
qed

text \<open>
  Two frames used throughout: \<open>only_reads s t\<close> when nothing but the receiving side of the
  socket moved from s to t, and that only forwards, and \<open>only_writes s t\<close> for the sending side.
\<close>

definition only_reads :: "socket \<Rightarrow> socket \<Rightarrow> bool" where
  "only_reads s t \<longleftrightarrow> sk_rx_answer t = sk_rx_answer s \<and> sk_tx t = sk_tx s
     \<and> sk_tx_answer t = sk_tx_answer s \<and> sk_tx_calls t = sk_tx_calls s \<and> sk_open t = sk_open s
     \<and> suffix (sk_rx t) (sk_rx s)"

definition only_writes :: "socket \<Rightarrow> socket \<Rightarrow> bool" where
  "only_writes s t \<longleftrightarrow> sk_rx t = sk_rx s \<and> sk_rx_answer t = sk_rx_answer s
     \<and> sk_rx_calls t = sk_rx_calls s \<and> sk_tx_answer t = sk_tx_answer s \<and> sk_open t = sk_open s
     \<and> prefix (sk_tx s) (sk_tx t)"

lemma only_reads_refl [simp]: "only_reads s s"
  and only_writes_refl [simp]: "only_writes s s"
  by (simp_all add: only_reads_def only_writes_def)

lemma only_reads_trans [trans]: "only_reads s t \<Longrightarrow> only_reads t u \<Longrightarrow> only_reads s u"
  by (auto simp: only_reads_def intro: suffix_order.trans)

lemma only_reads_shrinks: "only_reads s t \<Longrightarrow> length (sk_rx t) \<le> length (sk_rx s)"
  by (auto simp: only_reads_def intro: suffix_length_le)

lemma only_writes_trans [trans]: "only_writes s t \<Longrightarrow> only_writes t u \<Longrightarrow> only_writes s u"
  by (auto simp: only_writes_def intro: prefix_order.trans)

text \<open>Either way, what has been sent stays sent.\<close>

lemma sent_stays:
  "only_reads s t \<Longrightarrow> prefix (sk_tx s) (sk_tx t)" "only_writes s t \<Longrightarrow> prefix (sk_tx s) (sk_tx t)"
  by (simp_all add: only_reads_def only_writes_def)

lemma only_reads_contracts:
  assumes "only_reads s t"
  shows "recv_contract t = recv_contract s" "recv_reliable t = recv_reliable s"
    "send_contract t = send_contract s" "send_reliable t = send_reliable s"
    "sk_tx t = sk_tx s" "sk_open t = sk_open s"
  using assms by (simp_all add: only_reads_def winsock_defs)

lemma only_writes_contracts:
  assumes "only_writes s t"
  shows "recv_contract t = recv_contract s" "recv_reliable t = recv_reliable s"
    "send_contract t = send_contract s" "send_reliable t = send_reliable s"
    "sk_rx t = sk_rx s" "sk_open t = sk_open s"
  using assms by (simp_all add: only_writes_def winsock_defs)

lemma recv_all_reads: "recv_all s n = (r, t) \<Longrightarrow> only_reads s t"
  using rx.rcv_rest [of s n r t] rx.rcv_prefix [of s n r t] by (auto simp: only_reads_def suffix_def)

lemma send_all_writes: "send_all s d n = (r, t) \<Longrightarrow> only_writes s t"
  using tx.snd_rest [of s d n r t] send_loop_grows [of n 0 d s r t] by (simp add: only_writes_def send_all_def)

lemma recv_all_append:
  assumes "recv_contract s" and "recv_reliable s" and "sk_rx s = xs @ ys" and "length xs < 2 ^ 31"
  obtains t where "recv_all s (length xs) = (Some xs, t)" and "sk_rx t = ys" and "only_reads s t"
  using rx.rcv_append [OF assms] recv_all_reads by metis

lemma send_all_complete:
  assumes "send_contract s" and "send_reliable s" and "length d < 2 ^ 31"
  obtains t where "send_all s d (length d) = (True, t)" and "sk_tx t = sk_tx s @ d" and "only_writes s t"
  using tx.snd_complete [OF assms] send_all_writes by metis

lemma recv_all_large:
  "recv_contract s \<Longrightarrow> 2 ^ 31 \<le> n \<Longrightarrow> fst (recv_all s n) = None"
  using recv_loop_large [of n 0 "[]" s] by (cases "recv_all s n") (auto simp: recv_all_def)

text \<open>Even without the contract a successful read takes at least n bytes off the stream.\<close>

lemma recv_all_consumes:
  "recv_all s n = (Some bs, t) \<Longrightarrow> n + length (sk_rx t) \<le> length (sk_rx s)"
  using recv_loop_data [of n 0 "[]" s _ t bs] by (auto simp: recv_all_def)

lemma recv_all_zero [simp]: "recv_all s 0 = (Some [], s)"
  by (simp add: recv_all_def recv_loop.simps)

lemma send_all_zero [simp]: "send_all s d 0 = (True, s)"
  by (simp add: send_all_def send_loop.simps)

section \<open>Properties\<close>

text \<open>C14: on a system that keeps the contract of \<open>recv\<close>, \<open>recv_all\<close> returns true only with
  exactly the next n bytes of the stream in the buffer; on a connection without errors it
  does so for every n below 2 GiB once the peer has sent n bytes, however the stream is cut
  into pieces; and from 2 GiB on it fails whatever the peer sends, because the length is
  cast to \<open>int\<close>.\<close>

theorem recv_all_exact:
  assumes "recv_contract s" and "recv_all s n = (r, t)"
  shows "(\<forall>bs. r = Some bs \<longrightarrow> bs = take n (sk_rx s) \<and> length bs = n \<and> sk_rx t = drop n (sk_rx s))
    \<and> (recv_reliable s \<and> n < 2 ^ 31 \<and> n \<le> length (sk_rx s) \<longrightarrow> r \<noteq> None)
    \<and> (2 ^ 31 \<le> n \<longrightarrow> r = None)"
  using rx.rcv_exact [OF assms(1)] rx.rcv_some [OF assms(1)] recv_all_large [OF assms(1)] assms(2)
  by (cases r) (force simp: append_eq_conv_conj)+

theorem recv_all_exact_witness:
  "recv_all (trickle_socket ''abcd'') 3 = (Some ''abc'', snd (recv_all (trickle_socket ''abcd'') 3))
   \<and> sk_rx (snd (recv_all (trickle_socket ''abcd'') 3)) = ''d''"
  using recv_all_exact [of "trickle_socket ''abcd''" 3 _ "snd (recv_all (trickle_socket ''abcd'') 3)",
    OF trickle_socket_ok(1) surjective_pairing]
  by (auto simp: prod_eq_iff)

text \<open>\<open>send_all\<close> hands the system a prefix of the data, in order and without
  repetition; all of it when it returns true, and on a connection without errors it always
  returns true for less than 2 GiB.\<close>

theorem send_all_exact:
  assumes "send_contract s" and "n \<le> length d" and "send_all s d n = (r, t)"
  shows "(\<exists>k\<le>n. sk_tx t = sk_tx s @ take k d \<and> (r \<longrightarrow> k = n))
    \<and> (send_reliable s \<and> n < 2 ^ 31 \<longrightarrow> r) \<and> sk_rx t = sk_rx s"
  using tx.snd_extends [OF assms] tx.snd_some [OF assms(1), of n d] tx.snd_rest [OF assms(3)] assms(3)
  by force

theorem send_all_exact_witness:
  "fst (send_all (trickle_socket []) ''hello'' 5)
   \<and> sk_tx (snd (send_all (trickle_socket []) ''hello'' 5)) = ''hello''"
  using send_all_exact [of "trickle_socket []" 5 "''hello''", OF trickle_socket_ok(2) _ surjective_pairing]
  by force

end
