(* ===== verification/File_System.thy ===== *)
theory File_System
  imports Prelude
begin

text \<open>
  What the program uses of \<open>std::filesystem\<close>, \<open>std::ofstream\<close> and \<open>std::ifstream\<close>, as the
  C++ standard defines them for Windows paths. How the operating system resolves a path
  string to a place on disk (letter case, dots, links) is a parameter, \<open>fs_resolve\<close>, and so
  is which calls fail, \<open>fs_fault\<close>.
\<close>

section \<open>Results that may be exceptions\<close>

datatype 'a result = Value 'a | Raised

section \<open>Paths\<close>

definition is_sep :: "byte \<Rightarrow> bool" where
  "is_sep c \<longleftrightarrow> c = CHR ''/'' \<or> c = CHR 0x5C"

definition is_letter :: "byte \<Rightarrow> bool" where
  "is_letter c \<longleftrightarrow> (let n = (of_char c :: nat) in 65 \<le> n \<and> n \<le> 90 \<or> 97 \<le> n \<and> n \<le> 122)"

text \<open>The root name of a path: a drive such as \<open>C:\<close>, or the host of a network path.\<close>

fun root_name :: "bytes \<Rightarrow> bytes" where
  "root_name (a # b # cs) =
     (if is_sep a \<and> is_sep b \<and> cs \<noteq> [] \<and> \<not> is_sep (hd cs)
      then a # b # takeWhile (\<lambda>c. \<not> is_sep c) cs
      else if is_letter a \<and> b = CHR '':'' then [a, b]
      else [])"
| "root_name _ = []"

definition after_root :: "bytes \<Rightarrow> bytes" where
  "after_root p = drop (length (root_name p)) p"

definition has_root_directory :: "bytes \<Rightarrow> bool" where
  "has_root_directory p \<longleftrightarrow> (case after_root p of [] \<Rightarrow> False | c # _ \<Rightarrow> is_sep c)"

definition is_absolute :: "bytes \<Rightarrow> bool" where
  "is_absolute p \<longleftrightarrow> root_name p \<noteq> [] \<and> has_root_directory p"

definition has_filename :: "bytes \<Rightarrow> bool" where
  "has_filename p \<longleftrightarrow> after_root p \<noteq> [] \<and> \<not> is_sep (last (after_root p))"

text \<open>\<open>operator/\<close>: an absolute path, or one with another root name, replaces the left side.\<close>

definition path_append :: "bytes \<Rightarrow> bytes \<Rightarrow> bytes" where
  "path_append a b =
     (if is_absolute b \<or> (root_name b \<noteq> [] \<and> root_name b \<noteq> root_name a) then b
      else if has_root_directory b then root_name a @ after_root b
      else if has_filename a then a @ [CHR 0x5C] @ after_root b
      else a @ after_root b)"

section \<open>The disk\<close>

type_synonym loc = "bytes list"

datatype node = Dir | File bytes

record filesys =
  fs_nodes :: "(loc \<times> node) list"
  fs_resolve :: "bytes \<Rightarrow> loc"
  fs_fault :: "nat \<Rightarrow> bool"
  fs_calls :: nat

text \<open>Every call asks the environment whether it fails.\<close>

definition fs_tick :: "filesys \<Rightarrow> bool \<times> filesys" where
  "fs_tick f = (fs_fault f (fs_calls f), f\<lparr>fs_calls := Suc (fs_calls f)\<rparr>)"

definition fs_at :: "filesys \<Rightarrow> loc \<Rightarrow> node option" where
  "fs_at f l = map_of (fs_nodes f) l"

definition fs_find :: "filesys \<Rightarrow> bytes \<Rightarrow> node option" where
  "fs_find f p = fs_at f (fs_resolve f p)"

definition fs_put :: "filesys \<Rightarrow> loc \<Rightarrow> node \<Rightarrow> filesys" where
  "fs_put f l n = f\<lparr>fs_nodes := AList.update l n (fs_nodes f)\<rparr>"

definition fs_del :: "filesys \<Rightarrow> loc \<Rightarrow> filesys" where
  "fs_del f l = f\<lparr>fs_nodes := AList.delete l (fs_nodes f)\<rparr>"

definition fs_is_dir :: "filesys \<Rightarrow> loc \<Rightarrow> bool" where
  "fs_is_dir f l \<longleftrightarrow> l = [] \<or> fs_at f l = Some Dir"

definition fs_children :: "filesys \<Rightarrow> loc \<Rightarrow> (bytes \<times> node) list" where
  "fs_children f l = map (\<lambda>(q, n). (last q, n)) (filter (\<lambda>(q, n). q \<noteq> [] \<and> butlast q = l) (fs_nodes f))"

definition fs_exists :: "filesys \<Rightarrow> bytes \<Rightarrow> bool result \<times> filesys" where
  "fs_exists f p =
     (let (bad, f) = fs_tick f in if bad then (Raised, f) else (Value (fs_find f p \<noteq> None), f))"

fun make_dirs :: "loc list \<Rightarrow> filesys \<Rightarrow> unit result \<times> filesys" where
  "make_dirs [] f = (Value (), f)"
| "make_dirs (l # ls) f =
     (case fs_at f l of
        None \<Rightarrow> make_dirs ls (fs_put f l Dir)
      | Some Dir \<Rightarrow> make_dirs ls f
      | Some (File c) \<Rightarrow> (Raised, f))"

text \<open>\<open>create_directories\<close> makes the missing directories from the root down.\<close>

definition fs_create_directories :: "filesys \<Rightarrow> bytes \<Rightarrow> unit result \<times> filesys" where
  "fs_create_directories f p =
     (let (bad, f) = fs_tick f
      in if bad then (Raised, f) else make_dirs (tl (prefixes (fs_resolve f p))) f)"

definition fs_remove :: "filesys \<Rightarrow> bytes \<Rightarrow> bool result \<times> filesys" where
  "fs_remove f p =
     (let (bad, f) = fs_tick f; l = fs_resolve f p
      in if bad then (Raised, f)
         else (case fs_at f l of
                 None \<Rightarrow> (Value False, f)
               | Some (File c) \<Rightarrow> (Value True, fs_del f l)
               | Some Dir \<Rightarrow> if fs_children f l = [] then (Value True, fs_del f l) else (Raised, f)))"

text \<open>
  Renaming moves a file, or a directory with everything below it; a directory cannot be moved
  to a place below itself.
\<close>

definition move_entry :: "loc \<Rightarrow> loc \<Rightarrow> loc \<Rightarrow> loc" where
  "move_entry l m q = (if prefix l q then m @ drop (length l) q else q)"

definition fs_rename :: "filesys \<Rightarrow> bytes \<Rightarrow> bytes \<Rightarrow> unit result \<times> filesys" where
  "fs_rename f p q =
     (let (bad, f) = fs_tick f; l = fs_resolve f p; m = fs_resolve f q
      in if bad \<or> fs_at f l = None \<or> m = [] \<or> \<not> fs_is_dir f (butlast m) \<or> fs_at f m = Some Dir
              \<or> strict_prefix l m
         then (Raised, f)
         else if l = m then (Value (), f)
         else (Value (), f\<lparr>fs_nodes := map (\<lambda>(k, n). (move_entry l m k, n)) (AList.delete m (fs_nodes f))\<rparr>))"

section \<open>Streams\<close>

text \<open>
  An output stream opened for a path: where it writes and whether it is still good. Opening
  truncates the file. A failed write leaves the stream bad, and nothing after it is written.
\<close>

record ofstream =
  of_loc :: loc
  of_good :: bool

definition ofstream_open :: "filesys \<Rightarrow> bytes \<Rightarrow> ofstream option \<times> filesys" where
  "ofstream_open f p =
     (let (bad, f) = fs_tick f; l = fs_resolve f p
      in if bad \<or> l = [] \<or> \<not> fs_is_dir f (butlast l) \<or> fs_at f l = Some Dir then (None, f)
         else (Some \<lparr>of_loc = l, of_good = True\<rparr>, fs_put f l (File [])))"

definition ofstream_write :: "filesys \<Rightarrow> ofstream \<Rightarrow> bytes \<Rightarrow> ofstream \<times> filesys" where
  "ofstream_write f h bs =
     (if of_good h then
        (let (bad, f) = fs_tick f
         in if bad then (h\<lparr>of_good := False\<rparr>, f)
            else (case fs_at f (of_loc h) of
                    Some (File c) \<Rightarrow> (h, fs_put f (of_loc h) (File (c @ bs)))
                  | _ \<Rightarrow> (h\<lparr>of_good := False\<rparr>, f)))
      else (h, f))"

text \<open>An input stream is the content still to be read, or None when the file did not open.\<close>

definition ifstream_open :: "filesys \<Rightarrow> bytes \<Rightarrow> bytes option \<times> filesys" where
  "ifstream_open f p =
     (let (bad, f) = fs_tick f
      in if bad then (None, f)
         else (case fs_find f p of Some (File c) \<Rightarrow> (Some c, f) | _ \<Rightarrow> (None, f)))"

text \<open>
  \<open>read(buffer, n)\<close> and \<open>gcount()\<close>: the next n bytes, or fewer at the end of the file or
  when the read fails; in both of these cases the stream tests false afterwards.
\<close>

definition ifstream_read :: "filesys \<Rightarrow> bytes \<Rightarrow> nat \<Rightarrow> bytes \<times> bytes \<times> bool \<times> filesys" where
  "ifstream_read f c n =
     (let (bad, f) = fs_tick f
      in if bad then ([], c, False, f) else (take n c, drop n c, n \<le> length c, f))"

section \<open>Facts about the disk\<close>

definition healthy :: "filesys \<Rightarrow> bool" where
  "healthy f \<longleftrightarrow> (\<forall>i. \<not> fs_fault f i)"

text \<open>What never changes: the environment's choices.\<close>

definition fs_env :: "filesys \<Rightarrow> (bytes \<Rightarrow> loc) \<times> (nat \<Rightarrow> bool)" where
  "fs_env f = (fs_resolve f, fs_fault f)"

lemma fs_at_simps [simp]:
  "fs_at (fs_put f l n) = (fs_at f)(l \<mapsto> n)"
  "fs_at (fs_del f l) = (fs_at f)(l := None)"
  "fs_at (f\<lparr>fs_calls := k\<rparr>) = fs_at f"
  by (auto simp: fs_at_def fs_put_def fs_del_def)

lemma fs_env_simps [simp]:
  "fs_env (fs_put f l n) = fs_env f" "fs_env (fs_del f l) = fs_env f"
  "fs_env (f\<lparr>fs_calls := k\<rparr>) = fs_env f" "fs_env (f\<lparr>fs_nodes := ns\<rparr>) = fs_env f"
  "fs_resolve (fs_put f l n) = fs_resolve f" "fs_resolve (fs_del f l) = fs_resolve f"
  "fs_fault (fs_put f l n) = fs_fault f" "fs_fault (fs_del f l) = fs_fault f"
  by (auto simp: fs_env_def fs_put_def fs_del_def)

lemma fs_tick_eq: "fs_tick f = (b, g) \<longleftrightarrow> b = fs_fault f (fs_calls f) \<and> g = f\<lparr>fs_calls := Suc (fs_calls f)\<rparr>"
  by (auto simp: fs_tick_def)

lemma fs_is_dir_calls [simp]: "fs_is_dir (f\<lparr>fs_calls := k\<rparr>) l = fs_is_dir f l"
  and fs_find_calls [simp]: "fs_find (f\<lparr>fs_calls := k\<rparr>) p = fs_find f p"
  and fs_children_calls [simp]: "fs_children (f\<lparr>fs_calls := k\<rparr>) l = fs_children f l"
  by (simp_all add: fs_is_dir_def fs_find_def fs_children_def)

lemma healthy_env: "fs_env g = fs_env f \<Longrightarrow> healthy g = healthy f"
  by (simp add: healthy_def fs_env_def)

lemma healthy_simps [simp]:
  "healthy (f\<lparr>fs_calls := k\<rparr>) = healthy f" "healthy (fs_put f l n) = healthy f"
  "healthy (fs_del f l) = healthy f"
  by (simp_all add: healthy_def)

lemma healthy_tick [simp]: "healthy f \<Longrightarrow> fs_tick f = (False, f\<lparr>fs_calls := Suc (fs_calls f)\<rparr>)"
  by (simp add: healthy_def fs_tick_def)

lemmas fs_op_defs = fs_exists_def fs_remove_def fs_rename_def ofstream_open_def ofstream_write_def
  ifstream_open_def ifstream_read_def

lemma fs_exists_frame: "fs_exists f p = (r, g) \<Longrightarrow> g = f\<lparr>fs_calls := Suc (fs_calls f)\<rparr>"
  by (auto simp: fs_exists_def fs_tick_def split: if_splits)

lemma ifstream_open_frame: "ifstream_open f p = (r, g) \<Longrightarrow> g = f\<lparr>fs_calls := Suc (fs_calls f)\<rparr>"
  by (auto simp: ifstream_open_def fs_tick_def split: if_splits option.splits node.splits)

lemma ifstream_read_frame: "ifstream_read f c n = (r, s, ok, g) \<Longrightarrow> g = f\<lparr>fs_calls := Suc (fs_calls f)\<rparr>"
  by (auto simp: ifstream_read_def fs_tick_def split: if_splits)

lemma make_dirs_env: "make_dirs ls f = (r, g) \<Longrightarrow> fs_env g = fs_env f \<and> fs_calls g = fs_calls f"
proof (induction ls f rule: make_dirs.induct)
  case (2 l ls f)
  then show ?case by (fastforce split: option.splits node.splits simp: fs_put_def)
qed auto

lemma fs_env_ops:
  "fs_create_directories f p = (r1, g1) \<Longrightarrow> fs_env g1 = fs_env f"
  "fs_remove f p = (r2, g2) \<Longrightarrow> fs_env g2 = fs_env f"
  "fs_rename f p q = (r3, g3) \<Longrightarrow> fs_env g3 = fs_env f"
  "ofstream_open f p = (r4, g4) \<Longrightarrow> fs_env g4 = fs_env f"
  "ofstream_write f h bs = (h', g5) \<Longrightarrow> fs_env g5 = fs_env f"
  by (auto simp: fs_create_directories_def fs_op_defs fs_tick_def Let_def
      dest!: make_dirs_env split: if_splits option.splits node.splits)

text \<open>A disk is a tree: everything lies in a directory, so nothing lies below a file.\<close>

definition disk_ok :: "filesys \<Rightarrow> bool" where
  "disk_ok f \<longleftrightarrow> fs_at f [] = None \<and>
     (\<forall>l q. fs_at f q \<noteq> None \<and> strict_prefix l q \<and> l \<noteq> [] \<longrightarrow> fs_at f l = Some Dir)"

lemma disk_ok_calls [simp]: "disk_ok (f\<lparr>fs_calls := k\<rparr>) = disk_ok f"
  by (simp add: disk_ok_def)

lemma disk_ok_root: "disk_ok f \<Longrightarrow> fs_at f l = Some n \<Longrightarrow> l \<noteq> []"
  by (auto simp: disk_ok_def)

lemma strict_prefix_butlast: "strict_prefix l q \<Longrightarrow> prefix l (butlast q)"
  by (cases q rule: rev_cases) (auto simp: strict_prefix_def)

lemma disk_ok_parent:
  assumes "disk_ok f" and "fs_is_dir f (butlast q)" and "strict_prefix l q" and "l \<noteq> []"
  shows "fs_at f l = Some Dir"
proof (cases "l = butlast q")
  case True
  with assms show ?thesis by (simp add: fs_is_dir_def)
next
  case False
  with strict_prefix_butlast [OF assms(3)] have "strict_prefix l (butlast q)" by (simp add: strict_prefix_def)
  with assms show ?thesis by (auto simp: disk_ok_def fs_is_dir_def)
qed

lemma disk_ok_put_file:
  assumes "disk_ok f" and "q \<noteq> []" and "fs_is_dir f (butlast q)" and "fs_at f q \<noteq> Some Dir"
  shows "disk_ok (fs_put f q (File c))"
  unfolding disk_ok_def
proof (intro conjI allI impI)
  show "fs_at (fs_put f q (File c)) [] = None" using assms by (simp add: disk_ok_def)
next
  fix l k
  assume k: "fs_at (fs_put f q (File c)) k \<noteq> None \<and> strict_prefix l k \<and> l \<noteq> []"
  then have "fs_at f l = Some Dir"
    using disk_ok_parent [OF assms(1,3)] assms(1) by (cases "k = q") (auto simp: disk_ok_def)
  with assms(4) show "fs_at (fs_put f q (File c)) l = Some Dir" by auto
qed

lemma disk_ok_del_file: "disk_ok f \<Longrightarrow> fs_at f q = Some (File c) \<Longrightarrow> disk_ok (fs_del f q)"
  unfolding disk_ok_def fs_at_simps
  by (metis fun_upd_apply node.distinct(1) option.inject)

lemma file_is_leaf: "disk_ok f \<Longrightarrow> fs_at f l = Some (File c) \<Longrightarrow> prefix l q \<Longrightarrow> fs_at f q \<noteq> None \<Longrightarrow> q = l"
  unfolding disk_ok_def by (metis node.distinct(1) option.inject option.simps(3) strict_prefix_def)

lemma map_of_move:
  assumes "\<And>q. map_of al q \<noteq> None \<Longrightarrow> prefix l q \<Longrightarrow> q = l" and "map_of al m = None"
  shows "map_of (map (\<lambda>(k, n). (move_entry l m k, n)) al) = (map_of al)(l := None, m := map_of al l)"
  using assms
proof (induction al)
  case Nil
  then show ?case by (simp add: fun_eq_iff)
next
  case (Cons e al)
  obtain k n where e: "e = (k, n)" by fastforce
  have k: "move_entry l m k = (if k = l then m else k)"
    using Cons.prems(1) [of k] e by (auto simp: move_entry_def)
  have "map_of al q \<noteq> None \<Longrightarrow> prefix l q \<Longrightarrow> q = l" for q
    using Cons.prems(1) [of q] e by (auto split: if_splits)
  moreover have m: "map_of al m = None" "k \<noteq> m" using Cons.prems(2) e by (auto split: if_splits)
  ultimately have "map_of (map (\<lambda>(k, n). (move_entry l m k, n)) al) = (map_of al)(l := None, m := map_of al l)"
    by (intro Cons.IH)
  with k e m(2) show ?case by (auto simp: fun_eq_iff)
qed

text \<open>Renaming a file to a free name in a directory of the disk.\<close>

lemma fs_rename_file:
  assumes "healthy f" and "disk_ok f" and "fs_find f p = Some (File c)" and "fs_find f q = None"
    and "fs_resolve f q \<noteq> []" and "fs_is_dir f (butlast (fs_resolve f q))"
  obtains g where "fs_rename f p q = (Value (), g)" and "fs_env g = fs_env f"
    and "fs_at g = (fs_at f)(fs_resolve f p := None, fs_resolve f q \<mapsto> File c)"
proof -
  let ?l = "fs_resolve f p" and ?m = "fs_resolve f q"
  have lm: "fs_at f ?l = Some (File c)" "fs_at f ?m = None" "?l \<noteq> ?m"
    using assms(3,4) by (auto simp: fs_find_def)
  define ns where "ns = map (\<lambda>(k, n). (move_entry ?l ?m k, n)) (AList.delete ?m (fs_nodes f))"
  define g where "g = f\<lparr>fs_calls := Suc (fs_calls f), fs_nodes := ns\<rparr>"
  have "\<not> strict_prefix ?l ?m"
    using disk_ok_parent [OF assms(2,6), of ?l] lm(1) disk_ok_root [OF assms(2)] by auto
  then have "fs_rename f p q = (Value (), g)"
    using assms lm by (simp add: fs_rename_def Let_def g_def ns_def)
  moreover have "map_of ns = (map_of (AList.delete ?m (fs_nodes f)))(?l := None, ?m := map_of (AList.delete ?m (fs_nodes f)) ?l)"
    unfolding ns_def
    using file_is_leaf [OF assms(2) lm(1)] by (intro map_of_move) (auto simp: fs_at_def split: if_splits)
  then have "fs_at g = (fs_at f)(?l := None, ?m \<mapsto> File c)"
    using lm by (auto simp: g_def fs_at_def fun_eq_iff)
  ultimately show thesis by (intro that [of g]) (simp_all add: g_def)
qed

text \<open>\<open>create_directories\<close> when no file is in the way.\<close>

definition with_dirs :: "(loc \<Rightarrow> node option) \<Rightarrow> loc \<Rightarrow> loc \<Rightarrow> node option" where
  "with_dirs m p = (\<lambda>l. if l \<noteq> [] \<and> prefix l p then Some Dir else m l)"

definition way_clear :: "filesys \<Rightarrow> loc \<Rightarrow> bool" where
  "way_clear f p \<longleftrightarrow> (\<forall>l c. prefix l p \<longrightarrow> fs_at f l \<noteq> Some (File c))"

lemma make_dirs_clear:
  "\<forall>l\<in>set ls. \<forall>c. fs_at f l \<noteq> Some (File c) \<Longrightarrow>
   \<exists>g. make_dirs ls f = (Value (), g) \<and> fs_at g = (\<lambda>l. if l \<in> set ls then Some Dir else fs_at f l)"
proof (induction ls f rule: make_dirs.induct)
  case (2 l ls f)
  show ?case
  proof (cases "fs_at f l")
    case None
    have "\<forall>k\<in>set ls. \<forall>c. fs_at (fs_put f l Dir) k \<noteq> Some (File c)" using "2.prems" by simp
    then obtain g where "make_dirs ls (fs_put f l Dir) = (Value (), g)"
        "fs_at g = (\<lambda>k. if k \<in> set ls then Some Dir else fs_at (fs_put f l Dir) k)"
      using "2.IH"(1) [OF None] by blast
    with None show ?thesis by (intro exI [of _ g]) (auto simp: fun_eq_iff)
  next
    case (Some n)
    with "2.prems" have n: "n = Dir" by (cases n) auto
    obtain g where "make_dirs ls f = (Value (), g)" "fs_at g = (\<lambda>k. if k \<in> set ls then Some Dir else fs_at f k)"
      using "2.IH"(2) [OF Some n] "2.prems" by auto
    with Some n show ?thesis by (intro exI [of _ g]) (auto simp: fun_eq_iff)
  qed
qed (simp add: fun_eq_iff)

lemma set_tl_prefixes: "set (tl (prefixes p)) = {l. l \<noteq> [] \<and> prefix l p}"
proof -
  have "prefixes p = [] # tl (prefixes p)" by (cases p) simp_all
  then have "set (prefixes p) = insert [] (set (tl (prefixes p)))" "[] \<notin> set (tl (prefixes p))"
    by (metis list.simps(15)) (metis \<open>prefixes p = [] # tl (prefixes p)\<close> distinct.simps(2) distinct_prefixes)
  then show ?thesis by (auto simp: in_set_prefixes [symmetric])
qed

lemma create_directories_clear:
  assumes "healthy f" and "way_clear f (fs_resolve f p)"
  obtains g where "fs_create_directories f p = (Value (), g)" and "fs_env g = fs_env f"
    and "fs_at g = with_dirs (fs_at f) (fs_resolve f p)"
proof -
  let ?f = "f\<lparr>fs_calls := Suc (fs_calls f)\<rparr>"
  obtain g where g: "make_dirs (tl (prefixes (fs_resolve f p))) ?f = (Value (), g)"
      "fs_at g = (\<lambda>l. if l \<in> set (tl (prefixes (fs_resolve f p))) then Some Dir else fs_at ?f l)"
    using make_dirs_clear [of "tl (prefixes (fs_resolve f p))" ?f] assms(2)
    by (auto simp: set_tl_prefixes way_clear_def)
  then have "fs_create_directories f p = (Value (), g)"
    using assms(1) by (simp add: fs_create_directories_def)
  moreover have "fs_at g = with_dirs (fs_at f) (fs_resolve f p)"
    unfolding g(2) by (simp add: set_tl_prefixes with_dirs_def fun_eq_iff)
  ultimately show thesis using that fs_env_ops(1) by blast
qed

lemma with_dirs_present: "disk_ok f \<Longrightarrow> fs_at f p = Some Dir \<Longrightarrow> with_dirs (fs_at f) p = fs_at f"
  by (auto simp: with_dirs_def fun_eq_iff disk_ok_def strict_prefix_def)
    (metis option.distinct(1))

lemma disk_ok_with_dirs:
  assumes "disk_ok f" and "way_clear f p" and "fs_at g = with_dirs (fs_at f) p"
  shows "disk_ok g"
  unfolding disk_ok_def assms(3)
proof (intro conjI allI impI)
  show "with_dirs (fs_at f) p [] = None" using assms(1) by (simp add: with_dirs_def disk_ok_def)
next
  fix l q
  assume q: "with_dirs (fs_at f) p q \<noteq> None \<and> strict_prefix l q \<and> l \<noteq> []"
  show "with_dirs (fs_at f) p l = Some Dir"
  proof (cases "prefix q p")
    case True
    with q have "prefix l p" by (meson prefix_order.trans strict_prefix_def)
    with q show ?thesis by (simp add: with_dirs_def)
  next
    case False
    with q have "fs_at f q \<noteq> None" by (auto simp: with_dirs_def)
    with q assms(1) have "fs_at f l = Some Dir" by (auto simp: disk_ok_def)
    then show ?thesis by (simp add: with_dirs_def)
  qed
qed

text \<open>Listing a directory gives its entries.\<close>

lemma map_of_children: "map_of (fs_children f l) n = fs_at f (l @ [n])"
proof -
  have "map_of (map (\<lambda>(q, v). (last q, v)) (filter (\<lambda>(q, v). q \<noteq> [] \<and> butlast q = l) al)) n
      = map_of al (l @ [n])" for al :: "(loc \<times> node) list"
  proof (induction al)
    case Nil
    then show ?case by simp
  next
    case (Cons e al)
    obtain q v where e: "e = (q, v)" by fastforce
    have "q = l @ [n] \<longleftrightarrow> q \<noteq> [] \<and> butlast q = l \<and> last q = n"
      by (metis append_butlast_last_id butlast_snoc last_snoc snoc_eq_iff_butlast)
    with Cons e show ?case by auto
  qed
  then show ?thesis by (simp add: fs_children_def fs_at_def)
qed

lemma distinct_children:
  assumes "distinct (map fst (fs_nodes f))"
  shows "distinct (map fst (fs_children f l))"
proof -
  have "map fst (fs_children f l) = map last (filter (\<lambda>q. q \<noteq> [] \<and> butlast q = l) (map fst (fs_nodes f)))"
    by (simp add: fs_children_def filter_map o_def case_prod_unfold)
  moreover have "inj_on last {q. q \<noteq> [] \<and> butlast q = l}"
    by (rule inj_onI) (metis (mono_tags) append_butlast_last_id mem_Collect_eq)
  ultimately show ?thesis
    using assms by (auto simp: distinct_map elim: inj_on_subset)
qed

lemma fs_children_nodes: "fs_nodes g = fs_nodes f \<Longrightarrow> fs_children g l = fs_children f l"
  by (simp add: fs_children_def)

section \<open>A resolver\<close>

text \<open>
  One way to resolve paths, used where a statement is evaluated: relative to the working directory,
  component by component, with dots removed; a root name leads out of the working directory's
  drive. (What Windows does beyond that to trailing periods and blanks and to device names is
  \<open>windows_resolve\<close> of theory \<open>Paths\<close>. Theorems about the store take any resolver.)
\<close>

fun split_path :: "bytes \<Rightarrow> bytes \<Rightarrow> bytes list" where
  "split_path acc [] = (if acc = [] then [] else [rev acc])"
| "split_path acc (c # cs) =
     (if is_sep c then (if acc = [] then split_path [] cs else rev acc # split_path [] cs)
      else split_path (c # acc) cs)"

definition collapse :: "bytes list \<Rightarrow> bytes list" where
  "collapse ps = rev (foldl (\<lambda>st p. if p = ''.'' then st else if p = ''..'' then tl st else p # st) [] ps)"

definition lexical_resolve :: "bytes \<Rightarrow> loc" where
  "lexical_resolve p =
     (if root_name p = [] then [] else [root_name p]) @ collapse (split_path [] (after_root p))"

definition sample_disk :: "(loc \<times> node) list \<Rightarrow> filesys" where
  "sample_disk ns = \<lparr>fs_nodes = ns, fs_resolve = lexical_resolve, fs_fault = (\<lambda>i. False), fs_calls = 0\<rparr>"

lemma sample_disk_simps [simp]:
  "healthy (sample_disk ns)" "fs_nodes (sample_disk ns) = ns"
  "fs_resolve (sample_disk ns) = lexical_resolve" "fs_at (sample_disk ns) = map_of ns"
  "fs_fault (sample_disk ns) = (\<lambda>i. False)"
  by (simp_all add: sample_disk_def healthy_def fs_at_def fun_eq_iff)

lemma split_path_plain:
  "\<forall>c\<in>set p. \<not> is_sep c \<Longrightarrow> split_path acc (p @ q) = split_path (rev p @ acc) q"
  by (induction p arbitrary: acc) auto

lemma lexical_storage [simp]: "lexical_resolve ''storage'' = [''storage'']"
  by (simp add: lexical_resolve_def after_root_def collapse_def is_sep_def is_letter_def)

end
