(* ===== verification/Metadata.thy ===== *)
theory Metadata
  imports File_System
begin

text \<open>
  src/src/server/metadata_manager.cpp: the in-memory index from directories to file names to
  metadata. Each public operation runs under \<open>mutex_\<close>, so it is one step on the index; the
  time stamp is the value the clock gave the caller.
\<close>

section \<open>The index and its operations\<close>

record FileMetadata =
  md_filename :: bytes
  md_size :: u64
  md_upload_time :: bytes

type_synonym dir_index = "(bytes \<times> FileMetadata) list"
type_synonym meta_index = "(bytes \<times> dir_index) list"

definition normalize_path :: "bytes \<Rightarrow> bytes" where
  "normalize_path path =
     (let n = map (\<lambda>c. if c = CHR 0x5C then CHR ''/'' else c) path
      in if 1 < length n \<and> last n = CHR ''/'' then butlast n else n)"

text \<open>\<open>index_[dir]\<close>: the inner map, an empty one if there is none.\<close>

definition inner :: "meta_index \<Rightarrow> bytes \<Rightarrow> dir_index" where
  "inner ix dir = (case map_of ix dir of None \<Rightarrow> [] | Some m \<Rightarrow> m)"

definition index_put :: "meta_index \<Rightarrow> bytes \<Rightarrow> bytes \<Rightarrow> u64 \<Rightarrow> bytes \<Rightarrow> meta_index" where
  "index_put ix dir filename sz time =
     AList.update dir (AList.update filename
       \<lparr>md_filename = filename, md_size = sz, md_upload_time = time\<rparr> (inner ix dir)) ix"

definition add_file :: "meta_index \<Rightarrow> bytes \<Rightarrow> bytes \<Rightarrow> u64 \<Rightarrow> bytes \<Rightarrow> meta_index" where
  "add_file ix directory filename sz now = index_put ix (normalize_path directory) filename sz now"

definition remove_file :: "meta_index \<Rightarrow> bytes \<Rightarrow> bytes \<Rightarrow> meta_index" where
  "remove_file ix directory filename =
     (let dir = normalize_path directory
      in case map_of ix dir of
           None \<Rightarrow> ix
         | Some m \<Rightarrow>
             (let m' = AList.delete filename m
              in if m' = [] then AList.delete dir ix else AList.update dir m' ix))"

definition remove_directory :: "meta_index \<Rightarrow> bytes \<Rightarrow> meta_index" where
  "remove_directory ix directory =
     (let dir = normalize_path directory
      in filter (\<lambda>(k, m). \<not> (k = dir \<or> prefix (dir @ ''/'') k)) ix)"

definition file_exists :: "meta_index \<Rightarrow> bytes \<Rightarrow> bytes \<Rightarrow> bool" where
  "file_exists ix directory filename =
     (case map_of ix (normalize_path directory) of
        Some m \<Rightarrow> map_of m filename \<noteq> None
      | None \<Rightarrow> False)"

definition get_file_size :: "meta_index \<Rightarrow> bytes \<Rightarrow> bytes \<Rightarrow> u64" where
  "get_file_size ix directory filename =
     (case map_of ix (normalize_path directory) of
        Some m \<Rightarrow> (case map_of m filename of Some md \<Rightarrow> md_size md | None \<Rightarrow> 0)
      | None \<Rightarrow> 0)"

definition list_directory :: "meta_index \<Rightarrow> bytes \<Rightarrow> FileMetadata list" where
  "list_directory ix directory =
     (case map_of ix (normalize_path directory) of
        Some m \<Rightarrow> map snd m
      | None \<Rightarrow> [])"

section \<open>Rebuilding the index from the disk\<close>

text \<open>
  The two nested loops over directory entries. A failing \<open>directory_iterator\<close> or
  \<open>file_size\<close> throws, and the exception is caught outside both loops, which leaves what has
  been indexed so far. \<open>clk k\<close> is the k-th time stamp.
\<close>

fun rebuild_files ::
    "(nat \<Rightarrow> bytes) \<Rightarrow> bytes \<Rightarrow> (bytes \<times> node) list \<Rightarrow> meta_index \<Rightarrow> nat \<Rightarrow> filesys
     \<Rightarrow> unit result \<times> meta_index \<times> nat \<times> filesys" where
  "rebuild_files clk key [] ix k f = (Value (), ix, k, f)"
| "rebuild_files clk key ((name, Dir) # es) ix k f = rebuild_files clk key es ix k f"
| "rebuild_files clk key ((name, File c) # es) ix k f =
     (let (bad, f) = fs_tick f
      in if bad then (Raised, ix, k, f)
         else rebuild_files clk key es
                (index_put ix key name (word_of_nat (length c)) (clk k @ '' (Recovered)'')) (Suc k) f)"

fun rebuild_users ::
    "(nat \<Rightarrow> bytes) \<Rightarrow> loc \<Rightarrow> (bytes \<times> node) list \<Rightarrow> meta_index \<Rightarrow> nat \<Rightarrow> filesys
     \<Rightarrow> unit result \<times> meta_index \<times> nat \<times> filesys" where
  "rebuild_users clk l [] ix k f = (Value (), ix, k, f)"
| "rebuild_users clk l ((username, File c) # es) ix k f = rebuild_users clk l es ix k f"
| "rebuild_users clk l ((username, Dir) # es) ix k f =
     (let (bad, f) = fs_tick f
      in if bad then (Raised, ix, k, f)
         else (case rebuild_files clk (normalize_path (''storage/'' @ username))
                      (fs_children f (l @ [username])) ix k f of
                 (Raised, ix, k, f) \<Rightarrow> (Raised, ix, k, f)
               | (Value _, ix, k, f) \<Rightarrow> rebuild_users clk l es ix k f))"

text \<open>The test that the storage directory exists stands before the try block.\<close>

definition rebuild_from_disk ::
    "(nat \<Rightarrow> bytes) \<Rightarrow> meta_index \<Rightarrow> nat \<Rightarrow> filesys \<Rightarrow> bytes
     \<Rightarrow> unit result \<times> meta_index \<times> nat \<times> filesys" where
  "rebuild_from_disk clk ix k f storage_dir =
     (case fs_exists f storage_dir of
        (Raised, f) \<Rightarrow> (Raised, [], k, f)
      | (Value False, f) \<Rightarrow> (Value (), [], k, f)
      | (Value True, f) \<Rightarrow>
          (let (bad, f) = fs_tick f
           in if bad \<or> \<not> fs_is_dir f (fs_resolve f storage_dir) then (Value (), [], k, f)
              else (Value (), snd (rebuild_users clk (fs_resolve f storage_dir)
                      (fs_children f (fs_resolve f storage_dir)) [] k f))))"

section \<open>The abstract index\<close>

text \<open>
  Seen from outside, the index is one partial map from directory and file name to size and
  time stamp.
\<close>

definition idx_look :: "meta_index \<Rightarrow> bytes \<times> bytes \<Rightarrow> (u64 \<times> bytes) option" where
  "idx_look ix = (\<lambda>(d, n). case map_of ix d of
       None \<Rightarrow> None
     | Some m \<Rightarrow> map_option (\<lambda>md. (md_size md, md_upload_time md)) (map_of m n))"

text \<open>
  Well-formed: distinct keys, no empty directory (\<open>remove_file\<close> erases it with its last
  file), and every entry filed under its own name.
\<close>

definition dir_ok :: "dir_index \<Rightarrow> bool" where
  "dir_ok m \<longleftrightarrow> m \<noteq> [] \<and> distinct (map fst m) \<and> (\<forall>(n, md) \<in> set m. md_filename md = n)"

definition index_ok :: "meta_index \<Rightarrow> bool" where
  "index_ok ix \<longleftrightarrow> distinct (map fst ix) \<and> (\<forall>(d, m) \<in> set ix. dir_ok m)"

lemma index_ok_empty [simp]: "index_ok []"
  by (simp add: index_ok_def)

lemma index_ok_dir: "index_ok ix \<Longrightarrow> map_of ix d = Some m \<Longrightarrow> dir_ok m"
  by (auto simp: index_ok_def dest!: map_of_SomeD)

lemma dir_ok_update:
  "m = [] \<or> dir_ok m \<Longrightarrow> md_filename md = n \<Longrightarrow> dir_ok (AList.update n md m)"
  by (auto simp: dir_ok_def distinct_update dest!: set_update_subset)

lemma dir_ok_delete: "dir_ok m \<Longrightarrow> AList.delete n m \<noteq> [] \<Longrightarrow> dir_ok (AList.delete n m)"
  by (auto simp: dir_ok_def distinct_delete dest!: set_delete_subset)

lemma index_ok_update: "index_ok ix \<Longrightarrow> dir_ok m \<Longrightarrow> index_ok (AList.update d m ix)"
  by (auto simp: index_ok_def distinct_update dest!: set_update_subset)

lemma index_ok_delete: "index_ok ix \<Longrightarrow> index_ok (AList.delete d ix)"
  by (auto simp: index_ok_def distinct_delete dest!: set_delete_subset)

lemma index_ok_put: "index_ok ix \<Longrightarrow> index_ok (index_put ix d n sz time)"
  unfolding index_put_def inner_def
  by (intro index_ok_update dir_ok_update) (auto split: option.split dest: index_ok_dir)

lemma index_ok_add_file: "index_ok ix \<Longrightarrow> index_ok (add_file ix d n sz now)"
  by (simp add: add_file_def index_ok_put)

lemma index_ok_remove_file: "index_ok ix \<Longrightarrow> index_ok (remove_file ix d n)"
  by (auto simp: remove_file_def Let_def split: option.split
      intro!: index_ok_update index_ok_delete dir_ok_delete dest: index_ok_dir)

lemma index_ok_remove_directory: "index_ok ix \<Longrightarrow> index_ok (remove_directory ix d)"
  by (auto simp: remove_directory_def index_ok_def Let_def intro: distinct_map_filter_fst)

text \<open>The operations on the abstract index.\<close>

lemma idx_look_put:
  "idx_look (index_put ix d n sz time) = (idx_look ix)((d, n) \<mapsto> (sz, time))"
  by (auto simp: idx_look_def index_put_def inner_def fun_eq_iff split: option.splits)

lemma idx_look_add_file:
  "idx_look (add_file ix d n sz now) = (idx_look ix)((normalize_path d, n) \<mapsto> (sz, now))"
  by (simp add: add_file_def idx_look_put)

lemma idx_look_remove_file:
  "idx_look (remove_file ix d n) = (idx_look ix)((normalize_path d, n) := None)"
proof -
  have "map_of m n' = None" if "AList.delete n m = []" "n' \<noteq> n" for m :: dir_index and n'
    using that map_of_alist_delete [of n m] by (metis fun_upd_apply map_of_eq_None_iff empty_iff image_empty list.set(1))
  then show ?thesis
    by (auto simp: idx_look_def remove_file_def Let_def fun_eq_iff split: option.splits)
qed

lemma idx_look_remove_directory:
  "idx_look (remove_directory ix d) =
     (\<lambda>(k, n). if k = normalize_path d \<or> prefix (normalize_path d @ ''/'') k then None else idx_look ix (k, n))"
  using map_of_filter_keys [of "\<lambda>k. \<not> (k = normalize_path d \<or> prefix (normalize_path d @ ''/'') k)" ix]
  by (auto simp: idx_look_def remove_directory_def Let_def fun_eq_iff)

lemma file_exists_look: "file_exists ix d n \<longleftrightarrow> idx_look ix (normalize_path d, n) \<noteq> None"
  by (simp add: file_exists_def idx_look_def split: option.split)

lemma get_file_size_look:
  "get_file_size ix d n = (case idx_look ix (normalize_path d, n) of Some (sz, _) \<Rightarrow> sz | None \<Rightarrow> 0)"
  by (simp add: get_file_size_def idx_look_def split: option.split)

lemma list_directory_look:
  assumes "index_ok ix"
  shows "set (map (\<lambda>md. (md_filename md, md_size md, md_upload_time md)) (list_directory ix d))
       = {(n, sz, t). idx_look ix (normalize_path d, n) = Some (sz, t)}"
    and "distinct (map md_filename (list_directory ix d))"
proof -
  have names: "map md_filename (map snd m) = map fst m" if "dir_ok m" for m
    using that by (auto simp: dir_ok_def)
  have look: "(n, md) \<in> set m \<longleftrightarrow> map_of m n = Some md" if "dir_ok m" for m n md
    using that by (auto simp: dir_ok_def)
  have "distinct (map md_filename (map snd m))" if "dir_ok m" for m
    unfolding names [OF that] using that by (simp add: dir_ok_def)
  then show "distinct (map md_filename (list_directory ix d))"
    using index_ok_dir [OF assms] by (simp add: list_directory_def split: option.split)
  show "set (map (\<lambda>md. (md_filename md, md_size md, md_upload_time md)) (list_directory ix d))
       = {(n, sz, t). idx_look ix (normalize_path d, n) = Some (sz, t)}"
  proof (cases "map_of ix (normalize_path d)")
    case None
    then show ?thesis by (simp add: list_directory_def idx_look_def)
  next
    case (Some m)
    then have ok: "dir_ok m" by (rule index_ok_dir [OF assms])
    then have key: "md_filename md = n" if "(n, md) \<in> set m" for n md
      using that by (auto simp: dir_ok_def)
    have "set (map (\<lambda>md. (md_filename md, md_size md, md_upload_time md)) (map snd m))
        = (\<lambda>(n, md). (n, md_size md, md_upload_time md)) ` set m"
      using key by (force simp: image_image intro: image_cong)
    also have "\<dots> = {(n, sz, t). map_option (\<lambda>md. (md_size md, md_upload_time md)) (map_of m n) = Some (sz, t)}"
      by (auto simp: look [OF ok] image_iff)
    finally show ?thesis using Some by (simp add: list_directory_def idx_look_def)
  qed
qed

section \<open>The index as a map with normalized keys\<close>

text \<open>
  What the rest of the program relies on: storing and removing through the interface act on
  the abstract map at the normalized key. The lemmas of the locale are the shapes in which
  \<open>FileManager\<close> combines the operations.
\<close>

locale keyed_map =
  fixes ins :: "'k \<Rightarrow> 'v \<Rightarrow> 'm \<Rightarrow> 'm" and del :: "'k \<Rightarrow> 'm \<Rightarrow> 'm"
    and look :: "'m \<Rightarrow> 'c \<Rightarrow> 'v option" and canon :: "'k \<Rightarrow> 'c" and good :: "'m \<Rightarrow> bool"
  assumes look_ins: "look (ins k v m) = (look m)(canon k \<mapsto> v)"
    and look_del: "look (del k m) = (look m)(canon k := None)"
    and good_ins: "good m \<Longrightarrow> good (ins k v m)"
    and good_del: "good m \<Longrightarrow> good (del k m)"
begin

lemma look_ins_same: "canon j = canon k \<Longrightarrow> look (ins k v m) (canon j) = Some v"
  by (simp add: look_ins)

lemma look_ins_other: "canon j \<noteq> canon k \<Longrightarrow> look (ins k v m) (canon j) = look m (canon j)"
  by (simp add: look_ins)

lemma look_move: "look (ins k v (del j m)) = (look m)(canon j := None, canon k \<mapsto> v)"
  by (simp add: look_ins look_del)

lemma good_move: "good m \<Longrightarrow> good (ins k v (del j m))"
  by (simp add: good_ins good_del)

lemma del_ins: "look m (canon k) = None \<Longrightarrow> look (del k (ins k v m)) = look m"
  by (auto simp: look_ins look_del fun_eq_iff)

end

interpretation idx: keyed_map
  "\<lambda>(d, n) (sz, now) ix. add_file ix d n sz now" "\<lambda>(d, n) ix. remove_file ix d n"
  idx_look "\<lambda>(d, n). (normalize_path d, n)" index_ok
  by unfold_locales (auto simp: idx_look_add_file idx_look_remove_file index_ok_add_file index_ok_remove_file)

section \<open>The rebuilt index describes the disk\<close>

definition idx_size :: "meta_index \<Rightarrow> bytes \<times> bytes \<Rightarrow> u64 option" where
  "idx_size ix k = map_option fst (idx_look ix k)"

text \<open>A name that can be an entry of a directory: not empty, no separators.\<close>

definition clean_name :: "bytes \<Rightarrow> bool" where
  "clean_name u \<longleftrightarrow> u \<noteq> [] \<and> CHR ''/'' \<notin> set u \<and> CHR 0x5C \<notin> set u"

definition user_dir :: "bytes \<Rightarrow> bytes" where
  "user_dir username = ''storage/'' @ username"

lemma map_no_backslash: "CHR 0x5C \<notin> set u \<Longrightarrow> map (\<lambda>c. if c = CHR 0x5C then CHR ''/'' else c) u = u"
  by (induction u) auto

lemma normalize_user_dir: "clean_name u \<Longrightarrow> normalize_path (user_dir u) = user_dir u"
  by (cases u rule: rev_cases)
    (auto simp: normalize_path_def user_dir_def clean_name_def map_no_backslash Let_def)

lemma user_dir_inject [simp]: "user_dir u = user_dir v \<longleftrightarrow> u = v"
  by (simp add: user_dir_def)

lemma rebuild_files_healthy:
  assumes "healthy f" and "distinct (map fst es)"
  shows "\<exists>ix' k' j. rebuild_files clk key es ix k f = (Value (), ix', k', f\<lparr>fs_calls := j\<rparr>)
    \<and> (\<forall>d n. idx_size ix' (d, n) = (case (if d = key then map_of es n else None) of
          Some (File c) \<Rightarrow> Some (word_of_nat (length c)) | _ \<Rightarrow> idx_size ix (d, n)))
    \<and> (index_ok ix \<longrightarrow> index_ok ix')"
  using assms
proof (induction clk key es ix k f rule: rebuild_files.induct)
  case (1 clk key ix k f)
  show ?case by (intro exI [of _ ix] exI [of _ k] exI [of _ "fs_calls f"]) simp
next
  case (2 clk key name es ix k f)
  from 2 have none: "map_of es name = None" by (simp add: map_of_eq_None_iff)
  have skip: "(case (if d = key then map_of ((name, Dir) # es) n else None) of
          Some (File c) \<Rightarrow> Some (word_of_nat (length c)) | _ \<Rightarrow> idx_size ix (d, n))
      = (case (if d = key then map_of es n else None) of
          Some (File c) \<Rightarrow> Some (word_of_nat (length c)) | _ \<Rightarrow> idx_size ix (d, n))" for d n
    using none by simp
  show ?case unfolding skip rebuild_files.simps using "2.IH" "2.prems" by simp
next
  case (3 clk key name c es ix k f)
  let ?ix = "index_put ix key name (word_of_nat (length c)) (clk k @ '' (Recovered)'')"
  let ?f = "f\<lparr>fs_calls := Suc (fs_calls f)\<rparr>"
  from 3 have none: "map_of es name = None" by (simp add: map_of_eq_None_iff)
  have put: "idx_size ?ix = (idx_size ix)((key, name) \<mapsto> word_of_nat (length c))"
    by (simp add: idx_size_def idx_look_put fun_eq_iff)
  obtain ix' k' j where run: "rebuild_files clk key es ?ix (Suc k) ?f = (Value (), ix', k', ?f\<lparr>fs_calls := j\<rparr>)"
    and sz: "\<And>d n. idx_size ix' (d, n) = (case (if d = key then map_of es n else None) of
          Some (File c) \<Rightarrow> Some (word_of_nat (length c)) | _ \<Rightarrow> idx_size ?ix (d, n))"
    and ok: "index_ok ?ix \<longrightarrow> index_ok ix'"
    using "3.IH" [OF healthy_tick [OF "3.prems"(1), symmetric] refl] "3.prems" by auto
  have "rebuild_files clk key ((name, File c) # es) ix k f = (Value (), ix', k', f\<lparr>fs_calls := j\<rparr>)"
    using run "3.prems"(1) by simp
  moreover have "idx_size ix' (d, n) = (case (if d = key then map_of ((name, File c) # es) n else None) of
          Some (File c) \<Rightarrow> Some (word_of_nat (length c)) | _ \<Rightarrow> idx_size ix (d, n))" for d n
    unfolding sz put using none by (auto split: option.split node.split)
  ultimately show ?case using ok index_ok_put by blast
qed

lemma rebuild_users_healthy:
  assumes "healthy f" and "distinct (map fst es)" and "distinct (map fst (fs_nodes f))"
    and "\<And>u. (u, Dir) \<in> set es \<Longrightarrow> clean_name u"
  shows "\<exists>ix' k' j. rebuild_users clk l es ix k f = (Value (), ix', k', f\<lparr>fs_calls := j\<rparr>)
    \<and> (\<forall>u n. idx_size ix' (user_dir u, n) =
          (case (if map_of es u = Some Dir then fs_at f (l @ [u, n]) else None) of
             Some (File c) \<Rightarrow> Some (word_of_nat (length c)) | _ \<Rightarrow> idx_size ix (user_dir u, n)))
    \<and> (index_ok ix \<longrightarrow> index_ok ix')"
  using assms
proof (induction es arbitrary: ix k f)
  case Nil
  show ?case by (intro exI [of _ ix] exI [of _ k] exI [of _ "fs_calls f"]) simp
next
  case (Cons e es)
  obtain username nd where e: "e = (username, nd)" by fastforce
  from Cons.prems(2) e have none: "map_of es username = None" by (simp add: map_of_eq_None_iff)
  show ?case
  proof (cases nd)
    case (File c)
    have skip: "(map_of ((username, File c) # es) u = Some Dir) = (map_of es u = Some Dir)" for u
      using none by simp
    show ?thesis unfolding e File skip rebuild_users.simps using Cons by simp
  next
    case Dir
    let ?f = "f\<lparr>fs_calls := Suc (fs_calls f)\<rparr>"
    have key: "normalize_path (''storage/'' @ username) = user_dir username"
      using Cons.prems(4) [of username] e Dir normalize_user_dir by (simp add: user_dir_def)
    obtain ix1 k1 j1 where
        run1: "rebuild_files clk (user_dir username) (fs_children ?f (l @ [username])) ix k ?f
          = (Value (), ix1, k1, ?f\<lparr>fs_calls := j1\<rparr>)"
      and sz1: "\<And>d n. idx_size ix1 (d, n) =
          (case (if d = user_dir username then fs_at f (l @ [username, n]) else None) of
            Some (File c) \<Rightarrow> Some (word_of_nat (length c)) | _ \<Rightarrow> idx_size ix (d, n))"
      and ok1: "index_ok ix \<longrightarrow> index_ok ix1"
      using rebuild_files_healthy [of ?f "fs_children ?f (l @ [username])" clk "user_dir username" ix k]
        Cons.prems(1) distinct_children [OF Cons.prems(3)]
      by (auto simp: map_of_children)
    obtain ix' k' j where
        run: "rebuild_users clk l es ix1 k1 (?f\<lparr>fs_calls := j1\<rparr>) = (Value (), ix', k', f\<lparr>fs_calls := j\<rparr>)"
      and sz: "\<And>u n. idx_size ix' (user_dir u, n) =
            (case (if map_of es u = Some Dir then fs_at f (l @ [u, n]) else None) of
               Some (File c) \<Rightarrow> Some (word_of_nat (length c)) | _ \<Rightarrow> idx_size ix1 (user_dir u, n))"
      and ok: "index_ok ix1 \<longrightarrow> index_ok ix'"
      using Cons.IH [of "?f\<lparr>fs_calls := j1\<rparr>" ix1 k1] Cons.prems by auto
    have "rebuild_users clk l (e # es) ix k f = (Value (), ix', k', f\<lparr>fs_calls := j\<rparr>)"
      using run run1 Cons.prems(1) by (simp add: key [simplified] e Dir)
    moreover have "idx_size ix' (user_dir u, n) =
            (case (if map_of (e # es) u = Some Dir then fs_at f (l @ [u, n]) else None) of
               Some (File c) \<Rightarrow> Some (word_of_nat (length c)) | _ \<Rightarrow> idx_size ix (user_dir u, n))" for u n
      unfolding sz sz1 using none by (auto simp: e Dir split: option.split node.split)
    ultimately show ?thesis using ok ok1 by blast
  qed
qed

text \<open>What the disk says of a user's file.\<close>

definition disk_size :: "filesys \<Rightarrow> loc \<Rightarrow> bytes \<Rightarrow> bytes \<Rightarrow> u64 option" where
  "disk_size f l u n =
     (if fs_at f (l @ [u]) = Some Dir then
        (case fs_at f (l @ [u, n]) of Some (File c) \<Rightarrow> Some (word_of_nat (length c)) | _ \<Rightarrow> None)
      else None)"

lemma rebuild_from_disk_healthy:
  assumes "healthy f" and "distinct (map fst (fs_nodes f))"
    and "fs_find f sd = Some Dir"
    and "\<And>u. fs_at f (fs_resolve f sd @ [u]) = Some Dir \<Longrightarrow> clean_name u"
  obtains ix' k' j where "rebuild_from_disk clk ix k f sd = (Value (), ix', k', f\<lparr>fs_calls := j\<rparr>)"
    and "index_ok ix'" and "\<And>u n. idx_size ix' (user_dir u, n) = disk_size f (fs_resolve f sd) u n"
proof -
  let ?f = "f\<lparr>fs_calls := Suc (Suc (fs_calls f))\<rparr>" and ?l = "fs_resolve f sd"
  have clean: "clean_name u" if "(u, Dir) \<in> set (fs_children ?f ?l)" for u
  proof -
    have "map_of (fs_children ?f ?l) u = Some Dir"
      using that distinct_children [of ?f] assms(2) by simp
    then show ?thesis using assms(4) by (simp add: map_of_children)
  qed
  obtain ix' k' j where
      run: "rebuild_users clk ?l (fs_children ?f ?l) [] k ?f = (Value (), ix', k', f\<lparr>fs_calls := j\<rparr>)"
    and sz: "\<And>u n. idx_size ix' (user_dir u, n) =
          (case (if map_of (fs_children ?f ?l) u = Some Dir then fs_at f (?l @ [u, n]) else None) of
             Some (File c) \<Rightarrow> Some (word_of_nat (length c)) | _ \<Rightarrow> idx_size [] (user_dir u, n))"
    and ok: "index_ok ix'"
    using rebuild_users_healthy [of ?f "fs_children ?f ?l" clk ?l "[]" k] clean assms(1,2)
      distinct_children [of ?f ?l] by auto
  have "rebuild_from_disk clk ix k f sd = (Value (), ix', k', f\<lparr>fs_calls := j\<rparr>)"
    using run assms(1,3) by (simp add: rebuild_from_disk_def fs_exists_def fs_find_def fs_is_dir_def)
  moreover have "idx_size ix' (user_dir u, n) = disk_size f ?l u n" for u n
    unfolding sz disk_size_def
    by (simp add: map_of_children idx_size_def idx_look_def split: option.split node.split)
  ultimately show thesis using ok that by blast
qed

section \<open>The rebuilt index on a disk whose calls may fail\<close>

text \<open>Whatever calls fail, every entry of the rebuilt index stands for a file of the disk: the index
  may be too small, never wrong.\<close>

lemma rebuild_files_sound:
  assumes "rebuild_files clk key es ix k f = (r, ix', k', f')"
  shows "(\<exists>j. f' = f\<lparr>fs_calls := j\<rparr>) \<and> (index_ok ix \<longrightarrow> index_ok ix')
    \<and> (\<forall>d n sz. idx_size ix' (d, n) = Some sz \<longrightarrow> idx_size ix (d, n) = Some sz
        \<or> d = key \<and> (\<exists>c. (n, File c) \<in> set es \<and> sz = word_of_nat (length c)))"
  using assms
proof (induction clk key es ix k f arbitrary: r ix' k' f' rule: rebuild_files.induct)
  case (1 clk key ix k f)
  then show ?case by (auto intro: exI [of _ "fs_calls f"])
next
  case (2 clk key name es ix k f)
  from "2.IH" [of r ix' k' f'] "2.prems" show ?case by auto
next
  case (3 clk key name c es ix k f)
  let ?ix = "index_put ix key name (word_of_nat (length c)) (clk k @ '' (Recovered)'')"
  let ?f = "f\<lparr>fs_calls := Suc (fs_calls f)\<rparr>"
  have put: "idx_size ?ix = (idx_size ix)((key, name) \<mapsto> word_of_nat (length c))"
    by (simp add: idx_size_def idx_look_put fun_eq_iff)
  show ?case
  proof (cases "fs_fault f (fs_calls f)")
    case True
    then show ?thesis using "3.prems" by (auto simp: fs_tick_def)
  next
    case False
    then have run: "rebuild_files clk key es ?ix (Suc k) ?f = (r, ix', k', f')"
      using "3.prems" by (simp add: fs_tick_def)
    have IH: "(\<exists>j. f' = ?f\<lparr>fs_calls := j\<rparr>) \<and> (index_ok ?ix \<longrightarrow> index_ok ix')
      \<and> (\<forall>d n sz. idx_size ix' (d, n) = Some sz \<longrightarrow> idx_size ?ix (d, n) = Some sz
          \<or> d = key \<and> (\<exists>c. (n, File c) \<in> set es \<and> sz = word_of_nat (length c)))"
      by (rule "3.IH" [OF _ refl _ run]) (use False in \<open>simp_all add: fs_tick_def\<close>)
    show ?thesis
    proof (intro conjI allI impI)
      show "\<exists>j. f' = f\<lparr>fs_calls := j\<rparr>" using IH by auto
      show "index_ok ix'" if "index_ok ix" using IH that index_ok_put by blast
      fix d n sz
      assume "idx_size ix' (d, n) = Some sz"
      then have "idx_size ?ix (d, n) = Some sz
          \<or> d = key \<and> (\<exists>c. (n, File c) \<in> set es \<and> sz = word_of_nat (length c))"
        using IH by blast
      then show "idx_size ix (d, n) = Some sz
          \<or> d = key \<and> (\<exists>ca. (n, File ca) \<in> set ((name, File c) # es) \<and> sz = word_of_nat (length ca))"
        by (auto simp: put split: if_splits)
    qed
  qed
qed

lemma rebuild_users_sound:
  assumes "rebuild_users clk l es ix k f = (r, ix', k', f')"
  shows "(\<exists>j. f' = f\<lparr>fs_calls := j\<rparr>) \<and> (index_ok ix \<longrightarrow> index_ok ix')
    \<and> (\<forall>d n sz. idx_size ix' (d, n) = Some sz \<longrightarrow> idx_size ix (d, n) = Some sz
        \<or> (\<exists>u c. d = normalize_path (user_dir u) \<and> (u, Dir) \<in> set es
            \<and> (n, File c) \<in> set (fs_children f (l @ [u])) \<and> sz = word_of_nat (length c)))"
  using assms
proof (induction es arbitrary: ix k f)
  case Nil
  then show ?case by (auto intro: exI [of _ "fs_calls f"])
next
  case (Cons e es)
  obtain u nd where e: "e = (u, nd)" by fastforce
  let ?f = "f\<lparr>fs_calls := Suc (fs_calls f)\<rparr>" and ?key = "normalize_path (user_dir u)"
  show ?case
  proof (cases "nd = Dir \<and> \<not> fs_fault f (fs_calls f)")
    case False
    then show ?thesis
      using Cons.prems Cons.IH [of ix k f] by (cases nd) (auto simp: e fs_tick_def)
  next
    case True
    obtain q jx m g where run1: "rebuild_files clk ?key (fs_children f (l @ [u])) ix k ?f = (q, jx, m, g)"
      by (metis surj_pair)
    note first = rebuild_files_sound [OF run1, simplified]
    then obtain i where g: "g = f\<lparr>fs_calls := i\<rparr>" by auto
    define Stands where "Stands S d n sz \<longleftrightarrow> (\<exists>u c. d = normalize_path (user_dir u) \<and> (u, Dir) \<in> S
        \<and> (n, File c) \<in> set (fs_children f (l @ [u])) \<and> sz = word_of_nat (length c))" for S d n and sz :: u64
    have here: "idx_size jx (d, n) = Some sz \<Longrightarrow> idx_size ix (d, n) = Some sz \<or> Stands (set (e # es)) d n sz" for d n sz
      using first True unfolding Stands_def e by fastforce
    have go: "(case q of Raised \<Rightarrow> (Raised, jx, m, g) | Value _ \<Rightarrow> rebuild_users clk l es jx m g) = (r, ix', k', f')"
      using Cons.prems True run1 by (cases q) (simp_all add: e fs_tick_def user_dir_def)
    have "(\<exists>j. f' = f\<lparr>fs_calls := j\<rparr>) \<and> (index_ok ix \<longrightarrow> index_ok ix')
        \<and> (\<forall>d n sz. idx_size ix' (d, n) = Some sz \<longrightarrow> idx_size ix (d, n) = Some sz \<or> Stands (set (e # es)) d n sz)"
    proof (cases q)
      case Raised
      then have "ix' = jx" "f' = g" using go by auto
      then show ?thesis using first here g by blast
    next
      case (Value x)
      then have "rebuild_users clk l es jx m g = (r, ix', k', f')" using go by simp
      note rest = Cons.IH [OF this, unfolded g, simplified]
      have "idx_size ix' (d, n) = Some sz \<Longrightarrow> idx_size jx (d, n) = Some sz \<or> Stands (set (e # es)) d n sz" for d n sz
        using rest unfolding Stands_def by fastforce
      moreover have "(\<exists>j. f' = f\<lparr>fs_calls := j\<rparr>) \<and> (index_ok ix \<longrightarrow> index_ok ix')" using rest first by blast
      ultimately show ?thesis using here by blast
    qed
    then show ?thesis unfolding Stands_def .
  qed
qed

text \<open>The only call that can make \<open>rebuild_from_disk\<close> throw is the one before the try block; when the
  outer \<open>directory_iterator\<close> fails, the index stays empty.\<close>

lemma rebuild_from_disk_sound:
  assumes "rebuild_from_disk clk ix k f sd = (r, ix', k', f')" and "distinct (map fst (fs_nodes f))"
  shows "r = (if fs_fault f (fs_calls f) then Raised else Value ())"
    and "\<exists>j. f' = f\<lparr>fs_calls := j\<rparr>" and "index_ok ix'"
    and "fs_fault f (Suc (fs_calls f)) \<Longrightarrow> ix' = []"
    and "idx_size ix' (d, n) = Some sz \<Longrightarrow> \<exists>u c. d = normalize_path (user_dir u)
      \<and> fs_at f (fs_resolve f sd @ [u]) = Some Dir \<and> fs_at f (fs_resolve f sd @ [u, n]) = Some (File c)
      \<and> sz = word_of_nat (length c)"
proof -
  let ?l = "fs_resolve f sd" and ?g = "f\<lparr>fs_calls := Suc (Suc (fs_calls f))\<rparr>"
  have empty: "index_ok []" "idx_size [] = (\<lambda>k. None)"
    by (auto simp: index_ok_empty idx_size_def idx_look_def fun_eq_iff)
  obtain q jx m g where users: "rebuild_users clk ?l (fs_children f ?l) [] k ?g = (q, jx, m, g)" by (metis surj_pair)
  note sound = rebuild_users_sound [OF users]
  have cases: "ix' = [] \<or> ix' = jx" using assms(1) users
    by (auto simp: rebuild_from_disk_def fs_exists_def fs_find_def fs_is_dir_def fs_tick_def Let_def
      split: if_splits bool.splits)
  consider "ix' = []" "r = (if fs_fault f (fs_calls f) then Raised else Value ())" "\<exists>j. f' = f\<lparr>fs_calls := j\<rparr>"
    | "ix' = jx" "r = Value ()" "f' = g" "\<not> fs_fault f (fs_calls f)" "\<not> fs_fault f (Suc (fs_calls f))"
    using assms(1) users
    by (auto simp: rebuild_from_disk_def fs_exists_def fs_find_def fs_is_dir_def fs_tick_def Let_def
      split: if_splits bool.splits)
  then show "r = (if fs_fault f (fs_calls f) then Raised else Value ())" and "\<exists>j. f' = f\<lparr>fs_calls := j\<rparr>"
    and "index_ok ix'" and "fs_fault f (Suc (fs_calls f)) \<Longrightarrow> ix' = []"
    using sound empty by (cases; auto)+
  have child: "fs_at f (p @ [x]) = Some nd" if "(x, nd) \<in> set (fs_children f p)" for p x nd
    using that distinct_children [OF assms(2), of p] map_of_children [of f p x] by simp
  assume "idx_size ix' (d, n) = Some sz"
  then obtain u c where "d = normalize_path (user_dir u)" "(u, Dir) \<in> set (fs_children f ?l)"
      "(n, File c) \<in> set (fs_children f (?l @ [u]))" "sz = word_of_nat (length c)"
    using cases sound empty by auto blast
  then show "\<exists>u c. d = normalize_path (user_dir u)
      \<and> fs_at f (?l @ [u]) = Some Dir \<and> fs_at f (?l @ [u, n]) = Some (File c) \<and> sz = word_of_nat (length c)"
    using child [of u Dir ?l] child [of n "File c" "?l @ [u]"] by auto
qed

section \<open>Properties\<close>

text \<open>C21: the two-level index implements one partial map from (directory, file) to size and
  time. Storing a file updates the map at the normalized directory and nowhere else, removing
  it deletes that key (also when the directory entry disappears with its last file), removing
  a directory deletes exactly the keys in it and below it, and all three keep the index well
  formed: distinct keys, no empty directories, every entry under its own name.\<close>

theorem index_refines_map:
  assumes "index_ok ix"
  shows "index_ok (add_file ix d n sz now)
    \<and> idx_look (add_file ix d n sz now) = (idx_look ix)((normalize_path d, n) \<mapsto> (sz, now))
    \<and> index_ok (remove_file ix d n)
    \<and> idx_look (remove_file ix d n) = (idx_look ix)((normalize_path d, n) := None)
    \<and> index_ok (remove_directory ix d)
    \<and> (\<forall>k m. idx_look (remove_directory ix d) (k, m) =
         (if k = normalize_path d \<or> prefix (normalize_path d @ ''/'') k then None else idx_look ix (k, m)))"
  using idx.look_ins [of "(d, n)" "(sz, now)" ix] idx.look_del [of "(d, n)" ix]
    idx.good_ins [OF assms, of "(d, n)" "(sz, now)"] idx.good_del [OF assms, of "(d, n)"]
    index_ok_remove_directory [OF assms] idx_look_remove_directory [of ix d]
  by simp

theorem index_refines_map_witness:
  "index_ok [] \<and> idx_look (add_file [] (''storage'' @ [CHR 0x5C] @ ''bob'') ''a'' 3 ''now'') (normalize_path (''storage'' @ [CHR 0x5C] @ ''bob''), ''a'') = Some (3, ''now'')"
  using index_refines_map [of "[]" "(''storage'' @ [CHR 0x5C] @ ''bob'')" "''a''" 3 "''now''"] by (simp add: fun_upd_def)

text \<open>The queries read the abstract map at the normalized directory: \<open>file_exists\<close> is
  membership, \<open>get_file_size\<close> is the stored size and 0 for an unknown file, and
  \<open>list_directory\<close> returns each file of the directory exactly once with its size and time.\<close>

theorem queries_read_map:
  assumes "index_ok ix"
  shows "(file_exists ix d n \<longleftrightarrow> idx_look ix (normalize_path d, n) \<noteq> None)
    \<and> get_file_size ix d n = (case idx_look ix (normalize_path d, n) of Some (sz, _) \<Rightarrow> sz | None \<Rightarrow> 0)
    \<and> set (map (\<lambda>md. (md_filename md, md_size md, md_upload_time md)) (list_directory ix d))
        = {(n, sz, t). idx_look ix (normalize_path d, n) = Some (sz, t)}
    \<and> distinct (map md_filename (list_directory ix d))"
  using file_exists_look [of ix d n] get_file_size_look [of ix d n] list_directory_look [OF assms, of d]
  by simp

theorem queries_read_map_witness:
  "let ix = add_file (add_file [] ''storage/bob'' ''a'' 3 ''t1'') (''storage'' @ [CHR 0x5C] @ ''bob/'') ''b'' 5 ''t2''
   in index_ok ix \<and> distinct (map md_filename (list_directory ix ''storage/bob''))
      \<and> length (list_directory ix ''storage/bob'') = 2"
proof -
  let ?ix = "add_file (add_file [] ''storage/bob'' ''a'' 3 ''t1'') (''storage'' @ [CHR 0x5C] @ ''bob/'') ''b'' 5 ''t2''"
  have ok: "index_ok ?ix" by (intro index_ok_add_file index_ok_empty)
  moreover have "length (list_directory ?ix ''storage/bob'') = 2" by code_simp
  ultimately show ?thesis using queries_read_map [OF ok, of "''storage/bob''"] by (simp add: Let_def)
qed

text \<open>At start-up, on a disk whose calls succeed, \<open>rebuild_from_disk\<close> makes the index say
  of every user's files exactly what the disk says: a file is in the index if and only if it
  is a regular file in the user's directory, with its length, and the index is well formed.\<close>

theorem rebuild_describes_disk:
  assumes "healthy f" and "distinct (map fst (fs_nodes f))" and "fs_find f sd = Some Dir"
    and "\<And>v. fs_at f (fs_resolve f sd @ [v]) = Some Dir \<Longrightarrow> clean_name v"
    and "rebuild_from_disk clk ix k f sd = (r, ix', k', f')" and "clean_name u"
  shows "r = Value () \<and> index_ok ix' \<and> fs_at f' = fs_at f
    \<and> (file_exists ix' (user_dir u) n \<longleftrightarrow> disk_size f (fs_resolve f sd) u n \<noteq> None)
    \<and> (\<forall>sz. disk_size f (fs_resolve f sd) u n = Some sz \<longrightarrow> get_file_size ix' (user_dir u) n = sz)"
proof -
  obtain jx j m where "rebuild_from_disk clk ix k f sd = (Value (), jx, m, f\<lparr>fs_calls := j\<rparr>)"
    and ok: "index_ok jx" and sz: "\<And>u n. idx_size jx (user_dir u, n) = disk_size f (fs_resolve f sd) u n"
    using rebuild_from_disk_healthy [OF assms(1-4), where clk = clk and ix = ix and k = k] by metis
  with assms(5) have eq: "r = Value ()" "ix' = jx" "fs_at f' = fs_at f" by auto
  show ?thesis using ok eq normalize_user_dir [OF assms(6)]
    by (auto simp: file_exists_look get_file_size_look idx_size_def sz [symmetric] split: option.splits)
qed

definition bob_disk :: filesys where
  "bob_disk = sample_disk [([''storage''], Dir), ([''storage'', ''bob''], Dir),
     ([''storage'', ''bob'', ''a''], File ''xyz''), ([''storage'', ''readme''], File ''hi'')]"

theorem rebuild_describes_disk_witness:
  "let ix = fst (snd (rebuild_from_disk (\<lambda>i. ''noon'') [] 0 bob_disk ''storage''))
   in file_exists ix (user_dir ''bob'') ''a'' \<and> get_file_size ix (user_dir ''bob'') ''a'' = 3
      \<and> \<not> file_exists ix (user_dir ''readme'') ''a''"
proof -
  let ?r = "rebuild_from_disk (\<lambda>i. ''noon'') [] 0 bob_disk ''storage''"
  have clean: "clean_name v" if "fs_at bob_disk (fs_resolve bob_disk ''storage'' @ [v]) = Some Dir" for v
    using that by (auto simp: bob_disk_def clean_name_def split: if_splits)
  have hyps: "healthy bob_disk" "distinct (map fst (fs_nodes bob_disk))" "fs_find bob_disk ''storage'' = Some Dir"
    by (simp_all add: bob_disk_def fs_find_def)
  have run: "?r = (fst ?r, fst (snd ?r), fst (snd (snd ?r)), snd (snd (snd ?r)))" by simp
  have bob: "clean_name ''bob''" "clean_name ''readme''" by (simp_all add: clean_name_def)
  have "disk_size bob_disk (fs_resolve bob_disk ''storage'') ''bob'' ''a'' = Some 3"
    "disk_size bob_disk (fs_resolve bob_disk ''storage'') ''readme'' ''a'' = None"
    by (simp_all add: disk_size_def bob_disk_def)
  then show ?thesis
    using rebuild_describes_disk [OF hyps clean run bob(1), of "''a''"]
      rebuild_describes_disk [OF hyps clean run bob(2), of "''a''"] by (simp add: Let_def)
qed

end
