(* ===== verification/Lock_Manager.thy ===== *)
theory Lock_Manager
  imports Prelude
begin

text \<open>
  The class \<open>FileLockManager\<close> of src/src/server/file_manager.cpp: a map from path strings to
  reference-counted lock entries, kept under \<open>map_mutex_\<close>. An entry is a shared object; its
  identity is the number it was created under. What holding its mutex means for other threads
  is the subject of theory \<open>Lock_Protocol\<close>.
\<close>

section \<open>The table of lock entries\<close>

record LockEntry =
  le_id :: nat
  le_ref_count :: u32

record lock_table =
  lt_locks :: "(bytes \<times> LockEntry) list"
  lt_next :: nat

definition acquire_lock_ref :: "bytes \<Rightarrow> lock_table \<Rightarrow> nat \<times> lock_table" where
  "acquire_lock_ref path_key t =
     (let t = (if map_of (lt_locks t) path_key = None
               then t\<lparr>lt_locks := AList.update path_key \<lparr>le_id = lt_next t, le_ref_count = 0\<rparr> (lt_locks t),
                      lt_next := Suc (lt_next t)\<rparr>
               else t)
      in case map_of (lt_locks t) path_key of
           Some e \<Rightarrow>
             (le_id e, t\<lparr>lt_locks := AList.update path_key (e\<lparr>le_ref_count := le_ref_count e + 1\<rparr>) (lt_locks t)\<rparr>)
         | None \<Rightarrow> (0, t))"

definition release_lock_ref :: "bytes \<Rightarrow> lock_table \<Rightarrow> lock_table" where
  "release_lock_ref path_key t =
     (case map_of (lt_locks t) path_key of
        None \<Rightarrow> t
      | Some e \<Rightarrow>
          (let c = le_ref_count e - 1
           in if c = 0 then t\<lparr>lt_locks := AList.delete path_key (lt_locks t)\<rparr>
              else t\<lparr>lt_locks := AList.update path_key (e\<lparr>le_ref_count := c\<rparr>) (lt_locks t)\<rparr>))"

definition no_locks :: lock_table where
  "no_locks = \<lparr>lt_locks = [], lt_next = 0\<rparr>"

section \<open>Reference counts\<close>

definition lock_count :: "lock_table \<Rightarrow> bytes \<Rightarrow> nat" where
  "lock_count t k = (case map_of (lt_locks t) k of None \<Rightarrow> 0 | Some e \<Rightarrow> unat (le_ref_count e))"

definition lock_id :: "lock_table \<Rightarrow> bytes \<Rightarrow> nat option" where
  "lock_id t k = map_option le_id (map_of (lt_locks t) k)"

text \<open>
  Every entry in the map is referenced, and no two entries are the same object.
\<close>

definition table_ok :: "lock_table \<Rightarrow> bool" where
  "table_ok t \<longleftrightarrow> (\<forall>k e. map_of (lt_locks t) k = Some e \<longrightarrow> le_ref_count e \<noteq> 0 \<and> le_id e < lt_next t)
     \<and> (\<forall>j k i. lock_id t j = Some i \<and> lock_id t k = Some i \<longrightarrow> j = k)"

lemma table_ok_no_locks [simp]: "table_ok no_locks"
  by (simp add: table_ok_def lock_id_def no_locks_def)

lemma lock_count_no_locks [simp]: "lock_count no_locks k = 0"
  by (simp add: lock_count_def no_locks_def)

lemma unat_inc: "unat (w :: u32) < 2 ^ 32 - 1 \<Longrightarrow> unat (w + 1) = Suc (unat w)"
  by (simp add: unat_word_ariths)

lemma unat_dec: "(w :: u32) \<noteq> 0 \<Longrightarrow> unat (w - 1) = unat w - 1"
  by (rule unat_minus_one)

lemma acquire_map:
  assumes "acquire_lock_ref k t = (h, u)"
  shows "map_of (lt_locks u) = (map_of (lt_locks t))(k \<mapsto>
      (case map_of (lt_locks t) k of
         None \<Rightarrow> \<lparr>le_id = lt_next t, le_ref_count = 1\<rparr>
       | Some e \<Rightarrow> e\<lparr>le_ref_count := le_ref_count e + 1\<rparr>))
    \<and> h = (case map_of (lt_locks t) k of None \<Rightarrow> lt_next t | Some e \<Rightarrow> le_id e)
    \<and> lt_next u = (case map_of (lt_locks t) k of None \<Rightarrow> Suc (lt_next t) | Some e \<Rightarrow> lt_next t)"
  using assms by (cases "map_of (lt_locks t) k") (auto simp: acquire_lock_ref_def Let_def fun_eq_iff)

lemma release_map:
  "map_of (lt_locks (release_lock_ref k t)) =
     (case map_of (lt_locks t) k of
        None \<Rightarrow> map_of (lt_locks t)
      | Some e \<Rightarrow> (map_of (lt_locks t))(k :=
          if le_ref_count e - 1 = 0 then None else Some (e\<lparr>le_ref_count := le_ref_count e - 1\<rparr>)))"
  by (auto simp: release_lock_ref_def Let_def split: option.split)

lemma lt_next_release [simp]: "lt_next (release_lock_ref k t) = lt_next t"
  by (auto simp: release_lock_ref_def Let_def split: option.split)

lemma acquire_count:
  assumes "table_ok t" and "lock_count t k < 2 ^ 32 - 1" and "acquire_lock_ref k t = (h, u)"
  shows "lock_count u = (lock_count t)(k := Suc (lock_count t k))"
  using acquire_map [OF assms(3)] assms(2)
  by (cases "map_of (lt_locks t) k") (auto simp: lock_count_def fun_eq_iff unat_inc)

lemma release_count:
  assumes "table_ok t"
  shows "lock_count (release_lock_ref k t) = (lock_count t)(k := lock_count t k - 1)"
proof (cases "map_of (lt_locks t) k")
  case None
  then show ?thesis by (auto simp: lock_count_def release_map fun_eq_iff)
next
  case (Some e)
  then have "le_ref_count e \<noteq> 0" using assms by (auto simp: table_ok_def)
  then have "unat (le_ref_count e - 1) = unat (le_ref_count e) - 1" by (rule unat_dec)
  with Some show ?thesis by (auto simp: lock_count_def release_map fun_eq_iff unat_eq_0)
qed

lemma acquire_id: "acquire_lock_ref k t = (h, u) \<Longrightarrow> lock_id u = (lock_id t)(k \<mapsto> h)"
  using acquire_map [of k t h u]
  by (cases "map_of (lt_locks t) k") (simp_all add: lock_id_def fun_eq_iff)

lemma release_id:
  "lock_id (release_lock_ref k t) = lock_id t \<or> lock_id (release_lock_ref k t) = (lock_id t)(k := None)"
  by (auto simp: lock_id_def release_map fun_eq_iff split: option.splits)

lemma table_ok_id: "table_ok t \<Longrightarrow> lock_id t k = Some i \<Longrightarrow> i < lt_next t"
  by (auto simp: table_ok_def lock_id_def)

lemma acquire_ok:
  assumes "table_ok t" and "lock_count t k < 2 ^ 32 - 1" and "acquire_lock_ref k t = (h, u)"
  shows "table_ok u"
  unfolding table_ok_def
proof (intro conjI allI impI)
  fix j e
  assume e: "map_of (lt_locks u) j = Some e"
  note M = acquire_map [OF assms(3)]
  have "le_ref_count e \<noteq> 0 \<and> le_id e < lt_next u"
  proof (cases "j = k")
    case False
    then have "map_of (lt_locks t) j = Some e" using e M by simp
    then have "le_ref_count e \<noteq> 0 \<and> le_id e < lt_next t" using assms(1) by (simp add: table_ok_def)
    with M show ?thesis by (auto split: option.splits)
  next
    case True
    show ?thesis
    proof (cases "map_of (lt_locks t) k")
      case None
      with True e M show ?thesis by auto
    next
      case (Some d)
      then have "unat (le_ref_count d + 1) \<noteq> 0"
        using assms(2) unat_inc [of "le_ref_count d"] by (simp add: lock_count_def)
      moreover have "le_id d < lt_next t" using Some assms(1) by (simp add: table_ok_def)
      ultimately show ?thesis using True Some e M by (auto simp: unat_eq_0)
    qed
  qed
  then show "le_ref_count e \<noteq> 0" "le_id e < lt_next u" by auto
next
  fix i j n
  assume ids: "lock_id u i = Some n \<and> lock_id u j = Some n"
  have h: "lock_id t k = None \<and> h = lt_next t \<or> lock_id t k = Some h"
    using acquire_map [OF assms(3)] by (auto simp: lock_id_def split: option.splits)
  with ids acquire_id [OF assms(3)] table_ok_id [OF assms(1)] assms(1) show "i = j"
    unfolding table_ok_def by (auto split: if_splits)
qed

lemma release_ok: "table_ok t \<Longrightarrow> table_ok (release_lock_ref k t)"
  unfolding table_ok_def using release_id [of k t]
  by (auto simp: release_map split: option.splits if_splits)

section \<open>The counting contract\<close>

text \<open>
  What \<open>FileManager\<close> relies on: taking a reference adds one to the count of its key, giving it
  back takes one away, and neither touches another key.
\<close>

locale reference_counting =
  fixes acq :: "'k \<Rightarrow> 't \<Rightarrow> 'h \<times> 't" and rel :: "'k \<Rightarrow> 't \<Rightarrow> 't"
    and count :: "'t \<Rightarrow> 'k \<Rightarrow> nat" and good :: "'t \<Rightarrow> bool" and limit :: nat
  assumes acq_count: "good t \<Longrightarrow> count t k < limit \<Longrightarrow> acq k t = (h, u) \<Longrightarrow>
      count u = (count t)(k := Suc (count t k)) \<and> good u"
    and rel_count: "good t \<Longrightarrow> count (rel k t) = (count t)(k := count t k - 1) \<and> good (rel k t)"
begin

lemma balanced:
  assumes "good t" and "count t k < limit" and "acq k t = (h, u)"
  shows "count (rel k u) = count t \<and> good (rel k u)"
  using acq_count [OF assms] rel_count [of u k] by auto

lemma balanced_two:
  assumes "good t" and "j \<noteq> k" and "count t j < limit" and "count t k < limit"
    and "acq j t = (h, u)" and "acq k u = (i, v)"
  shows "count (rel k (rel j v)) = count t \<and> good (rel k (rel j v))"
proof -
  note u = acq_count [OF assms(1,3,5)]
  have "count u k < limit" using u assms(2,4) by simp
  note v = acq_count [OF conjunct2 [OF u] this assms(6)]
  note x = rel_count [OF conjunct2 [OF v], of j]
  note y = rel_count [OF conjunct2 [OF x], of k]
  from u v x y assms(2) show ?thesis by (auto simp: fun_eq_iff)
qed

lemma leaked:
  assumes "good t" and "count t k < limit" and "acq k t = (h, u)"
  shows "count u k = Suc (count t k) \<and> (\<forall>j. j \<noteq> k \<longrightarrow> count u j = count t j)"
  using acq_count [OF assms] by simp

end

interpretation refs: reference_counting acquire_lock_ref release_lock_ref lock_count table_ok "2 ^ 32 - 1"
  by unfold_locales
    (use acquire_count acquire_ok release_count release_ok in \<open>blast+\<close>)

section \<open>Properties\<close>

text \<open>As long as a key has fewer than 2^32 - 1 references, taking one counts it and
  giving one back uncounts it, the entry disappears from the map exactly when its last
  reference is given back, and other keys are untouched; a reference taken and given back
  leaves all counts as they were.\<close>

theorem lock_references_counted:
  assumes "table_ok t" and "lock_count t k < 2 ^ 32 - 1" and "acquire_lock_ref k t = (h, u)"
  shows "lock_count u = (lock_count t)(k := Suc (lock_count t k))
    \<and> lock_id u k = Some h \<and> table_ok u
    \<and> lock_count (release_lock_ref k u) = lock_count t \<and> table_ok (release_lock_ref k u)
    \<and> (map_of (lt_locks (release_lock_ref k u)) k = None \<longleftrightarrow> lock_count t k = 0)"
proof -
  have zero: "map_of (lt_locks v) k = None \<longleftrightarrow> lock_count v k = 0" if "table_ok v" for v
    using that by (auto simp: lock_count_def table_ok_def unat_eq_0 split: option.split)
  have "lock_id u k = Some h"
    using acquire_map [OF assms(3)] by (auto simp: lock_id_def split: option.splits)
  with refs.acq_count [OF assms] refs.balanced [OF assms] zero show ?thesis by auto
qed

theorem lock_references_counted_witness:
  "let u = snd (acquire_lock_ref ''k'' no_locks)
   in lock_count u ''k'' = 1 \<and> lt_locks (release_lock_ref ''k'' u) = []"
proof -
  let ?a = "acquire_lock_ref ''k'' no_locks"
  have run: "?a = (fst ?a, snd ?a)" by simp
  have "lt_locks (release_lock_ref ''k'' (snd ?a)) = []" by code_simp
  with lock_references_counted [OF table_ok_no_locks _ run] show ?thesis by (simp add: Let_def)
qed

end
