(* ===== verification/File_Manager.thy ===== *)
theory File_Manager
  imports Net_Utils Metadata Lock_Manager
begin

text \<open>
  src/src/server/file_manager.cpp: the file operations of the server. Each works on the
  server's shared state (disk, index, lock table) and, where it transfers data, on the
  client's socket. Every failing call and every exception is a branch; the statements that
  only log are left out. A function here is one thread's complete execution; how executions
  of several threads interleave under the locks is the subject of theory \<open>Lock_Protocol\<close>.
\<close>

section \<open>Shared state\<close>

text \<open>
  The clock and the allocator are choices of the environment: \<open>w_clock k\<close> is the k-th time
  stamp, \<open>w_alloc n\<close> says whether a buffer of n bytes can be allocated, \<open>w_be\<close> the byte
  order of the host.
\<close>

record world =
  w_fs :: filesys
  w_index :: meta_index
  w_locks :: lock_table
  w_clock :: "nat \<Rightarrow> bytes"
  w_time :: nat
  w_alloc :: "nat \<Rightarrow> bool"
  w_be :: bool

definition set_fs :: "filesys \<Rightarrow> world \<Rightarrow> world" where "set_fs f w = w\<lparr>w_fs := f\<rparr>"

text \<open>\<open>MetadataManager::add_file\<close> reads the clock.\<close>

definition index_add :: "bytes \<Rightarrow> bytes \<Rightarrow> u64 \<Rightarrow> world \<Rightarrow> world" where
  "index_add d n sz w =
     w\<lparr>w_index := add_file (w_index w) d n sz (w_clock w (w_time w)), w_time := Suc (w_time w)\<rparr>"

definition index_remove :: "bytes \<Rightarrow> bytes \<Rightarrow> world \<Rightarrow> world" where
  "index_remove d n w = w\<lparr>w_index := remove_file (w_index w) d n\<rparr>"

definition lock_ref :: "bytes \<Rightarrow> world \<Rightarrow> world" where
  "lock_ref key w = w\<lparr>w_locks := snd (acquire_lock_ref key (w_locks w))\<rparr>"

definition unlock_ref :: "bytes \<Rightarrow> world \<Rightarrow> world" where
  "unlock_ref key w = w\<lparr>w_locks := release_lock_ref key (w_locks w)\<rparr>"

section \<open>File names\<close>

fun contains_dotdot :: "bytes \<Rightarrow> bool" where
  "contains_dotdot (a # b # cs) = (a = CHR ''.'' \<and> b = CHR ''.'' \<or> contains_dotdot (b # cs))"
| "contains_dotdot _ = False"

definition is_valid_filename :: "bytes \<Rightarrow> bool" where
  "is_valid_filename filename =
     (if filename = [] \<or> filename = ''.'' \<or> filename = ''..'' then False
      else if CHR ''/'' \<in> set filename \<or> CHR 0x5C \<in> set filename then False
      else if contains_dotdot filename then False
      else True)"

definition user_path :: "bytes \<Rightarrow> bytes" where
  "user_path username = path_append ''storage'' username"

definition file_path :: "bytes \<Rightarrow> bytes \<Rightarrow> bytes" where
  "file_path username filename = path_append (user_path username) filename"

section \<open>Receiving a file\<close>

function discard_data :: "socket \<Rightarrow> nat \<Rightarrow> socket" where
  "discard_data s bytes_remaining =
     (if 0 < bytes_remaining then
        (let chunk_size = min TRANSFER_BUFFER_SIZE bytes_remaining
         in case recv_all s chunk_size of
              (None, s) \<Rightarrow> s
            | (Some _, s) \<Rightarrow> discard_data s (bytes_remaining - chunk_size))
      else s)"
  by pat_completeness auto
termination
  by (relation "measure (\<lambda>(s, n). n)") (auto simp: TRANSFER_BUFFER_SIZE_def)

text \<open>The receive loop of \<open>save_file\<close>: False when \<open>recv_all\<close> failed.\<close>

function save_loop :: "ofstream \<Rightarrow> nat \<Rightarrow> filesys \<Rightarrow> socket \<Rightarrow> bool \<times> filesys \<times> socket" where
  "save_loop outfile bytes_remaining f s =
     (if 0 < bytes_remaining then
        (let chunk_size = min TRANSFER_BUFFER_SIZE bytes_remaining
         in case recv_all s chunk_size of
              (None, s) \<Rightarrow> (False, f, s)
            | (Some buffer, s) \<Rightarrow>
                (case ofstream_write f outfile buffer of
                   (outfile, f) \<Rightarrow> save_loop outfile (bytes_remaining - chunk_size) f s))
      else (True, f, s))"
  by pat_completeness auto
termination
  by (relation "measure (\<lambda>(h, n, f, s). n)") (auto simp: TRANSFER_BUFFER_SIZE_def)

declare discard_data.simps [simp del] save_loop.simps [simp del]

text \<open>
  The body of \<open>save_file\<close> once the file name has been accepted. Raised is an exception that
  leaves the try block. A network error removes the partial file and returns without giving
  the lock reference back.
\<close>

definition save_body :: "bytes \<Rightarrow> bytes \<Rightarrow> u64 \<Rightarrow> world \<Rightarrow> socket \<Rightarrow> bool result \<times> world \<times> socket" where
  "save_body username filename file_size w s =
     (let path = file_path username filename; w = lock_ref path w
      in case ofstream_open (w_fs w) path of
           (None, f) \<Rightarrow>
             (let s = discard_data s (unat file_size)
              in (Value False, unlock_ref path (set_fs f w), s))
         | (Some outfile, f) \<Rightarrow>
             (case save_loop outfile (unat file_size) f s of
                (False, f, s) \<Rightarrow>
                  (case fs_remove f path of
                     (Raised, f) \<Rightarrow> (Raised, set_fs f w, s)
                   | (Value _, f) \<Rightarrow> (Value False, set_fs f w, s))
              | (True, f, s) \<Rightarrow>
                  (Value True,
                   unlock_ref path (index_add (user_dir username) filename file_size (set_fs f w)), s)))"

text \<open>The whole try block: the user's directory is made before the file name is checked.\<close>

definition save_try :: "bytes \<Rightarrow> bytes \<Rightarrow> u64 \<Rightarrow> world \<Rightarrow> socket \<Rightarrow> bool result \<times> world \<times> socket" where
  "save_try username filename file_size w s =
     (case fs_exists (w_fs w) (user_path username) of
        (Raised, f) \<Rightarrow> (Raised, set_fs f w, s)
      | (Value there, f) \<Rightarrow>
     (case (if there then (Value (), f) else fs_create_directories f (user_path username)) of
        (Raised, f) \<Rightarrow> (Raised, set_fs f w, s)
      | (Value _, f) \<Rightarrow>
          (let w = set_fs f w
           in if \<not> is_valid_filename filename
              then (Value False, w, discard_data s (unat file_size))
              else save_body username filename file_size w s)))"

definition save_file :: "bytes \<Rightarrow> bytes \<Rightarrow> u64 \<Rightarrow> world \<Rightarrow> socket \<Rightarrow> bool \<times> world \<times> socket" where
  "save_file username filename file_size w s =
     (case save_try username filename file_size w s of
        (Value b, w, s) \<Rightarrow> (b, w, s)
      | (Raised, w, s) \<Rightarrow> (False, w, discard_data s (unat file_size)))"

section \<open>Sending a file\<close>

text \<open>The size of an unknown file is \<open>static_cast<uint64_t>(-1)\<close>.\<close>

definition fm_get_file_size :: "bytes \<Rightarrow> bytes \<Rightarrow> world \<Rightarrow> u64" where
  "fm_get_file_size username filename w =
     (let dir = user_dir username
      in if \<not> file_exists (w_index w) dir filename then - 1
         else get_file_size (w_index w) dir filename)"

function stream_loop :: "bytes \<Rightarrow> filesys \<Rightarrow> socket \<Rightarrow> bool \<times> filesys \<times> socket" where
  "stream_loop infile f s =
     (case ifstream_read f infile TRANSFER_BUFFER_SIZE of
        (buffer, infile', good, f) \<Rightarrow>
          (case (if 0 < length buffer then send_all s buffer (length buffer) else (True, s)) of
             (False, s) \<Rightarrow> (False, f, s)
           | (True, s) \<Rightarrow> if good then stream_loop infile' f s else (True, f, s)))"
  by pat_completeness auto
termination
  by (relation "measure (\<lambda>(c, f, s). length c)")
    (auto simp: ifstream_read_def fs_tick_def TRANSFER_BUFFER_SIZE_def split: if_splits)

declare stream_loop.simps [simp del]

text \<open>
  The reference is given back when the file does not open and when sending fails, but not
  after the file has been sent.
\<close>

definition stream_file_to_socket :: "bytes \<Rightarrow> bytes \<Rightarrow> world \<Rightarrow> socket \<Rightarrow> bool \<times> world \<times> socket" where
  "stream_file_to_socket username filename w s =
     (if \<not> is_valid_filename filename then (False, w, s)
      else
        (let path = file_path username filename; w = lock_ref path w
         in case ifstream_open (w_fs w) path of
              (None, f) \<Rightarrow> (False, unlock_ref path (set_fs f w), s)
            | (Some infile, f) \<Rightarrow>
                (case stream_loop infile f s of
                   (False, f, s) \<Rightarrow> (False, unlock_ref path (set_fs f w), s)
                 | (True, f, s) \<Rightarrow> (True, set_fs f w, s))))"

section \<open>Listing, deleting, renaming\<close>

definition list_line :: "FileMetadata \<Rightarrow> bytes" where
  "list_line meta = md_filename meta @ '' ('' @ to_string (unat (md_size meta)) @ '' bytes) - ''
     @ md_upload_time meta @ [CHR 0x0A]"

definition list_files :: "bytes \<Rightarrow> world \<Rightarrow> bytes" where
  "list_files username w =
     (let files = list_directory (w_index w) (user_dir username)
      in if files = [] then ''(Empty)'' else concat (map list_line files))"

text \<open>An exception in \<open>delete_file\<close> or \<open>rename_file\<close> returns false and keeps the references.\<close>

definition delete_file :: "bytes \<Rightarrow> bytes \<Rightarrow> world \<Rightarrow> bool \<times> world" where
  "delete_file username filename w =
     (if \<not> is_valid_filename filename then (False, w)
      else
        (let path = file_path username filename; w = lock_ref path w
         in case fs_remove (w_fs w) path of
              (Raised, f) \<Rightarrow> (False, set_fs f w)
            | (Value success, f) \<Rightarrow>
                (let w = set_fs f w;
                     w = (if success then index_remove (user_dir username) filename w else w)
                 in (success, unlock_ref path w))))"

text \<open>\<open>!fs::exists(old) || fs::exists(new)\<close>, the second call only when the first finds the file.\<close>

definition rename_blocked :: "bytes \<Rightarrow> bytes \<Rightarrow> filesys \<Rightarrow> bool result \<times> filesys" where
  "rename_blocked old new f =
     (case fs_exists f old of
        (Raised, f) \<Rightarrow> (Raised, f)
      | (Value False, f) \<Rightarrow> (Value True, f)
      | (Value True, f) \<Rightarrow> fs_exists f new)"

definition rename_file :: "bytes \<Rightarrow> bytes \<Rightarrow> bytes \<Rightarrow> world \<Rightarrow> bool \<times> world" where
  "rename_file username old_name new_name w =
     (if \<not> is_valid_filename old_name \<or> \<not> is_valid_filename new_name then (False, w)
      else
        (let old = file_path username old_name; new = file_path username new_name
         in if old = new then (True, w)
            else
              (let w = lock_ref new (lock_ref old w)
               in case rename_blocked old new (w_fs w) of
                    (Raised, f) \<Rightarrow> (False, set_fs f w)
                  | (Value True, f) \<Rightarrow> (False, unlock_ref new (unlock_ref old (set_fs f w)))
                  | (Value False, f) \<Rightarrow>
                      (case fs_rename f old new of
                         (Raised, f) \<Rightarrow> (False, set_fs f w)
                       | (Value _, f) \<Rightarrow>
                           (let w = set_fs f w; dir = user_dir username;
                                sz = get_file_size (w_index w) dir old_name;
                                w = index_add dir new_name sz (index_remove dir old_name w)
                            in (True, unlock_ref new (unlock_ref old w)))))))"

section \<open>The loops over 8 KiB blocks\<close>

lemma chunk_pos: "0 < n \<Longrightarrow> 0 < min TRANSFER_BUFFER_SIZE n"
  by simp

lemma chunk_int: "min TRANSFER_BUFFER_SIZE n < 2 ^ 31"
  using TRANSFER_BUFFER_SIZE_int by linarith

lemma discard_data_reads: "only_reads s (discard_data s n)"
proof (induction s n rule: discard_data.induct)
  case (1 s n)
  show ?case
  proof (cases "0 < n")
    case False
    then show ?thesis by (simp add: discard_data.simps)
  next
    case True
    obtain r t where r: "recv_all s (min TRANSFER_BUFFER_SIZE n) = (r, t)" by fastforce
    show ?thesis
    proof (cases r)
      case None
      with True r recv_all_reads [OF r] show ?thesis by (subst discard_data.simps) (simp add: Let_def)
    next
      case (Some bs)
      have "only_reads t (discard_data t (n - min TRANSFER_BUFFER_SIZE n))"
        using "1.IH" [OF True refl r [symmetric] Some] by simp
      with True r Some recv_all_reads [OF r] show ?thesis
        by (subst discard_data.simps) (auto simp: Let_def intro: only_reads_trans)
    qed
  qed
qed

text \<open>With n bytes still to come, exactly n bytes are thrown away.\<close>

lemma discard_data_exact:
  "recv_contract s \<Longrightarrow> recv_reliable s \<Longrightarrow> n \<le> length (sk_rx s) \<Longrightarrow> sk_rx (discard_data s n) = drop n (sk_rx s)"
proof (induction s n rule: discard_data.induct)
  case (1 s n)
  let ?c = "min TRANSFER_BUFFER_SIZE n"
  show ?case
  proof (cases "0 < n")
    case False
    then show ?thesis by (simp add: discard_data.simps)
  next
    case True
    have "sk_rx s = take ?c (sk_rx s) @ drop ?c (sk_rx s)" by simp
    moreover have len: "length (take ?c (sk_rx s)) = ?c" using "1.prems"(3) by simp
    ultimately obtain t where t: "recv_all s ?c = (Some (take ?c (sk_rx s)), t)"
        "sk_rx t = drop ?c (sk_rx s)" "only_reads s t"
      using recv_all_append [OF "1.prems"(1,2), of "take ?c (sk_rx s)" "drop ?c (sk_rx s)"] chunk_int [of n]
      by (metis len)
    have "sk_rx (discard_data t (n - ?c)) = drop (n - ?c) (sk_rx t)"
      using "1.IH" [OF True refl t(1) [symmetric] refl] "1.prems" t only_reads_contracts [OF t(3)] by simp
    with True t show ?thesis
      by (subst discard_data.simps) (simp add: Let_def)
  qed
qed

text \<open>
  The receive loop of an upload, when the data arrives and the disk accepts it: the file holds
  what was in it followed by the next n bytes of the stream.
\<close>

lemma save_loop_complete:
  "recv_contract s \<Longrightarrow> recv_reliable s \<Longrightarrow> n \<le> length (sk_rx s) \<Longrightarrow> healthy f \<Longrightarrow> of_good h \<Longrightarrow>
   fs_at f (of_loc h) = Some (File c) \<Longrightarrow>
   \<exists>g t. save_loop h n f s = (True, g, t) \<and> fs_env g = fs_env f
     \<and> fs_at g = (fs_at f)(of_loc h \<mapsto> File (c @ take n (sk_rx s)))
     \<and> sk_rx t = drop n (sk_rx s) \<and> only_reads s t"
proof (induction h n f s arbitrary: c rule: save_loop.induct)
  case (1 h n f s)
  let ?c = "min TRANSFER_BUFFER_SIZE n"
  show ?case
  proof (cases "0 < n")
    case False
    with "1.prems"(6) show ?thesis by (simp add: save_loop.simps fun_upd_idem)
  next
    case True
    have len: "length (take ?c (sk_rx s)) = ?c" using "1.prems"(3) by simp
    obtain t where t: "recv_all s ?c = (Some (take ?c (sk_rx s)), t)"
        "sk_rx t = drop ?c (sk_rx s)" "only_reads s t"
      using recv_all_append [OF "1.prems"(1,2), of "take ?c (sk_rx s)" "drop ?c (sk_rx s)"] chunk_int [of n]
      by (metis append_take_drop_id len)
    let ?bs = "take ?c (sk_rx s)"
    define g where "g = fs_put (f\<lparr>fs_calls := Suc (fs_calls f)\<rparr>) (of_loc h) (File (c @ ?bs))"
    have w: "ofstream_write f h ?bs = (h, g)"
      using "1.prems"(4-6) by (simp add: ofstream_write_def g_def)
    have g: "healthy g" "fs_env g = fs_env f" "fs_at g = (fs_at f)(of_loc h \<mapsto> File (c @ ?bs))"
      using "1.prems"(4) by (simp_all add: g_def)
    have prems: "recv_contract t" "recv_reliable t" "n - ?c \<le> length (sk_rx t)" "healthy g" "of_good h"
        "fs_at g (of_loc h) = Some (File (c @ ?bs))"
      using "1.prems" t g only_reads_contracts [OF t(3)] by simp_all
    obtain g' u where u: "save_loop h (n - ?c) g t = (True, g', u)" "fs_env g' = fs_env g"
        "fs_at g' = (fs_at g)(of_loc h \<mapsto> File ((c @ ?bs) @ take (n - ?c) (sk_rx t)))"
        "sk_rx u = drop (n - ?c) (sk_rx t)" "only_reads t u"
      using "1.IH" [OF True refl t(1) [symmetric] refl w [symmetric] prems] by blast
    have "save_loop h n f s = (True, g', u)"
      using True t(1) w u(1) by (subst save_loop.simps) (simp add: Let_def)
    moreover have "?bs @ take (n - ?c) (sk_rx t) = take n (sk_rx s)"
      using take_add [of ?c "n - ?c" "sk_rx s"] t(2) by simp
    ultimately show ?thesis using u g t by (auto intro: only_reads_trans)
  qed
qed

end
