(* ===== verification/Paths.thy ===== *)
theory Paths
  imports File_Manager
begin

text \<open>
  Which user names and file names stay inside the storage directory: the path strings that
  src/src/server/file_manager.cpp builds, what \<open>is_valid_filename\<close> keeps out, and what it lets
  through.
\<close>

section \<open>Ordinary names\<close>

text \<open>
  A name that \<open>is_valid_filename\<close> accepts and that has no colon, which on Windows would make a
  drive of it.
\<close>

definition plain_name :: "bytes \<Rightarrow> bool" where
  "plain_name n \<longleftrightarrow> is_valid_filename n \<and> CHR '':'' \<notin> set n"

lemma valid_no_sep: "is_valid_filename n \<Longrightarrow> \<forall>c\<in>set n. \<not> is_sep c"
  by (auto simp: is_valid_filename_def is_sep_def split: if_splits)

lemma valid_nonempty: "is_valid_filename n \<Longrightarrow> n \<noteq> [] \<and> n \<noteq> ''.'' \<and> n \<noteq> ''..''"
  by (auto simp: is_valid_filename_def split: if_splits)

lemma valid_no_dotdot: "is_valid_filename n \<Longrightarrow> \<not> contains_dotdot n"
  by (auto simp: is_valid_filename_def split: if_splits)

lemma plain_clean: "plain_name n \<Longrightarrow> clean_name n"
  by (auto simp: plain_name_def is_valid_filename_def clean_name_def split: if_splits)

lemma root_name_plain:
  assumes "\<forall>c\<in>set p. \<not> is_sep c" and "CHR '':'' \<notin> set p"
  shows "root_name (p @ q) = [] \<or> length p < 2"
  using assms by (cases p rule: root_name.cases) auto

lemma plain_root: "plain_name n \<Longrightarrow> root_name n = []"
  using root_name_plain [of n "[]"] valid_no_sep [of n]
  by (cases n rule: root_name.cases) (auto simp: plain_name_def)

lemma append_plain:
  assumes "plain_name n" and "root_name p = []" and "p \<noteq> []" and "\<not> is_sep (last p)"
  shows "path_append p n = p @ [CHR 0x5C] @ n"
  using assms plain_root [OF assms(1)] valid_no_sep [of n] valid_nonempty [of n]
  by (auto simp: path_append_def plain_name_def is_absolute_def has_root_directory_def has_filename_def
      after_root_def split: list.splits)

lemma storage_root: "root_name (''storage'' @ q) = []"
  by (simp add: is_sep_def is_letter_def)

lemma user_path_plain: "plain_name u \<Longrightarrow> user_path u = ''storage'' @ [CHR 0x5C] @ u"
  unfolding user_path_def using storage_root [of "[]"] by (subst append_plain) (auto simp: is_sep_def)

lemma file_path_plain:
  assumes "plain_name u" and "plain_name n"
  shows "file_path u n = ''storage'' @ [CHR 0x5C] @ u @ [CHR 0x5C] @ n"
proof -
  have "\<not> is_sep (last (''storage'' @ [CHR 0x5C] @ u))"
    using assms(1) valid_no_sep [of u] valid_nonempty [of u] by (auto simp: plain_name_def)
  then show ?thesis
    unfolding file_path_def user_path_plain [OF assms(1)]
    using storage_root by (subst append_plain [OF assms(2)]) (simp_all del: append_Cons)
qed

section \<open>Where the paths lead\<close>

lemma split_path_sep: "split_path (rev a) (CHR 0x5C # q) = (if a = [] then split_path [] q else a # split_path [] q)"
  by (simp add: is_sep_def)

lemma split_join:
  assumes "\<forall>c\<in>set p. \<not> is_sep c" and "p \<noteq> []"
  shows "split_path [] (p @ CHR 0x5C # q) = p # split_path [] q"
  using split_path_plain [OF assms(1), of "[]" "CHR 0x5C # q"] split_path_sep [of p q] assms(2) by simp

lemma split_last: "\<forall>c\<in>set p. \<not> is_sep c \<Longrightarrow> p \<noteq> [] \<Longrightarrow> split_path [] p = [p]"
  using split_path_plain [of p "[]" "[]"] by simp

lemma collapse_plain: "\<forall>p\<in>set ps. p \<noteq> ''.'' \<and> p \<noteq> ''..'' \<Longrightarrow> collapse ps = ps"
proof -
  have "foldl (\<lambda>st p. if p = ''.'' then st else if p = ''..'' then tl st else p # st) st ps = rev ps @ st"
    if "\<forall>p\<in>set ps. p \<noteq> ''.'' \<and> p \<noteq> ''..''" for st
    using that by (induction ps arbitrary: st) auto
  then show "\<forall>p\<in>set ps. p \<noteq> ''.'' \<and> p \<noteq> ''..'' \<Longrightarrow> collapse ps = ps" by (simp add: collapse_def)
qed

lemma storage_no_sep: "\<forall>c\<in>set ''storage''. \<not> is_sep c"
  by (simp add: is_sep_def)

lemma resolve_user_path:
  assumes "plain_name u"
  shows "lexical_resolve (user_path u) = [''storage'', u]"
proof -
  have "split_path [] (''storage'' @ CHR 0x5C # u) = [''storage'', u]"
    using split_join [OF storage_no_sep, of u] split_last [of u] valid_no_sep [of u] valid_nonempty [of u] assms
    by (simp add: plain_name_def)
  then show ?thesis
    using storage_root [of "CHR 0x5C # u"] valid_nonempty [of u] assms
      collapse_plain [of "[''storage'', u]"]
    by (simp add: lexical_resolve_def user_path_plain after_root_def plain_name_def)
qed

lemma resolve_file_path:
  assumes "plain_name u" and "plain_name n"
  shows "lexical_resolve (file_path u n) = [''storage'', u, n]"
proof -
  have "split_path [] (''storage'' @ CHR 0x5C # u @ CHR 0x5C # n) = [''storage'', u, n]"
    using split_join [OF storage_no_sep, of "u @ CHR 0x5C # n"] split_join [of u n] split_last [of n]
      valid_no_sep [of u] valid_nonempty [of u] valid_no_sep [of n] valid_nonempty [of n] assms
    by (simp add: plain_name_def)
  then show ?thesis
    using storage_root [of "CHR 0x5C # u @ CHR 0x5C # n"] valid_nonempty [of u] valid_nonempty [of n] assms
      collapse_plain [of "[''storage'', u, n]"]
    by (simp add: lexical_resolve_def file_path_plain after_root_def plain_name_def)
qed

section \<open>The rules of Windows for the text of a path\<close>

















section \<open>Properties\<close>



text \<open>C20: the check lets through a name that starts with a drive, such as \<open>C:x\<close>, and such a
  name replaces the whole path, so the file is not under the storage directory. A user name
  is not checked at all: the user \<open>..\<close> reaches the files beside the storage directory.\<close>

theorem names_that_escape:
  assumes "plain_name u" and "is_letter d" and "plain_name n"
  shows "is_valid_filename (d # CHR '':'' # n) \<and> file_path u (d # CHR '':'' # n) = d # CHR '':'' # n
    \<and> lexical_resolve (file_path u (d # CHR '':'' # n)) = [[d, CHR '':''], n]
    \<and> lexical_resolve (file_path ''..'' n) = [n]"
proof -
  have sep: "\<not> is_sep d" using assms(2) by (auto simp: is_letter_def is_sep_def)
  then have d: "d \<noteq> CHR ''/''" "d \<noteq> CHR 0x5C" "d \<noteq> CHR ''.''"
    using assms(2) by (auto simp: is_sep_def is_letter_def)
  have "is_valid_filename n" using assms(3) by (simp add: plain_name_def)
  then have n: "\<forall>c\<in>set n. \<not> is_sep c" "n \<noteq> []" "n \<noteq> ''.''" "n \<noteq> ''..''" "\<not> contains_dotdot n"
    using valid_no_sep valid_nonempty valid_no_dotdot by blast+
  have "contains_dotdot (d # CHR '':'' # n) = contains_dotdot n"
    using d(3) n(2) by (cases n) auto
  with d n have valid: "is_valid_filename (d # CHR '':'' # n)"
    by (auto simp: is_valid_filename_def is_sep_def)
  have root: "root_name (d # CHR '':'' # n) = [d, CHR '':'']" using assms(2) sep by simp
  have "root_name (user_path u) = []" using storage_root by (simp add: user_path_plain [OF assms(1)] del: append_Cons)
  then have path: "file_path u (d # CHR '':'' # n) = d # CHR '':'' # n"
    using root by (simp add: file_path_def path_append_def)
  have "lexical_resolve (d # CHR '':'' # n) = [[d, CHR '':''], n]"
    using root n split_last [OF n(1,2)] collapse_plain [of "[n]"] by (simp add: lexical_resolve_def after_root_def)
  moreover have "lexical_resolve (file_path ''..'' n) = [n]"
  proof -
    have up: "user_path ''..'' = ''storage'' @ [CHR 0x5C] @ ''..''"
      by (simp add: user_path_def path_append_def is_absolute_def has_root_directory_def has_filename_def
          after_root_def is_sep_def is_letter_def)
    have "file_path ''..'' n = (''storage'' @ [CHR 0x5C] @ ''..'') @ [CHR 0x5C] @ n"
      unfolding file_path_def up
      using storage_root by (intro append_plain [OF assms(3)]) (simp_all add: is_sep_def del: append_Cons)
    moreover have "split_path [] (''storage'' @ CHR 0x5C # ''..'' @ CHR 0x5C # n) = [''storage'', ''..'', n]"
      using split_join [OF storage_no_sep, of "''..'' @ CHR 0x5C # n"] split_join [of "''..''" n] split_last [OF n(1,2)]
      by (simp add: is_sep_def)
    ultimately show ?thesis
      using storage_root [of "CHR 0x5C # ''..'' @ CHR 0x5C # n"] n
      by (simp add: lexical_resolve_def after_root_def collapse_def)
  qed
  ultimately show ?thesis using valid path by simp
qed

theorem names_that_escape_witness:
  "is_valid_filename ''C:x'' \<and> file_path ''bob'' ''C:x'' = ''C:x'' \<and> lexical_resolve (file_path ''..'' ''x'') = [''x'']"
  using names_that_escape [of "''bob''" "CHR ''C''" "''x''"]
  by (simp add: plain_name_def is_valid_filename_def is_letter_def)

end
