(* ===== verification/Lock_Protocol.thy ===== *)
theory Lock_Protocol
  imports Paths
begin

text \<open>
  How the operations of src/src/server/file_manager.cpp lock files when several sessions run at
  once: take a reference to the entry of the path, lock the entry's shared mutex (for writing in
  \<open>save_file\<close>, \<open>delete_file\<close> and \<open>rename_file\<close>, for reading in \<open>stream_file_to_socket\<close>), unlock
  it, and give the reference back, or leave without giving it back as some paths do. The table
  is that of theory \<open>Lock_Manager\<close>; a rename holds two claims at a time.
\<close>

section \<open>Claims\<close>

text \<open>One use of a lock: where it is, the key, whether it writes, and the entry it got.\<close>

datatype phase = Has_Ref | Held | Unlocked | Over

record claim =
  cl_key :: bytes
  cl_write :: bool
  cl_id :: nat
  cl_phase :: phase

record locking =
  lk_table :: lock_table
  lk_claims :: "claim list"
  lk_taken :: nat

definition no_locking :: locking where
  "no_locking = \<lparr>lk_table = no_locks, lk_claims = [], lk_taken = 0\<rparr>"

text \<open>A \<open>shared_mutex\<close> is free for a writer when nobody holds it, for a reader when no writer does.\<close>

definition mutex_free :: "claim list \<Rightarrow> nat \<Rightarrow> bool \<Rightarrow> bool" where
  "mutex_free cs m w \<longleftrightarrow> (\<forall>c\<in>set cs. cl_phase c = Held \<and> cl_id c = m \<longrightarrow> \<not> cl_write c \<and> \<not> w)"

text \<open>\<open>lk_taken\<close> counts the references ever taken; the counters are 32 bits wide.\<close>

inductive lk_step :: "locking \<Rightarrow> locking \<Rightarrow> bool" where
  take_ref: "lk_taken s < 2 ^ 32 - 1 \<Longrightarrow> acquire_lock_ref k (lk_table s) = (m, t) \<Longrightarrow>
     lk_step s (s\<lparr>lk_table := t, lk_taken := Suc (lk_taken s),
       lk_claims := lk_claims s @ [\<lparr>cl_key = k, cl_write = w, cl_id = m, cl_phase = Has_Ref\<rparr>]\<rparr>)"
| lock: "i < length (lk_claims s) \<Longrightarrow> lk_claims s ! i = c \<Longrightarrow> cl_phase c = Has_Ref \<Longrightarrow>
     mutex_free (lk_claims s) (cl_id c) (cl_write c) \<Longrightarrow>
     lk_step s (s\<lparr>lk_claims := (lk_claims s)[i := c\<lparr>cl_phase := Held\<rparr>]\<rparr>)"
| unlock: "i < length (lk_claims s) \<Longrightarrow> lk_claims s ! i = c \<Longrightarrow> cl_phase c = Held \<Longrightarrow>
     lk_step s (s\<lparr>lk_claims := (lk_claims s)[i := c\<lparr>cl_phase := Unlocked\<rparr>]\<rparr>)"
| give_back: "i < length (lk_claims s) \<Longrightarrow> lk_claims s ! i = c \<Longrightarrow> cl_phase c = Unlocked \<Longrightarrow>
     lk_step s (s\<lparr>lk_table := release_lock_ref (cl_key c) (lk_table s),
       lk_claims := (lk_claims s)[i := c\<lparr>cl_phase := Over\<rparr>]\<rparr>)"
| leak: "i < length (lk_claims s) \<Longrightarrow> lk_claims s ! i = c \<Longrightarrow> cl_phase c = Unlocked \<Longrightarrow>
     lk_step s (s\<lparr>lk_claims := (lk_claims s)[i := c\<lparr>cl_phase := Over\<rparr>]\<rparr>)"

section \<open>The invariant\<close>

definition uses_key :: "bytes \<Rightarrow> claim \<Rightarrow> bool" where
  "uses_key k c \<longleftrightarrow> cl_key c = k \<and> cl_phase c \<noteq> Over"

definition locking_ok :: "locking \<Rightarrow> bool" where
  "locking_ok s \<longleftrightarrow> table_ok (lk_table s) \<and> lk_taken s < 2 ^ 32
     \<and> (\<forall>k. cnt (uses_key k) (lk_claims s) \<le> lock_count (lk_table s) k \<and> lock_count (lk_table s) k \<le> lk_taken s)
     \<and> (\<forall>c\<in>set (lk_claims s). cl_phase c \<noteq> Over \<longrightarrow> lock_id (lk_table s) (cl_key c) = Some (cl_id c))
     \<and> (\<forall>i j. i < length (lk_claims s) \<and> j < length (lk_claims s) \<and> i \<noteq> j
          \<and> cl_phase (lk_claims s ! i) = Held \<and> cl_phase (lk_claims s ! j) = Held
          \<and> cl_id (lk_claims s ! i) = cl_id (lk_claims s ! j) \<longrightarrow>
          \<not> cl_write (lk_claims s ! i) \<and> \<not> cl_write (lk_claims s ! j))"

lemma count_id: "table_ok t \<Longrightarrow> 0 < lock_count t k \<longleftrightarrow> lock_id t k \<noteq> None"
  by (auto simp: lock_count_def lock_id_def table_ok_def unat_gt_0 split: option.split)

lemma release_id_kept:
  assumes "table_ok t" and "lock_id t j = Some m" and "j \<noteq> k \<or> 1 < lock_count t k"
  shows "lock_id (release_lock_ref k t) j = Some m"
proof (cases "j = k")
  case False
  with assms(2) release_id [of k t] show ?thesis by (metis fun_upd_other)
next
  case True
  have "0 < lock_count (release_lock_ref k t) k" using release_count [OF assms(1), of k] assms(3) True by simp
  then have "lock_id (release_lock_ref k t) k \<noteq> None" using count_id release_ok [OF assms(1)] by blast
  with assms(2) True release_id [of k t] show ?thesis by (metis fun_upd_same)
qed

lemma acquire_id_kept:
  assumes "acquire_lock_ref k t = (m, u)" and "lock_id t j = Some n"
  shows "lock_id u j = Some n"
  using acquire_id [OF assms(1)] acquire_map [OF assms(1)] assms(2)
  by (auto simp: lock_id_def split: option.splits)

lemma uses_update:
  assumes "i < length cs" and "cs ! i = c" and "cl_key c' = cl_key c"
  shows "cnt (uses_key k) (cs[i := c']) + of_bool (cl_key c = k \<and> cl_phase c \<noteq> Over)
    = cnt (uses_key k) cs + of_bool (cl_key c = k \<and> cl_phase c' \<noteq> Over)"
  using cnt_update [OF assms(1), of "uses_key k" c'] assms(2,3) by (simp add: uses_key_def)

text \<open>The five parts of the invariant, by name.\<close>

definition refs_counted :: "locking \<Rightarrow> bool" where
  "refs_counted s \<longleftrightarrow> (\<forall>k. cnt (uses_key k) (lk_claims s) \<le> lock_count (lk_table s) k
     \<and> lock_count (lk_table s) k \<le> lk_taken s)"

definition ids_agree :: "locking \<Rightarrow> bool" where
  "ids_agree s \<longleftrightarrow> (\<forall>c\<in>set (lk_claims s). cl_phase c \<noteq> Over \<longrightarrow> lock_id (lk_table s) (cl_key c) = Some (cl_id c))"

definition shared_or_single :: "claim list \<Rightarrow> bool" where
  "shared_or_single cs \<longleftrightarrow> (\<forall>i j. i < length cs \<and> j < length cs \<and> i \<noteq> j
     \<and> cl_phase (cs ! i) = Held \<and> cl_phase (cs ! j) = Held \<and> cl_id (cs ! i) = cl_id (cs ! j) \<longrightarrow>
     \<not> cl_write (cs ! i) \<and> \<not> cl_write (cs ! j))"

lemma locking_ok_parts:
  "locking_ok s \<longleftrightarrow> table_ok (lk_table s) \<and> lk_taken s < 2 ^ 32 \<and> refs_counted s \<and> ids_agree s
     \<and> shared_or_single (lk_claims s)"
  by (simp add: locking_ok_def refs_counted_def ids_agree_def shared_or_single_def)

lemma shared_or_single_calm:
  assumes "shared_or_single cs" and "cl_phase c \<noteq> Held"
  shows "shared_or_single (cs[i := c])" and "shared_or_single (cs @ [c])"
proof -
  have upd: "cs[i := c] ! a = (if a = i then c else cs ! a)" if "a < length cs" for a using that by simp
  show "shared_or_single (cs[i := c])" using assms unfolding shared_or_single_def
    by (simp add: upd cong: conj_cong) metis
  show "shared_or_single (cs @ [c])" using assms unfolding shared_or_single_def
    by (auto simp: nth_append less_Suc_eq)
qed

lemma shared_or_single_lock:
  assumes "shared_or_single cs" and "i < length cs" and "mutex_free cs (cl_id c) (cl_write c)"
  shows "shared_or_single (cs[i := c\<lparr>cl_phase := Held\<rparr>])"
proof -
  have free: "\<not> cl_write (cs ! j) \<and> \<not> cl_write c"
    if "j < length cs" "cl_phase (cs ! j) = Held" "cl_id (cs ! j) = cl_id c" for j
    using assms(3) that nth_mem [of j cs] unfolding mutex_free_def by blast
  let ?cs = "cs[i := c\<lparr>cl_phase := Held\<rparr>]"
  show ?thesis
    unfolding shared_or_single_def
  proof (intro allI impI, elim conjE)
    fix a b
    assume l: "a < length ?cs" "b < length ?cs" and ne: "a \<noteq> b"
      and h: "cl_phase (?cs ! a) = Held" "cl_phase (?cs ! b) = Held" "cl_id (?cs ! a) = cl_id (?cs ! b)"
    show "\<not> cl_write (?cs ! a) \<and> \<not> cl_write (?cs ! b)"
    proof (cases "a = i \<or> b = i")
      case True
      then show ?thesis using free [of a] free [of b] l ne h assms(2) by auto
    next
      case False
      then show ?thesis using assms(1) l ne h unfolding shared_or_single_def by simp
    qed
  qed
qed

lemma locking_ok_take:
  assumes "locking_ok s" and "lk_taken s < 2 ^ 32 - 1" and "acquire_lock_ref k (lk_table s) = (m, t)"
  shows "locking_ok (s\<lparr>lk_table := t, lk_taken := Suc (lk_taken s),
       lk_claims := lk_claims s @ [\<lparr>cl_key = k, cl_write = w, cl_id = m, cl_phase = Has_Ref\<rparr>]\<rparr>)"
proof -
  let ?c = "\<lparr>cl_key = k, cl_write = w, cl_id = m, cl_phase = Has_Ref\<rparr>"
  from assms(1) have ok: "table_ok (lk_table s)" "refs_counted s" "ids_agree s" "shared_or_single (lk_claims s)"
    by (simp_all add: locking_ok_parts)
  have "lock_count (lk_table s) k < 2 ^ 32 - 1" using ok(2) assms(2) unfolding refs_counted_def by (meson le_less_trans)
  note acq = refs.acq_count [OF ok(1) this assms(3)]
  have count: "cnt (uses_key j) (lk_claims s @ [?c]) = cnt (uses_key j) (lk_claims s) + of_bool (j = k)" for j
    by (simp add: cnt_def uses_key_def)
  have new: "lock_id t k = Some m" using acquire_id [OF assms(3)] by simp
  have "cnt (uses_key j) (lk_claims s @ [?c]) \<le> lock_count t j \<and> lock_count t j \<le> Suc (lk_taken s)" for j
  proof -
    have "cnt (uses_key j) (lk_claims s) \<le> lock_count (lk_table s) j \<and> lock_count (lk_table s) j \<le> lk_taken s"
      using ok(2) by (simp add: refs_counted_def)
    then show ?thesis using acq count [of j] by (cases "j = k") auto
  qed
  moreover have "lock_id t (cl_key d) = Some (cl_id d)" if "d \<in> set (lk_claims s @ [?c])" "cl_phase d \<noteq> Over" for d
    using that new ok(3) acquire_id_kept [OF assms(3)] unfolding ids_agree_def by auto
  ultimately show ?thesis
    using acq assms(2) shared_or_single_calm(2) [OF ok(4), of ?c]
    by (simp add: locking_ok_parts refs_counted_def ids_agree_def)
qed

text \<open>A step of claim i that changes nothing but its phase.\<close>

lemma locking_ok_move:
  assumes "locking_ok s" and "i < length (lk_claims s)" and "lk_claims s ! i = c" and "cl_phase c \<noteq> Over"
    and "shared_or_single ((lk_claims s)[i := c\<lparr>cl_phase := p\<rparr>])"
  shows "locking_ok (s\<lparr>lk_claims := (lk_claims s)[i := c\<lparr>cl_phase := p\<rparr>]\<rparr>)"
proof -
  have le: "cnt (uses_key k) ((lk_claims s)[i := c\<lparr>cl_phase := p\<rparr>]) \<le> cnt (uses_key k) (lk_claims s)" for k
    using uses_update [OF assms(2,3), of "c\<lparr>cl_phase := p\<rparr>" k] assms(4) by (cases "cl_key c = k"; cases p) simp_all
  have "c \<in> set (lk_claims s)" using assms(2,3) by auto
  then have "ids_agree (s\<lparr>lk_claims := (lk_claims s)[i := c\<lparr>cl_phase := p\<rparr>]\<rparr>)"
    using assms(1,4) unfolding locking_ok_parts ids_agree_def by (auto dest!: set_update_subset_insert [THEN subsetD])
  moreover have "refs_counted (s\<lparr>lk_claims := (lk_claims s)[i := c\<lparr>cl_phase := p\<rparr>]\<rparr>)"
    using assms(1) le unfolding locking_ok_parts refs_counted_def by (auto intro: order_trans)
  ultimately show ?thesis using assms(1,5) by (simp add: locking_ok_parts)
qed

lemma locking_ok_give_back:
  assumes "locking_ok s" and "i < length (lk_claims s)" and "lk_claims s ! i = c" and "cl_phase c = Unlocked"
  shows "locking_ok (s\<lparr>lk_table := release_lock_ref (cl_key c) (lk_table s),
       lk_claims := (lk_claims s)[i := c\<lparr>cl_phase := Over\<rparr>]\<rparr>)"
proof -
  let ?k = "cl_key c" and ?cs = "(lk_claims s)[i := c\<lparr>cl_phase := Over\<rparr>]"
  from assms(1) have ok: "table_ok (lk_table s)" "refs_counted s" "ids_agree s" "shared_or_single (lk_claims s)"
    "lk_taken s < 2 ^ 32" by (simp_all add: locking_ok_parts)
  have count: "cnt (uses_key k) ?cs + of_bool (?k = k) = cnt (uses_key k) (lk_claims s)" for k
    using uses_update [OF assms(2,3), of "c\<lparr>cl_phase := Over\<rparr>" k] assms(4) by simp
  note rel = release_count [OF ok(1), of ?k] release_ok [OF ok(1), of ?k]
  have "cnt (uses_key k) ?cs \<le> lock_count (release_lock_ref ?k (lk_table s)) k
      \<and> lock_count (release_lock_ref ?k (lk_table s)) k \<le> lk_taken s" for k
  proof -
    have "cnt (uses_key k) (lk_claims s) \<le> lock_count (lk_table s) k \<and> lock_count (lk_table s) k \<le> lk_taken s"
      using ok(2) by (simp add: refs_counted_def)
    then show ?thesis using count [of k] rel(1) by (cases "?k = k") auto
  qed
  moreover have "lock_id (release_lock_ref ?k (lk_table s)) (cl_key d) = Some (cl_id d)"
    if d: "d \<in> set ?cs" "cl_phase d \<noteq> Over" for d
  proof (rule release_id_kept [OF ok(1)])
    have "d \<in> set (lk_claims s)" using d by (auto dest!: set_update_subset_insert [THEN subsetD])
    then show "lock_id (lk_table s) (cl_key d) = Some (cl_id d)" using ok(3) d(2) by (simp add: ids_agree_def)
    show "cl_key d \<noteq> ?k \<or> 1 < lock_count (lk_table s) ?k"
    proof (cases "cl_key d = ?k")
      case True
      obtain n where n: "n < length ?cs" "?cs ! n = d" using d(1) by (metis in_set_conv_nth)
      have "0 < cnt (uses_key ?k) ?cs"
        using cnt_pos [OF n(1), of "uses_key ?k"] n(2) True d(2) by (simp add: uses_key_def)
      then have "1 < cnt (uses_key ?k) (lk_claims s)" using count [of ?k] by simp
      also have "\<dots> \<le> lock_count (lk_table s) ?k" using ok(2) by (simp add: refs_counted_def)
      finally show ?thesis by simp
    qed simp
  qed
  ultimately show ?thesis
    using rel(2) ok(5) shared_or_single_calm(1) [OF ok(4)]
    by (simp add: locking_ok_parts refs_counted_def ids_agree_def)
qed

lemma locking_ok_step: "lk_step s t \<Longrightarrow> locking_ok s \<Longrightarrow> locking_ok t"
proof (induction rule: lk_step.induct)
  case (take_ref s k m t w)
  then show ?case by (intro locking_ok_take)
next
  case (lock i s c)
  then have "shared_or_single (lk_claims s)" by (simp add: locking_ok_parts)
  then show ?case using lock by (intro locking_ok_move shared_or_single_lock) simp_all
next
  case (unlock i s c)
  then have "shared_or_single (lk_claims s)" by (simp add: locking_ok_parts)
  then show ?case using unlock by (intro locking_ok_move shared_or_single_calm) simp_all
next
  case (give_back i s c)
  then show ?case by (intro locking_ok_give_back)
next
  case (leak i s c)
  then have "shared_or_single (lk_claims s)" by (simp add: locking_ok_parts)
  then show ?case using leak by (intro locking_ok_move shared_or_single_calm) simp_all
qed

lemma locking_ok_start: "locking_ok no_locking"
  by (simp add: locking_ok_def no_locking_def cnt_def)

interpretation locking: invariant_of_steps "\<lambda>s. s = no_locking" lk_step locking_ok
  by unfold_locales (auto intro: locking_ok_start locking_ok_step)

section \<open>Properties\<close>

text \<open>The locks work for each path string. In every interleaving of any number of sessions,
  with references leaked or not, two sessions inside their critical sections for the same path
  string are both readers; and a path string in use keeps one and the same mutex, so that
  nobody can lock a fresh one beside it.\<close>

theorem writers_exclusive_per_path:
  assumes "lk_step\<^sup>*\<^sup>* no_locking s" and "i < length (lk_claims s)" and "j < length (lk_claims s)" and "i \<noteq> j"
    and "cl_phase (lk_claims s ! i) = Held" and "cl_phase (lk_claims s ! j) = Held"
    and "cl_key (lk_claims s ! i) = cl_key (lk_claims s ! j)"
  shows "\<not> cl_write (lk_claims s ! i) \<and> \<not> cl_write (lk_claims s ! j)
    \<and> cl_id (lk_claims s ! i) = cl_id (lk_claims s ! j)
    \<and> lock_id (lk_table s) (cl_key (lk_claims s ! i)) = Some (cl_id (lk_claims s ! i))"
proof -
  have ok: "locking_ok s" by (rule locking.inv_reachable [OF refl assms(1)])
  have id: "lock_id (lk_table s) (cl_key (lk_claims s ! n)) = Some (cl_id (lk_claims s ! n))"
    if "n < length (lk_claims s)" "cl_phase (lk_claims s ! n) = Held" for n
    using ok that unfolding locking_ok_parts ids_agree_def by auto
  have same: "cl_id (lk_claims s ! i) = cl_id (lk_claims s ! j)"
    using id [OF assms(2,5)] id [OF assms(3,6)] assms(7) by simp
  with ok assms(2-6) id [OF assms(2,5)] show ?thesis
    unfolding locking_ok_parts shared_or_single_def by blast
qed

text \<open>Two downloads of one file at a time.\<close>

lemma two_claims:
  assumes "j \<noteq> k \<or> \<not> v \<and> \<not> w"
  obtains s where "lk_step\<^sup>*\<^sup>* no_locking s" and "length (lk_claims s) = 2"
    and "cl_key (lk_claims s ! 0) = j" and "cl_key (lk_claims s ! 1) = k"
    and "cl_write (lk_claims s ! 0) = v" and "cl_write (lk_claims s ! 1) = w"
    and "cl_phase (lk_claims s ! 0) = Held" and "cl_phase (lk_claims s ! 1) = Held"
proof -
  obtain m t where a: "acquire_lock_ref j no_locks = (m, t)" by fastforce
  obtain n u where b: "acquire_lock_ref k t = (n, u)" by fastforce
  let ?c = "\<lparr>cl_key = j, cl_write = v, cl_id = m, cl_phase = Has_Ref\<rparr>"
  let ?d = "\<lparr>cl_key = k, cl_write = w, cl_id = n, cl_phase = Has_Ref\<rparr>"
  let ?s1 = "\<lparr>lk_table = t, lk_claims = [?c], lk_taken = 1\<rparr>"
  let ?s2 = "\<lparr>lk_table = u, lk_claims = [?c, ?d], lk_taken = 2\<rparr>"
  let ?s3 = "\<lparr>lk_table = u, lk_claims = [?c\<lparr>cl_phase := Held\<rparr>, ?d], lk_taken = 2\<rparr>"
  let ?s4 = "\<lparr>lk_table = u, lk_claims = [?c\<lparr>cl_phase := Held\<rparr>, ?d\<lparr>cl_phase := Held\<rparr>], lk_taken = 2\<rparr>"
  have t: "table_ok t" "lock_count t = (lock_count no_locks)(j := 1)"
    using refs.acq_count [OF table_ok_no_locks _ a] by simp_all
  have ids: "m = n \<Longrightarrow> j = k"
  proof -
    assume "m = n"
    have "table_ok u" using refs.acq_count [OF t(1) _ b] t(2) by simp
    moreover have "lock_id u j = Some m" using acquire_id_kept [OF b, of j m] acquire_id [OF a] by simp
    moreover have "lock_id u k = Some n" using acquire_id [OF b] by simp
    ultimately show "j = k" using \<open>m = n\<close> unfolding table_ok_def by blast
  qed
  have "lk_step no_locking ?s1" using take_ref [of no_locking j m t v] a by (simp add: no_locking_def)
  moreover have "lk_step ?s1 ?s2" using take_ref [of ?s1 k n u w] b by (simp add: numeral_2_eq_2 [symmetric] del: One_nat_def)
  moreover have "lk_step ?s2 ?s3" using lock [of 0 ?s2 ?c] by (simp add: mutex_free_def)
  moreover have "lk_step ?s3 ?s4" using lock [of 1 ?s3 ?d] assms ids by (auto simp: mutex_free_def)
  ultimately have "lk_step\<^sup>*\<^sup>* no_locking ?s4" by (meson converse_rtranclp_into_rtranclp rtranclp.rtrancl_refl)
  then show thesis by (rule that) simp_all
qed

theorem writers_exclusive_per_path_witness:
  "\<exists>s. lk_step\<^sup>*\<^sup>* no_locking s \<and> cl_id (lk_claims s ! 0) = cl_id (lk_claims s ! 1)
     \<and> cl_phase (lk_claims s ! 0) = Held \<and> cl_phase (lk_claims s ! 1) = Held"
proof -
  obtain s where s: "lk_step\<^sup>*\<^sup>* no_locking s" "length (lk_claims s) = 2"
      "cl_key (lk_claims s ! 0) = ''p''" "cl_key (lk_claims s ! 1) = ''p''"
      "cl_phase (lk_claims s ! 0) = Held" "cl_phase (lk_claims s ! 1) = Held"
    by (rule two_claims [of "''p''" "''p''" False False]) simp_all
  with writers_exclusive_per_path [OF s(1), of 0 1] show ?thesis by auto
qed

text \<open>C31: the key of a lock is the spelling of the path, and user names are free: the user
  \<open>bob/\<close> and the user \<open>bob\<close> reach the same file under two keys, and two sessions can be
  inside their writing sections for that one file at the same time.\<close>

theorem aliased_paths_not_excluded:
  "file_path ''bob/'' ''a'' \<noteq> file_path ''bob'' ''a''
   \<and> lexical_resolve (file_path ''bob/'' ''a'') = lexical_resolve (file_path ''bob'' ''a'')
   \<and> (\<exists>s. lk_step\<^sup>*\<^sup>* no_locking s
        \<and> cl_key (lk_claims s ! 0) = file_path ''bob/'' ''a'' \<and> cl_key (lk_claims s ! 1) = file_path ''bob'' ''a''
        \<and> cl_phase (lk_claims s ! 0) = Held \<and> cl_phase (lk_claims s ! 1) = Held
        \<and> cl_write (lk_claims s ! 0) \<and> cl_write (lk_claims s ! 1))"
proof -
  have ne: "file_path ''bob/'' ''a'' \<noteq> file_path ''bob'' ''a''" by code_simp
  have same: "lexical_resolve (file_path ''bob/'' ''a'') = lexical_resolve (file_path ''bob'' ''a'')" by code_simp
  obtain s where "lk_step\<^sup>*\<^sup>* no_locking s" "cl_key (lk_claims s ! 0) = file_path ''bob/'' ''a''"
      "cl_key (lk_claims s ! 1) = file_path ''bob'' ''a''" "cl_write (lk_claims s ! 0) = True"
      "cl_write (lk_claims s ! 1) = True" "cl_phase (lk_claims s ! 0) = Held" "cl_phase (lk_claims s ! 1) = Held"
    by (rule two_claims [of "file_path ''bob/'' ''a''" "file_path ''bob'' ''a''" True True]) (use ne in auto)
  with ne same show ?thesis by auto
qed

end
