(* ===== verification/Concurrent_Store.thy ===== *)
theory Concurrent_Store
  imports Lock_Protocol
begin

text \<open>
  Several sessions at work on the stored files at once. The operations of
  src/src/server/file_manager.cpp are cut into the steps between which other threads may run: asking the
  index, taking references, locking, opening, each turn of a transfer loop, each index update,
  unlocking, giving references back. Locks are those of theory \<open>Lock_Protocol\<close>; reads and writes go to
  the one shared disk and are not assumed to be atomic. Keys stand for different files (theory
  \<open>Lock_Protocol\<close> shows what happens when they do not), the disk works, and the network may fail at
  any moment. Requests with refused names and renames to the same name never get here.
\<close>

section \<open>Operations in progress\<close>

text \<open>What a session was asked to do; an upload comes with the bytes the client sends.\<close>

datatype work = Saving bytes bytes | Streaming bytes | Deleting bytes | Renaming bytes bytes

fun work_keys :: "work \<Rightarrow> bytes list" where
  "work_keys (Saving k p) = [k]"
| "work_keys (Streaming k) = [k]"
| "work_keys (Deleting k) = [k]"
| "work_keys (Renaming j k) = [j, k]"

fun writes :: "work \<Rightarrow> bool" where
  "writes (Streaming k) = False"
| "writes _ = True"

text \<open>
  Where an operation is, with the numbers of its claims. A download first asks the index, in two
  calls and without a lock. \<open>In_File\<close> has the position in the file; \<open>Changed\<close> has the disk changed and
  the index not yet; \<open>Adding\<close> has the size for \<open>add_file\<close>; \<open>Leaving\<close> has the claims still locked, those
  unlocked, and whether the references will be given back.
\<close>

datatype stage =
    Asking | Sizing | With_Refs "nat list" | In_Lock "nat list" | In_File "nat list" nat | Changed "nat list"
  | Adding "nat list" u64 | Leaving "nat list" "nat list" bool | At_End

record job =
  jb_work :: work
  jb_stage :: stage
  jb_sent :: bytes
  jb_size :: "u64 option"

definition new_job :: "work \<Rightarrow> job" where
  "new_job w = \<lparr>jb_work = w, jb_stage = (case w of Streaming k \<Rightarrow> Asking | _ \<Rightarrow> With_Refs []), jb_sent = [], jb_size = None\<rparr>"

text \<open>
  What becomes known of an operation when it takes effect. The last two are the answers a download gets from
  the index, before it has a lock: that there is no such file, or its size. The flag says whether
  nobody was just changing the file.
\<close>

datatype event =
    Stored bytes bytes | Broken bytes | Sent bytes bytes | Not_There bytes | Removed bytes
  | Moved bytes bytes | Not_Moved bytes bytes | Not_Indexed bytes bool | Announced bytes u64 bool

type_synonym file_map = "bytes \<Rightarrow> bytes option"
type_synonym size_map = "bytes \<Rightarrow> u64 option"

definition size_in :: "size_map \<Rightarrow> bytes \<Rightarrow> u64" where
  "size_in X k = (case X k of Some z \<Rightarrow> z | None \<Rightarrow> 0)"

text \<open>The steps an operation makes while it holds its locks, on files, index, its stage and what it sent.\<close>

inductive work_step :: "work \<Rightarrow> file_map \<times> size_map \<times> stage \<times> bytes \<Rightarrow> file_map \<times> size_map \<times> stage \<times> bytes
    \<Rightarrow> event list \<Rightarrow> bool" where
  open_out: "work_step (Saving k p) (F, X, In_Lock cs, out) (F(k \<mapsto> []), X, In_File cs 0, out) []"
| receive: "n < length p \<Longrightarrow> F k = Some c \<Longrightarrow> m = min TRANSFER_BUFFER_SIZE (length p - n) \<Longrightarrow>
     work_step (Saving k p) (F, X, In_File cs n, out) (F(k \<mapsto> c @ take m (drop n p)), X, In_File cs (n + m), out) []"
| cut_short: "n < length p \<Longrightarrow>
     work_step (Saving k p) (F, X, In_File cs n, out) (F(k := None), X, Leaving cs [] False, out) [Broken k]"
| close: "\<not> n < length p \<Longrightarrow>
     work_step (Saving k p) (F, X, In_File cs n, out) (F, X, Adding cs (word_of_nat (length p)), out) []"
| add_saved: "work_step (Saving k p) (F, X, Adding cs z, out) (F, X(k \<mapsto> z), Leaving cs [] True, out) [Stored k p]"
| open_in: "F k = Some c \<Longrightarrow> work_step (Streaming k) (F, X, In_Lock cs, out) (F, X, In_File cs 0, out) []"
| open_none: "F k = None \<Longrightarrow>
     work_step (Streaming k) (F, X, In_Lock cs, out) (F, X, Leaving cs [] True, out) [Not_There k]"
| stream: "F k = Some c \<Longrightarrow> b = take TRANSFER_BUFFER_SIZE (drop n c) \<Longrightarrow> length b = TRANSFER_BUFFER_SIZE \<Longrightarrow>
     work_step (Streaming k) (F, X, In_File cs n, out) (F, X, In_File cs (n + length b), out @ b) []"
| stream_last: "F k = Some c \<Longrightarrow> b = take TRANSFER_BUFFER_SIZE (drop n c) \<Longrightarrow> length b < TRANSFER_BUFFER_SIZE \<Longrightarrow>
     work_step (Streaming k) (F, X, In_File cs n, out) (F, X, Leaving cs [] False, out @ b) [Sent k (out @ b)]"
| send_failed: "F k = Some c \<Longrightarrow> n < length c \<Longrightarrow>
     work_step (Streaming k) (F, X, In_File cs n, out) (F, X, Leaving cs [] True, out) []"
| remove: "F k = Some c \<Longrightarrow> work_step (Deleting k) (F, X, In_Lock cs, out) (F(k := None), X, Changed cs, out) []"
| remove_none: "F k = None \<Longrightarrow>
     work_step (Deleting k) (F, X, In_Lock cs, out) (F, X, Leaving cs [] True, out) [Not_There k]"
| unindex: "work_step (Deleting k) (F, X, Changed cs, out) (F, X(k := None), Leaving cs [] True, out) [Removed k]"
| blocked: "F j = None \<or> F k \<noteq> None \<Longrightarrow>
     work_step (Renaming j k) (F, X, In_Lock cs, out) (F, X, Leaving cs [] True, out) [Not_Moved j k]"
| move: "F j = Some c \<Longrightarrow> F k = None \<Longrightarrow>
     work_step (Renaming j k) (F, X, In_Lock cs, out) (F(j := None, k \<mapsto> c), X, Changed cs, out) []"
| unindex_old: "work_step (Renaming j k) (F, X, Changed cs, out) (F, X(j := None), Adding cs (size_in X j), out) []"
| index_new: "work_step (Renaming j k) (F, X, Adding cs z, out) (F, X(k \<mapsto> z), Leaving cs [] True, out) [Moved j k]"


section \<open>All sessions together\<close>

text \<open>The keys whose files or index entries an operation has changed without having taken effect.\<close>

fun changing :: "work \<Rightarrow> stage \<Rightarrow> bytes set" where
  "changing (Saving k p) (In_File cs n) = {k}"
| "changing (Saving k p) (Adding cs z) = {k}"
| "changing (Deleting k) (Changed cs) = {k}"
| "changing (Renaming j k) (Changed cs) = {j, k}"
| "changing (Renaming j k) (Adding cs z) = {j, k}"
| "changing w st = {}"

definition settled :: "job list \<Rightarrow> bytes \<Rightarrow> bool" where
  "settled js k \<longleftrightarrow> (\<forall>jb\<in>set js. k \<notin> changing (jb_work jb) (jb_stage jb))"

record shared =
  cs_lock :: locking
  cs_files :: file_map
  cs_index :: size_map
  cs_jobs :: "job list"
  cs_history :: "event list"

definition quiet :: "file_map \<Rightarrow> size_map \<Rightarrow> shared" where
  "quiet F X = \<lparr>cs_lock = no_locking, cs_files = F, cs_index = X, cs_jobs = [], cs_history = []\<rparr>"

definition put_job :: "nat \<Rightarrow> job \<Rightarrow> shared \<Rightarrow> shared" where
  "put_job i jb s = s\<lparr>cs_jobs := (cs_jobs s)[i := jb]\<rparr>"

definition mark :: "phase \<Rightarrow> nat list \<Rightarrow> claim list \<Rightarrow> claim list" where
  "mark p cs xs = map (\<lambda>c. if c \<in> set cs then (xs ! c)\<lparr>cl_phase := p\<rparr> else xs ! c) [0..<length xs]"

definition set_phase :: "phase \<Rightarrow> nat list \<Rightarrow> locking \<Rightarrow> locking" where
  "set_phase p cs l = l\<lparr>lk_claims := mark p cs (lk_claims l)\<rparr>"

definition all_free :: "locking \<Rightarrow> nat list \<Rightarrow> bool" where
  "all_free l cs \<longleftrightarrow> (\<forall>c\<in>set cs. mutex_free (lk_claims l) (cl_id (lk_claims l ! c)) (cl_write (lk_claims l ! c)))"

text \<open>
  \<open>std::lock\<close> returns when it has both mutexes; what it tries on the way is not kept, so a rename
  locks its two files in one step.
\<close>

inductive cs_step :: "shared \<Rightarrow> shared \<Rightarrow> bool" where
  arrive: "distinct (work_keys w) \<Longrightarrow> cs_step s (s\<lparr>cs_jobs := cs_jobs s @ [new_job w]\<rparr>)"
| not_found: "i < length (cs_jobs s) \<Longrightarrow> cs_jobs s ! i = jb \<Longrightarrow> jb_stage jb = Asking \<Longrightarrow> jb_work jb = Streaming k \<Longrightarrow>
     cs_index s k = None \<Longrightarrow> cs_step s (put_job i (jb\<lparr>jb_stage := At_End\<rparr>)
       (s\<lparr>cs_history := cs_history s @ [Not_Indexed k (settled (cs_jobs s) k)]\<rparr>))"
| found: "i < length (cs_jobs s) \<Longrightarrow> cs_jobs s ! i = jb \<Longrightarrow> jb_stage jb = Asking \<Longrightarrow> jb_work jb = Streaming k \<Longrightarrow>
     cs_index s k \<noteq> None \<Longrightarrow> cs_step s (put_job i (jb\<lparr>jb_stage := Sizing\<rparr>) s)"
| sized: "i < length (cs_jobs s) \<Longrightarrow> cs_jobs s ! i = jb \<Longrightarrow> jb_stage jb = Sizing \<Longrightarrow> jb_work jb = Streaming k \<Longrightarrow>
     z = size_in (cs_index s) k \<Longrightarrow> cs_step s (put_job i (jb\<lparr>jb_stage := With_Refs [], jb_size := Some z\<rparr>)
       (s\<lparr>cs_history := cs_history s @ [Announced k z (settled (cs_jobs s) k)]\<rparr>))"
| take: "i < length (cs_jobs s) \<Longrightarrow> cs_jobs s ! i = jb \<Longrightarrow> jb_stage jb = With_Refs cs \<Longrightarrow>
     length cs < length (work_keys (jb_work jb)) \<Longrightarrow> k = work_keys (jb_work jb) ! length cs \<Longrightarrow> l = cs_lock s \<Longrightarrow>
     lk_taken l < 2 ^ 32 - 1 \<Longrightarrow> acquire_lock_ref k (lk_table l) = (m, t) \<Longrightarrow>
     cs_step s (put_job i (jb\<lparr>jb_stage := With_Refs (cs @ [length (lk_claims l)])\<rparr>)
       (s\<lparr>cs_lock := l\<lparr>lk_table := t, lk_taken := Suc (lk_taken l), lk_claims := lk_claims l @
          [\<lparr>cl_key = k, cl_write = writes (jb_work jb), cl_id = m, cl_phase = Has_Ref\<rparr>]\<rparr>\<rparr>))"
| lock: "i < length (cs_jobs s) \<Longrightarrow> cs_jobs s ! i = jb \<Longrightarrow> jb_stage jb = With_Refs cs \<Longrightarrow>
     length cs = length (work_keys (jb_work jb)) \<Longrightarrow> all_free (cs_lock s) cs \<Longrightarrow>
     cs_step s (put_job i (jb\<lparr>jb_stage := In_Lock cs\<rparr>) (s\<lparr>cs_lock := set_phase Held cs (cs_lock s)\<rparr>))"
| work: "i < length (cs_jobs s) \<Longrightarrow> cs_jobs s ! i = jb \<Longrightarrow>
     work_step (jb_work jb) (cs_files s, cs_index s, jb_stage jb, jb_sent jb) (F, X, st, out) es \<Longrightarrow>
     cs_step s (put_job i (jb\<lparr>jb_stage := st, jb_sent := out\<rparr>)
       (s\<lparr>cs_files := F, cs_index := X, cs_history := cs_history s @ es\<rparr>))"
| unlock: "i < length (cs_jobs s) \<Longrightarrow> cs_jobs s ! i = jb \<Longrightarrow> jb_stage jb = Leaving (c # hs) us b \<Longrightarrow>
     cs_step s (put_job i (jb\<lparr>jb_stage := Leaving hs (us @ [c]) b\<rparr>) (s\<lparr>cs_lock := set_phase Unlocked [c] (cs_lock s)\<rparr>))"
| give_back: "i < length (cs_jobs s) \<Longrightarrow> cs_jobs s ! i = jb \<Longrightarrow> jb_stage jb = Leaving [] (c # us) True \<Longrightarrow> l = cs_lock s \<Longrightarrow>
     cs_step s (put_job i (jb\<lparr>jb_stage := Leaving [] us True\<rparr>)
       (s\<lparr>cs_lock := set_phase Over [c] (l\<lparr>lk_table := release_lock_ref (cl_key (lk_claims l ! c)) (lk_table l)\<rparr>)\<rparr>))"
| leak: "i < length (cs_jobs s) \<Longrightarrow> cs_jobs s ! i = jb \<Longrightarrow> jb_stage jb = Leaving [] (c # us) False \<Longrightarrow>
     cs_step s (put_job i (jb\<lparr>jb_stage := Leaving [] us False\<rparr>) (s\<lparr>cs_lock := set_phase Over [c] (cs_lock s)\<rparr>))"
| finish: "i < length (cs_jobs s) \<Longrightarrow> cs_jobs s ! i = jb \<Longrightarrow> jb_stage jb = Leaving [] [] b \<Longrightarrow>
     cs_step s (put_job i (jb\<lparr>jb_stage := At_End\<rparr>) s)"

section \<open>Who holds which claims\<close>




definition keys_at :: "locking \<Rightarrow> nat list \<Rightarrow> bytes list" where
  "keys_at l cs = map (\<lambda>c. cl_key (lk_claims l ! c)) cs"







lemma mark_simps [simp]:
  "length (mark p cs xs) = length xs"
  "c < length xs \<Longrightarrow> mark p cs xs ! c = (if c \<in> set cs then (xs ! c)\<lparr>cl_phase := p\<rparr> else xs ! c)"
  by (simp_all add: mark_def)

lemma set_phase_simps [simp]:
  "lk_claims (set_phase p cs l) = mark p cs (lk_claims l)"
  "lk_table (set_phase p cs l) = lk_table l"
  "lk_taken (set_phase p cs l) = lk_taken l"
  by (simp_all add: set_phase_def)

lemma mark_one: "c < length xs \<Longrightarrow> mark p [c] xs = xs[c := (xs ! c)\<lparr>cl_phase := p\<rparr>]"
  by (rule nth_equalityI) auto





section \<open>The locks of all sessions follow the lock protocol\<close>







lemma take_Suc_keys: "keys_at l cs = List.take (length cs) ks \<Longrightarrow> length cs < length ks \<Longrightarrow>
    keys_at l cs @ [ks ! length cs] = List.take (Suc (length cs)) ks"
  by (simp add: take_Suc_conv_app_nth)













section \<open>What the operations do to the files, one after the other\<close>













section \<open>The invariant\<close>








lemma changing_idle [simp]:
  "changing w (With_Refs cs) = {}" "changing w (In_Lock cs) = {}" "changing w Asking = {}" "changing w Sizing = {}"
  "changing w (Leaving hs us b) = {}" "changing w At_End = {}"
  by (cases w; simp)+







section \<open>Properties\<close>






section \<open>A download overtaken by an upload\<close>

text \<open>The steps once more, with the job written out, to be run from left to right.\<close>

lemma run_work:
  assumes "work_step w (cs_files s, cs_index s, st, out) (F', X', st', out') es" and "i < length (cs_jobs s)"
    and "cs_jobs s ! i = \<lparr>jb_work = w, jb_stage = st, jb_sent = out, jb_size = z\<rparr>"
    and "cs_step\<^sup>*\<^sup>* (s\<lparr>cs_files := F', cs_index := X', cs_history := cs_history s @ es,
           cs_jobs := (cs_jobs s)[i := \<lparr>jb_work = w, jb_stage = st', jb_sent = out', jb_size = z\<rparr>]\<rparr>) t"
  shows "cs_step\<^sup>*\<^sup>* s t"
  by (rule converse_rtranclp_into_rtranclp [OF _ assms(4)])
    (use cs_step.work [OF assms(2,3), of F' X' st' out' es] assms(1) in \<open>simp add: put_job_def\<close>)

lemma run_take:
  assumes "i < length (cs_jobs s)" and "cs_jobs s ! i = \<lparr>jb_work = w, jb_stage = With_Refs cs, jb_sent = out, jb_size = z\<rparr>"
    and "length cs < length (work_keys w)" and "k = work_keys w ! length cs"
    and "lk_taken (cs_lock s) < 2 ^ 32 - 1" and "acquire_lock_ref k (lk_table (cs_lock s)) = (m, u)"
    and "cs_step\<^sup>*\<^sup>* (s\<lparr>cs_lock := (cs_lock s)\<lparr>lk_table := u, lk_taken := Suc (lk_taken (cs_lock s)),
             lk_claims := lk_claims (cs_lock s) @ [\<lparr>cl_key = k, cl_write = writes w, cl_id = m, cl_phase = Has_Ref\<rparr>]\<rparr>,
           cs_jobs := (cs_jobs s)[i := \<lparr>jb_work = w, jb_stage = With_Refs (cs @ [length (lk_claims (cs_lock s))]), jb_sent = out, jb_size = z\<rparr>]\<rparr>) t"
  shows "cs_step\<^sup>*\<^sup>* s t"
proof (rule converse_rtranclp_into_rtranclp [OF _ assms(7)])
  let ?jb = "\<lparr>jb_work = w, jb_stage = With_Refs cs, jb_sent = out, jb_size = z\<rparr>"
  have keys: "length cs < length (work_keys (jb_work ?jb))" "k = work_keys (jb_work ?jb) ! length cs" using assms(3,4) by simp_all
  note cs_step.take [OF assms(1,2) job.select_convs(2) keys refl assms(5,6)]
  then show "cs_step s (s\<lparr>cs_lock := (cs_lock s)\<lparr>lk_table := u, lk_taken := Suc (lk_taken (cs_lock s)),
             lk_claims := lk_claims (cs_lock s) @ [\<lparr>cl_key = k, cl_write = writes w, cl_id = m, cl_phase = Has_Ref\<rparr>]\<rparr>,
           cs_jobs := (cs_jobs s)[i := \<lparr>jb_work = w, jb_stage = With_Refs (cs @ [length (lk_claims (cs_lock s))]), jb_sent = out, jb_size = z\<rparr>]\<rparr>)"
    by (simp add: put_job_def)
qed

lemma run_lock:
  assumes "i < length (cs_jobs s)" and "cs_jobs s ! i = \<lparr>jb_work = w, jb_stage = With_Refs cs, jb_sent = out, jb_size = z\<rparr>"
    and "length cs = length (work_keys w)" and "all_free (cs_lock s) cs"
    and "cs_step\<^sup>*\<^sup>* (s\<lparr>cs_lock := (cs_lock s)\<lparr>lk_claims := mark Held cs (lk_claims (cs_lock s))\<rparr>,
           cs_jobs := (cs_jobs s)[i := \<lparr>jb_work = w, jb_stage = In_Lock cs, jb_sent = out, jb_size = z\<rparr>]\<rparr>) t"
  shows "cs_step\<^sup>*\<^sup>* s t"
  by (rule converse_rtranclp_into_rtranclp [OF _ assms(5)])
    (use cs_step.lock [OF assms(1,2), of cs] assms(3,4) in \<open>simp add: put_job_def set_phase_def\<close>)


lemma run_leave:
  assumes "i < length (cs_jobs s)" and "cs_jobs s ! i = \<lparr>jb_work = w, jb_stage = Leaving [c] [] True, jb_sent = out, jb_size = z\<rparr>"
    and "c < length (lk_claims (cs_lock s))"
    and "cs_step\<^sup>*\<^sup>* (s\<lparr>cs_lock := (cs_lock s)\<lparr>lk_table := release_lock_ref (cl_key (lk_claims (cs_lock s) ! c)) (lk_table (cs_lock s)),
             lk_claims := (lk_claims (cs_lock s))[c := (lk_claims (cs_lock s) ! c)\<lparr>cl_phase := Over\<rparr>]\<rparr>,
           cs_jobs := (cs_jobs s)[i := \<lparr>jb_work = w, jb_stage = Leaving [] [] True, jb_sent = out, jb_size = z\<rparr>]\<rparr>) t"
  shows "cs_step\<^sup>*\<^sup>* s t"
proof -
  let ?jb = "\<lparr>jb_work = w, jb_stage = Leaving [] [c] True, jb_sent = out, jb_size = z\<rparr>"
  let ?l = "(cs_lock s)\<lparr>lk_claims := (lk_claims (cs_lock s))[c := (lk_claims (cs_lock s) ! c)\<lparr>cl_phase := Unlocked\<rparr>]\<rparr>"
  let ?s = "s\<lparr>cs_lock := ?l, cs_jobs := (cs_jobs s)[i := ?jb]\<rparr>"
  have "cs_step s ?s"
    using cs_step.unlock [OF assms(1,2), of c "[]" "[]" True] mark_one [OF assms(3), of Unlocked] by (simp add: put_job_def set_phase_def)
  moreover have "cs_step\<^sup>*\<^sup>* ?s t"
    by (rule converse_rtranclp_into_rtranclp [OF _ assms(4)])
      (use cs_step.give_back [of i ?s ?jb c "[]" ?l] assms(1,3) mark_one [of c "lk_claims ?l" Over] in
        \<open>simp add: put_job_def set_phase_def\<close>)
  ultimately show ?thesis by (rule converse_rtranclp_into_rtranclp)
qed

lemmas run_simps = all_free_def mutex_free_def mark_def numeral_2_eq_2 TRANSFER_BUFFER_SIZE_def

text \<open>
  A file is downloaded; after its size was asked for and before it is locked, another session stores
  something else under its name.
\<close>

lemma overtaken:
  fixes c p :: bytes and k :: bytes
  assumes "0 < length p" and "length p < TRANSFER_BUFFER_SIZE"
  obtains s where "cs_step\<^sup>*\<^sup>* (quiet [k \<mapsto> c] [k \<mapsto> word_of_nat (length c)]) s"
    and "cs_history s = [Announced k (word_of_nat (length c)) True, Stored k p, Sent k p]"
    and "cs_jobs s = [\<lparr>jb_work = Streaming k, jb_stage = Leaving [1] [] False, jb_sent = p, jb_size = Some (word_of_nat (length c))\<rparr>,
        \<lparr>jb_work = Saving k p, jb_stage = Leaving [] [] True, jb_sent = [], jb_size = None\<rparr>]"
    and "cs_files s = [k \<mapsto> p]" and "lk_taken (cs_lock s) = 2"
proof -
  let ?z = "Some (word_of_nat (length c)) :: u64 option"
  let ?D = "\<lambda>st out z. \<lparr>jb_work = Streaming k, jb_stage = st, jb_sent = out, jb_size = z\<rparr>"
  let ?q = "quiet [k \<mapsto> c] [k \<mapsto> word_of_nat (length c)]" and ?U = "new_job (Saving k p)"
  have len: "p \<noteq> []" "min 8192 (length p) = length p" "List.take 8192 p = p" "length p < 8192"
    using assms by (auto simp: TRANSFER_BUFFER_SIZE_def)
  obtain m t where a: "acquire_lock_ref k no_locks = (m, t)" by fastforce
  obtain n u where b: "acquire_lock_ref k (release_lock_ref k t) = (n, u)" by fastforce
  have 1: "cs_step ?q (?q\<lparr>cs_jobs := [?D Asking [] None]\<rparr>)"
    using arrive [of "Streaming k" ?q] by (simp add: quiet_def new_job_def)
  have 2: "cs_step (?q\<lparr>cs_jobs := [?D Asking [] None]\<rparr>) (?q\<lparr>cs_jobs := [?D Sizing [] None]\<rparr>)"
    using found [of 0 "?q\<lparr>cs_jobs := [?D Asking [] None]\<rparr>" _ k] by (simp add: quiet_def put_job_def)
  let ?a = "?q\<lparr>cs_history := [Announced k (word_of_nat (length c)) True]\<rparr>"
  have 3: "cs_step (?q\<lparr>cs_jobs := [?D Sizing [] None]\<rparr>) (?a\<lparr>cs_jobs := [?D (With_Refs []) [] ?z]\<rparr>)"
    using sized [of 0 "?q\<lparr>cs_jobs := [?D Sizing [] None]\<rparr>" "?D Sizing [] None" k "word_of_nat (length c)"] by (simp add: quiet_def put_job_def size_in_def settled_def)
  have 4: "cs_step (?a\<lparr>cs_jobs := [?D (With_Refs []) [] ?z]\<rparr>) (?a\<lparr>cs_jobs := [?D (With_Refs []) [] ?z, ?U]\<rparr>)"
    using arrive [of "Saving k p" "?a\<lparr>cs_jobs := [?D (With_Refs []) [] ?z]\<rparr>"] by (simp add: quiet_def)
  let ?c = "\<lparr>cl_key = k, cl_write = True, cl_id = m, cl_phase = Over\<rparr>"
  let ?d = "\<lparr>cl_key = k, cl_write = False, cl_id = n, cl_phase = Held\<rparr>"
  let ?r = "\<lparr>cs_lock = \<lparr>lk_table = u, lk_claims = [?c, ?d], lk_taken = 2\<rparr>, cs_files = [k \<mapsto> p], cs_index = [k \<mapsto> word_of_nat (length p)],
      cs_jobs = [?D (Leaving [1] [] False) p ?z, ?U\<lparr>jb_stage := Leaving [] [] True\<rparr>],
      cs_history = [Announced k (word_of_nat (length c)) True, Stored k p, Sent k p]\<rparr>"
  have "cs_step\<^sup>*\<^sup>* (?a\<lparr>cs_jobs := [?D (With_Refs []) [] ?z, ?U]\<rparr>) ?r"
    unfolding quiet_def new_job_def no_locking_def
    apply (rule run_take [where i = 1 and z = None and out = "[]" and cs = "[]" and k = k and w = "Saving k p" and m = m and u = t]; simp add: a)
    apply (rule run_lock [where i = 1 and z = None and out = "[]" and cs = "[0]" and w = "Saving k p"]; simp add: run_simps len)
    apply (rule run_work [OF open_out [of k p _ _ "[0]" "[]"], where i = 1 and z = None]; simp)
    apply (rule run_work [OF receive [of 0 p _ k "[]" "length p" _ "[0]" "[]"], where i = 1 and z = None]; simp add: run_simps len)
    apply (rule run_work [OF close [of "length p" p k _ _ "[0]" "[]"], where i = 1 and z = None]; simp)
    apply (rule run_work [OF add_saved [of k p _ _ "[0]" "word_of_nat (length p)" "[]"], where i = 1 and z = None]; simp)
    apply (rule run_leave [where i = 1 and z = None and out = "[]" and c = 0 and w = "Saving k p"]; simp)
    apply (rule run_take [where i = 0 and z = ?z and out = "[]" and cs = "[]" and k = k and w = "Streaming k" and m = n and u = u]; simp add: b)
    apply (rule run_lock [where i = 0 and z = ?z and out = "[]" and cs = "[1]" and w = "Streaming k"]; simp add: run_simps len)
    apply (rule run_work [OF open_in [of _ k p _ "[1]" "[]"], where i = 0 and z = ?z]; simp)
    apply (rule run_work [OF stream_last [of _ k p p 0 _ "[1]" "[]"], where i = 0 and z = ?z]; simp add: run_simps len)
    done
  with 1 2 3 4 have "cs_step\<^sup>*\<^sup>* ?q ?r" by (meson converse_rtranclp_into_rtranclp)
  then show thesis by (rule that) (simp_all add: new_job_def)
qed




text \<open>The size a download announces may belong to another version of the file. The index is asked
  before the lock is taken, so another session can store a file of any other length in between: the
  header then announces the length of the old version and the bytes sent are those of the new one.\<close>

theorem announced_size_overtaken:
  assumes "0 < length p" and "length p < TRANSFER_BUFFER_SIZE" and "length c < 2 ^ 64" and "length c \<noteq> length p"
  shows "\<exists>s. cs_step\<^sup>*\<^sup>* (quiet [k \<mapsto> c] [k \<mapsto> word_of_nat (length c)]) s
    \<and> (\<exists>jb\<in>set (cs_jobs s). jb_work jb = Streaming k \<and> (\<exists>z. jb_size jb = Some z \<and> unat z = length c)
         \<and> jb_sent jb = p \<and> Sent k p \<in> set (cs_history s) \<and> jb_sent jb \<noteq> c)"
proof -
  obtain s where s: "cs_step\<^sup>*\<^sup>* (quiet [k \<mapsto> c] [k \<mapsto> word_of_nat (length c)]) s" "cs_history s = [Announced k (word_of_nat (length c)) True, Stored k p, Sent k p]"
      "cs_jobs s = [\<lparr>jb_work = Streaming k, jb_stage = Leaving [1] [] False, jb_sent = p, jb_size = Some (word_of_nat (length c))\<rparr>,
          \<lparr>jb_work = Saving k p, jb_stage = Leaving [] [] True, jb_sent = [], jb_size = None\<rparr>]"
    by (rule overtaken [OF assms(1,2), of k c]) simp
  have "unat (word_of_nat (length c) :: u64) = length c" using assms(3) by (simp add: unat_of_nat)
  with s assms(4) show ?thesis by (intro exI [of _ s]) auto
qed

theorem announced_size_overtaken_witness:
  "\<exists>s. cs_step\<^sup>*\<^sup>* (quiet [''a'' \<mapsto> ''xyz''] [''a'' \<mapsto> 3]) s \<and> (\<exists>jb\<in>set (cs_jobs s). jb_sent jb = ''hello'')"
  using announced_size_overtaken [of "''hello''" "''xyz''" "''a''"] by (fastforce simp: TRANSFER_BUFFER_SIZE_def)

end
