(* ===== verification/File_Store.thy ===== *)
theory File_Store
  imports Paths
begin

text \<open>
  What the file operations of theory \<open>File_Manager\<close> promise. Each operation is characterised on
  its success path and on its failure paths by what it does to the disk, the index, the lock
  table and the client's stream; the operations are then shown to implement a plain map from
  (user, file name) to contents, with the index in step with the disk.
\<close>

section \<open>Frames\<close>

lemmas world_defs = set_fs_def index_add_def index_remove_def lock_ref_def unlock_ref_def

lemma world_simps [simp]:
  "w_fs (set_fs f w) = f" "w_fs (index_add d n sz w) = w_fs w" "w_fs (index_remove d n w) = w_fs w"
  "w_fs (lock_ref k w) = w_fs w" "w_fs (unlock_ref k w) = w_fs w"
  "w_index (set_fs f w) = w_index w" "w_index (lock_ref k w) = w_index w" "w_index (unlock_ref k w) = w_index w"
  "w_index (index_add d n sz w) = add_file (w_index w) d n sz (w_clock w (w_time w))"
  "w_index (index_remove d n w) = remove_file (w_index w) d n"
  "w_locks (set_fs f w) = w_locks w" "w_locks (index_add d n sz w) = w_locks w"
  "w_locks (index_remove d n w) = w_locks w"
  "w_locks (lock_ref k w) = snd (acquire_lock_ref k (w_locks w))"
  "w_locks (unlock_ref k w) = release_lock_ref k (w_locks w)"
  by (simp_all add: world_defs)

lemma world_time_simps [simp]:
  "w_time (set_fs f w) = w_time w" "w_time (lock_ref k w) = w_time w" "w_time (unlock_ref k w) = w_time w"
  "w_time (index_remove d n w) = w_time w" "w_time (index_add d n sz w) = Suc (w_time w)"
  by (simp_all add: world_defs)

text \<open>What no operation changes: the choices of the environment.\<close>

definition env_of :: "world \<Rightarrow> (nat \<Rightarrow> bytes) \<times> (nat \<Rightarrow> bool) \<times> bool" where
  "env_of w = (w_clock w, w_alloc w, w_be w)"

lemma env_simps [simp]:
  "env_of (set_fs f w) = env_of w" "env_of (lock_ref k w) = env_of w" "env_of (unlock_ref k w) = env_of w"
  "env_of (index_remove d n w) = env_of w" "env_of (index_add d n sz w) = env_of w"
  by (simp_all add: env_of_def world_defs)

lemma clock_simps [simp]:
  "w_clock (set_fs f w) = w_clock w" "w_clock (lock_ref k w) = w_clock w" "w_clock (unlock_ref k w) = w_clock w"
  "w_clock (index_remove d n w) = w_clock w" "w_clock (index_add d n sz w) = w_clock w"
  by (simp_all add: world_defs)

lemma save_loop_reads: "only_reads s (snd (snd (save_loop h n f s)))"
proof (induction h n f s rule: save_loop.induct)
  case (1 h n f s)
  obtain r t where r: "recv_all s (min TRANSFER_BUFFER_SIZE n) = (r, t)" by fastforce
  note reads = recv_all_reads [OF r]
  show ?case
  proof (cases "0 < n \<and> r \<noteq> None")
    case False
    with r reads show ?thesis by (subst save_loop.simps) (auto simp: Let_def)
  next
    case True
    then obtain bs where bs: "r = Some bs" by blast
    obtain h' g where w: "ofstream_write f h bs = (h', g)" by fastforce
    have "only_reads t (snd (snd (save_loop h' (n - min TRANSFER_BUFFER_SIZE n) g t)))"
      using "1.IH" [OF _ refl r [symmetric] bs w [symmetric]] True by simp
    with True r bs w reads show ?thesis
      by (subst save_loop.simps) (auto simp: Let_def intro: only_reads_trans)
  qed
qed

lemma save_loop_env: "fs_env (fst (snd (save_loop h n f s))) = fs_env f"
proof (induction h n f s rule: save_loop.induct)
  case (1 h n f s)
  obtain r t where r: "recv_all s (min TRANSFER_BUFFER_SIZE n) = (r, t)" by fastforce
  show ?case
  proof (cases "0 < n \<and> r \<noteq> None")
    case False
    with r show ?thesis by (subst save_loop.simps) (auto simp: Let_def)
  next
    case True
    then obtain bs where bs: "r = Some bs" by blast
    obtain h' g where w: "ofstream_write f h bs = (h', g)" by fastforce
    have "fs_env (fst (snd (save_loop h' (n - min TRANSFER_BUFFER_SIZE n) g t))) = fs_env g"
      using "1.IH" [OF _ refl r [symmetric] bs w [symmetric]] True by simp
    with True r bs w fs_env_ops(5) [OF w] show ?thesis
      by (subst save_loop.simps) (simp add: Let_def)
  qed
qed

lemma save_file_reads: "only_reads s (snd (snd (save_file u n sz w s)))"
proof -
  have body: "only_reads s (snd (snd (save_body u n sz v s)))" for v
    using save_loop_reads [of s]
    by (auto simp: save_body_def Let_def discard_data_reads split: prod.splits option.splits bool.splits result.splits)
       (metis snd_conv)+
  have "only_reads s (snd (snd (save_try u n sz w s)))"
    unfolding save_try_def
    using body by (auto simp: Let_def discard_data_reads split: prod.splits result.splits)
  then show ?thesis
    by (auto simp: save_file_def split: prod.splits result.splits intro: only_reads_trans discard_data_reads)
qed

section \<open>Places\<close>

text \<open>
  Where a user's file is. \<open>entry_of f u n\<close> says that the path the code builds for the file names
  an entry of the user's directory, as it does for an ordinary name; theory \<open>Paths\<close> says which
  names are ordinary.
\<close>

definition file_at :: "filesys \<Rightarrow> bytes \<Rightarrow> bytes \<Rightarrow> loc" where
  "file_at f u n = fs_resolve f (file_path u n)"

definition home_at :: "filesys \<Rightarrow> bytes \<Rightarrow> loc" where
  "home_at f u = fs_resolve f (user_path u)"

definition entry_of :: "filesys \<Rightarrow> bytes \<Rightarrow> bytes \<Rightarrow> bool" where
  "entry_of f u n \<longleftrightarrow> file_at f u n \<noteq> [] \<and> butlast (file_at f u n) = home_at f u"

lemma places_env:
  "fs_env g = fs_env f \<Longrightarrow> file_at g = file_at f \<and> home_at g = home_at f \<and> entry_of g = entry_of f"
  by (simp add: file_at_def home_at_def entry_of_def fs_env_def fun_eq_iff)

lemma entry_not_above: "entry_of f u n \<Longrightarrow> \<not> prefix (file_at f u n) (home_at f u)"
  unfolding entry_of_def by (metis length_append_singleton append_butlast_last_id not_less_eq_eq prefix_length_le order_refl)

text \<open>A key that has room for one more reference, and nothing wrong in the table.\<close>

definition lockable :: "world \<Rightarrow> bytes \<Rightarrow> bool" where
  "lockable w k \<longleftrightarrow> table_ok (w_locks w) \<and> lock_count (w_locks w) k < 2 ^ 32 - 1"

definition locks_kept :: "world \<Rightarrow> world \<Rightarrow> bool" where
  "locks_kept w v \<longleftrightarrow> lock_count (w_locks v) = lock_count (w_locks w) \<and> table_ok (w_locks v)"

definition lock_leaked :: "bytes \<Rightarrow> world \<Rightarrow> world \<Rightarrow> bool" where
  "lock_leaked k w v \<longleftrightarrow>
     lock_count (w_locks v) = (lock_count (w_locks w))(k := Suc (lock_count (w_locks w) k)) \<and> table_ok (w_locks v)"

lemma lock_then_unlock:
  assumes "lockable w k" and "w_locks v = release_lock_ref k (snd (acquire_lock_ref k (w_locks w)))"
  shows "locks_kept w v"
  using refs.balanced [of "w_locks w" k, OF _ _ surjective_pairing] assms
  by (simp add: lockable_def locks_kept_def)

lemma lock_without_unlock:
  assumes "lockable w k" and "w_locks v = snd (acquire_lock_ref k (w_locks w))"
  shows "lock_leaked k w v"
  using refs.acq_count [of "w_locks w" k, OF _ _ surjective_pairing] assms
  by (simp add: lockable_def lock_leaked_def)

lemma locks_kept_refl: "lockable w k \<Longrightarrow> w_locks v = w_locks w \<Longrightarrow> locks_kept w v"
  by (simp add: lockable_def locks_kept_def)

section \<open>Uploads\<close>

text \<open>Opening the file of an upload.\<close>

lemma open_for_writing:
  assumes "healthy f" and "fs_resolve f p \<noteq> []" and "fs_is_dir f (butlast (fs_resolve f p))"
    and "fs_at f (fs_resolve f p) \<noteq> Some Dir"
  obtains g where "ofstream_open f p = (Some \<lparr>of_loc = fs_resolve f p, of_good = True\<rparr>, g)"
    and "fs_env g = fs_env f" and "fs_at g = (fs_at f)(fs_resolve f p \<mapsto> File [])"
  using assms that [of "fs_put (f\<lparr>fs_calls := Suc (fs_calls f)\<rparr>) (fs_resolve f p) (File [])"]
  by (simp add: ofstream_open_def Let_def)

text \<open>The disk is ready to take the file: no errors, and nothing in the way of the path.\<close>

definition can_store :: "filesys \<Rightarrow> bytes \<Rightarrow> bytes \<Rightarrow> bool" where
  "can_store f u n \<longleftrightarrow> healthy f \<and> disk_ok f \<and> entry_of f u n \<and> way_clear f (home_at f u)
     \<and> fs_at f (file_at f u n) \<noteq> Some Dir"

text \<open>The user's directory exists after the first lines of \<open>save_file\<close>.\<close>

lemma save_try_enter:
  assumes "healthy f" and "disk_ok f" and "way_clear f (home_at f u)" and "w_fs w = f"
  obtains g where "fs_env g = fs_env f" and "fs_at g = with_dirs (fs_at f) (home_at f u)" and "disk_ok g"
    and "\<And>n sz s. save_try u n sz w s =
      (if is_valid_filename n then save_body u n sz (set_fs g w) s
       else (Value False, set_fs g w, discard_data s (unat sz)))"
proof (cases "fs_find f (user_path u)")
  case None
  let ?f = "f\<lparr>fs_calls := Suc (fs_calls f)\<rparr>"
  obtain g where g: "fs_create_directories ?f (user_path u) = (Value (), g)" "fs_env g = fs_env ?f"
      "fs_at g = with_dirs (fs_at f) (home_at f u)"
    using create_directories_clear [of ?f "user_path u"] assms by (auto simp: home_at_def way_clear_def)
  have "disk_ok g" using disk_ok_with_dirs [OF assms(2,3) g(3)] .
  with g None assms show thesis
    by (intro that [of g]) (auto simp: save_try_def fs_exists_def Let_def)
next
  case (Some nd)
  then have "nd = Dir" using assms(3) by (cases nd) (auto simp: way_clear_def fs_find_def home_at_def)
  with Some have "with_dirs (fs_at f) (home_at f u) = fs_at f"
    using with_dirs_present [OF assms(2)] by (simp add: fs_find_def home_at_def)
  with Some assms show thesis
    by (intro that [of "f\<lparr>fs_calls := Suc (fs_calls f)\<rparr>"]) (auto simp: save_try_def fs_exists_def Let_def)
qed

text \<open>An upload whose data stops early: the loop ends with false, and the file is still a file.\<close>

lemma save_loop_short:
  "recv_contract s \<Longrightarrow> length (sk_rx s) < n \<Longrightarrow> healthy f \<Longrightarrow> of_good h \<Longrightarrow> fs_at f (of_loc h) = Some (File c) \<Longrightarrow>
   \<exists>g t d. save_loop h n f s = (False, g, t) \<and> fs_env g = fs_env f \<and> fs_at g = (fs_at f)(of_loc h \<mapsto> File d)
     \<and> only_reads s t"
proof (induction h n f s arbitrary: c rule: save_loop.induct)
  case (1 h n f s)
  let ?c = "min TRANSFER_BUFFER_SIZE n"
  have pos: "0 < n" using "1.prems"(2) by simp
  obtain r t where r: "recv_all s ?c = (r, t)" by fastforce
  show ?case
  proof (cases r)
    case None
    with pos r "1.prems"(5) show ?thesis
      by (subst save_loop.simps) (auto simp: Let_def fun_upd_idem intro: exI [of _ c] recv_all_reads)
  next
    case (Some bs)
    define g where "g = fs_put (f\<lparr>fs_calls := Suc (fs_calls f)\<rparr>) (of_loc h) (File (c @ bs))"
    have w: "ofstream_write f h bs = (h, g)"
      using "1.prems"(3-5) by (simp add: ofstream_write_def g_def)
    have exact: "length bs = ?c \<and> sk_rx s = bs @ sk_rx t" using rx.rcv_exact [OF "1.prems"(1)] r Some by simp
    then have "length (sk_rx t) < n - ?c" using "1.prems"(2) by simp
    then have prems: "recv_contract t" "length (sk_rx t) < n - ?c" "healthy g" "of_good h"
        "fs_at g (of_loc h) = Some (File (c @ bs))"
      using "1.prems" only_reads_contracts [OF recv_all_reads [OF r]] by (simp_all add: g_def)
    obtain g' u d where u: "save_loop h (n - ?c) g t = (False, g', u)" "fs_env g' = fs_env g"
        "fs_at g' = (fs_at g)(of_loc h \<mapsto> File d)" "only_reads t u"
      using "1.IH" [OF pos refl r [symmetric] Some w [symmetric] prems] by blast
    have "save_loop h n f s = (False, g', u)"
      using pos r Some w u(1) by (subst save_loop.simps) (simp add: Let_def)
    moreover have "only_reads s u" using recv_all_reads [OF r] u(4) by (rule only_reads_trans)
    ultimately show ?thesis using u by (auto simp: g_def intro!: exI [of _ d])
  qed
qed

lemma remove_a_file:
  assumes "healthy f" and "fs_at f (fs_resolve f p) = Some (File c)"
  obtains g where "fs_remove f p = (Value True, g)" and "fs_env g = fs_env f"
    and "fs_at g = (fs_at f)(fs_resolve f p := None)"
  using assms that [of "fs_del (f\<lparr>fs_calls := Suc (fs_calls f)\<rparr>) (fs_resolve f p)"]
  by (simp add: fs_remove_def Let_def)

text \<open>The file is opened before any of its bytes are read; the two outcomes of the loop follow.\<close>

definition end_of_save ::
    "bytes \<Rightarrow> bytes \<Rightarrow> u64 \<Rightarrow> world \<Rightarrow> bool \<times> filesys \<times> socket \<Rightarrow> bool result \<times> world \<times> socket" where
  "end_of_save u n sz w r =
     (let p = file_path u n
      in case r of
         (False, f, s) \<Rightarrow>
           (case fs_remove f p of
              (Raised, f) \<Rightarrow> (Raised, set_fs f (lock_ref p w), s)
            | (Value _, f) \<Rightarrow> (Value False, set_fs f (lock_ref p w), s))
       | (True, f, s) \<Rightarrow>
           (Value True, unlock_ref p (index_add (user_dir u) n sz (set_fs f (lock_ref p w))), s))"

lemma set_fs_twice [simp]: "set_fs x (lock_ref k (set_fs g w)) = set_fs x (lock_ref k w)"
  by (simp add: world_defs)

lemma save_file_opened:
  assumes "can_store (w_fs w) u n" and "is_valid_filename n"
  obtains g where "fs_env g = fs_env (w_fs w)" and "healthy g"
    and "fs_at g = (with_dirs (fs_at (w_fs w)) (home_at (w_fs w) u))(file_at (w_fs w) u n \<mapsto> File [])"
    and "\<And>s. save_try u n sz w s =
      end_of_save u n sz w (save_loop \<lparr>of_loc = file_at (w_fs w) u n, of_good = True\<rparr> (unat sz) g s)"
proof -
  let ?f = "w_fs w" and ?p = "file_path u n"
  from assms(1) have f: "healthy ?f" "disk_ok ?f" "way_clear ?f (home_at ?f u)" "entry_of ?f u n"
      "fs_at ?f (file_at ?f u n) \<noteq> Some Dir" by (simp_all add: can_store_def)
  obtain g where g: "fs_env g = fs_env ?f" "fs_at g = with_dirs (fs_at ?f) (home_at ?f u)"
      and run: "\<And>s. save_try u n sz w s = save_body u n sz (set_fs g w) s"
    using save_try_enter [OF f(1-3) refl, of thesis] assms(2) by metis
  have res: "fs_resolve g = fs_resolve ?f" using g(1) by (simp add: fs_env_def)
  have loc: "fs_resolve g ?p = file_at ?f u n" by (simp add: res file_at_def)
  have place: "fs_resolve g ?p \<noteq> []" "butlast (fs_resolve g ?p) = home_at ?f u"
      "fs_at g (fs_resolve g ?p) \<noteq> Some Dir"
    using f(4,5) entry_not_above [OF f(4)] by (auto simp: loc entry_of_def g(2) with_dirs_def)
  have dir: "fs_is_dir g (butlast (fs_resolve g ?p))"
    unfolding place(2) by (auto simp: fs_is_dir_def g(2) with_dirs_def)
  obtain g1 where g1: "ofstream_open g ?p = (Some \<lparr>of_loc = file_at ?f u n, of_good = True\<rparr>, g1)"
      "fs_env g1 = fs_env g" "fs_at g1 = (fs_at g)(file_at ?f u n \<mapsto> File [])"
    using open_for_writing [OF _ place(1) dir place(3)] healthy_env [OF g(1)] f(1) loc by auto
  have "healthy g1" using healthy_env [OF g1(2)] healthy_env [OF g(1)] f(1) by simp
  then show thesis
    using g g1 run by (intro that [of g1]) (simp_all add: save_body_def end_of_save_def Let_def split: prod.split bool.split result.split)
qed

lemma disk_ok_stored:
  assumes "can_store f u n" and "fs_at g = (with_dirs (fs_at f) (home_at f u))(file_at f u n := x)" and "x \<noteq> Some Dir"
  shows "disk_ok g"
proof -
  from assms(1) have f: "healthy f" "disk_ok f" "way_clear f (home_at f u)" "entry_of f u n"
      "fs_at f (file_at f u n) \<noteq> Some Dir" by (simp_all add: can_store_def)
  obtain h where h: "fs_at h = with_dirs (fs_at f) (home_at f u)"
    using create_directories_clear [of f "user_path u"] f(1,3) by (auto simp: home_at_def)
  have ok: "disk_ok h" by (rule disk_ok_with_dirs [OF f(2,3) h])
  have place: "file_at f u n \<noteq> []" "fs_is_dir h (butlast (file_at f u n))" "fs_at h (file_at f u n) \<noteq> Some Dir"
    using f(4,5) entry_not_above [OF f(4)] by (auto simp: entry_of_def h with_dirs_def fs_is_dir_def)
  have put: "disk_ok (fs_put h (file_at f u n) (File c))" for c
    by (rule disk_ok_put_file [OF ok place])
  have cong: "fs_at g = fs_at k \<Longrightarrow> disk_ok k \<Longrightarrow> disk_ok g" for k by (simp add: disk_ok_def)
  show ?thesis
  proof (cases x)
    case None
    have "disk_ok (fs_del (fs_put h (file_at f u n) (File [])) (file_at f u n))"
      by (rule disk_ok_del_file [OF put]) simp
    then show ?thesis by (rule cong [rotated]) (simp add: assms(2) None h)
  next
    case (Some nd)
    then obtain c where "nd = File c" using assms(3) by (cases nd) auto
    then show ?thesis using put [of c] Some by (intro cong [of "fs_put h (file_at f u n) (File c)"]) (simp_all add: assms(2) h)
  qed
qed

lemma save_file_complete:
  assumes "can_store (w_fs w) u n" and "is_valid_filename n" and "lockable w (file_path u n)"
    and "recv_contract s" and "recv_reliable s" and "unat sz \<le> length (sk_rx s)"
  obtains v t where "save_file u n sz w s = (True, v, t)"
    and "fs_at (w_fs v) = (with_dirs (fs_at (w_fs w)) (home_at (w_fs w) u))
           (file_at (w_fs w) u n \<mapsto> File (take (unat sz) (sk_rx s)))"
    and "w_index v = add_file (w_index w) (user_dir u) n sz (w_clock w (w_time w))"
    and "locks_kept w v" and "fs_env (w_fs v) = fs_env (w_fs w)" and "env_of v = env_of w"
    and "sk_rx t = drop (unat sz) (sk_rx s)" and "only_reads s t"
proof -
  let ?p = "file_path u n" and ?h = "\<lparr>of_loc = file_at (w_fs w) u n, of_good = True\<rparr>"
  obtain g where g: "fs_env g = fs_env (w_fs w)" "healthy g"
      "fs_at g = (with_dirs (fs_at (w_fs w)) (home_at (w_fs w) u))(file_at (w_fs w) u n \<mapsto> File [])"
    and run: "save_try u n sz w s = end_of_save u n sz w (save_loop ?h (unat sz) g s)"
    using save_file_opened [OF assms(1,2), of sz thesis] by blast
  obtain g2 t where g2: "save_loop ?h (unat sz) g s = (True, g2, t)" "fs_env g2 = fs_env g"
      "fs_at g2 = (fs_at g)(file_at (w_fs w) u n \<mapsto> File (take (unat sz) (sk_rx s)))"
      "sk_rx t = drop (unat sz) (sk_rx s)" "only_reads s t"
    using save_loop_complete [OF assms(4-6) g(2), of ?h "[]"] g(3) by auto
  let ?v = "unlock_ref ?p (index_add (user_dir u) n sz (set_fs g2 (lock_ref ?p w)))"
  have "save_file u n sz w s = (True, ?v, t)" using run g2(1) by (simp add: save_file_def end_of_save_def Let_def)
  moreover have "locks_kept w ?v" by (rule lock_then_unlock [OF assms(3)]) simp
  ultimately show thesis using g g2 by (intro that [of ?v t]) simp_all
qed

text \<open>A broken upload takes away whatever was stored under the name, and keeps its reference.\<close>

lemma save_file_cut_short:
  assumes "can_store (w_fs w) u n" and "is_valid_filename n" and "lockable w (file_path u n)"
    and "recv_contract s" and "length (sk_rx s) < unat sz"
  obtains v t where "save_file u n sz w s = (False, v, t)"
    and "fs_at (w_fs v) = (with_dirs (fs_at (w_fs w)) (home_at (w_fs w) u))(file_at (w_fs w) u n := None)"
    and "w_index v = w_index w" and "lock_leaked (file_path u n) w v"
    and "fs_env (w_fs v) = fs_env (w_fs w)" and "env_of v = env_of w" and "only_reads s t"
proof -
  let ?p = "file_path u n" and ?h = "\<lparr>of_loc = file_at (w_fs w) u n, of_good = True\<rparr>"
  obtain g where g: "fs_env g = fs_env (w_fs w)" "healthy g"
      "fs_at g = (with_dirs (fs_at (w_fs w)) (home_at (w_fs w) u))(file_at (w_fs w) u n \<mapsto> File [])"
    and run: "save_try u n sz w s = end_of_save u n sz w (save_loop ?h (unat sz) g s)"
    using save_file_opened [OF assms(1,2), of sz thesis] by blast
  obtain g2 t d where g2: "save_loop ?h (unat sz) g s = (False, g2, t)" "fs_env g2 = fs_env g"
      "fs_at g2 = (fs_at g)(file_at (w_fs w) u n \<mapsto> File d)" "only_reads s t"
    using save_loop_short [OF assms(4,5) g(2), of ?h "[]"] g(3) by auto
  have "fs_resolve g2 ?p = file_at (w_fs w) u n" using g(1) g2(2) by (simp add: fs_env_def file_at_def)
  then obtain g3 where g3: "fs_remove g2 ?p = (Value True, g3)" "fs_env g3 = fs_env g2"
      "fs_at g3 = (fs_at g2)(file_at (w_fs w) u n := None)"
    using remove_a_file [of g2 ?p d] healthy_env [OF g2(2)] g(2) g2(3) by auto
  let ?v = "set_fs g3 (lock_ref ?p w)"
  have "save_file u n sz w s = (False, ?v, t)" using run g2(1) g3(1) by (simp add: save_file_def end_of_save_def Let_def)
  moreover have "lock_leaked ?p w ?v" by (rule lock_without_unlock [OF assms(3)]) simp
  ultimately show thesis using g g2 g3 by (intro that [of ?v t]) simp_all
qed

text \<open>A rejected name: the payload is thrown away and nothing is stored.\<close>

lemma save_file_rejected:
  assumes "healthy (w_fs w)" and "disk_ok (w_fs w)" and "way_clear (w_fs w) (home_at (w_fs w) u)"
    and "\<not> is_valid_filename n" and "recv_contract s" and "recv_reliable s" and "unat sz \<le> length (sk_rx s)"
  obtains v t where "save_file u n sz w s = (False, v, t)"
    and "fs_at (w_fs v) = with_dirs (fs_at (w_fs w)) (home_at (w_fs w) u)"
    and "w_index v = w_index w" and "w_locks v = w_locks w"
    and "fs_env (w_fs v) = fs_env (w_fs w)" and "env_of v = env_of w"
    and "sk_rx t = drop (unat sz) (sk_rx s)" and "only_reads s t"
proof -
  obtain g where g: "fs_env g = fs_env (w_fs w)" "fs_at g = with_dirs (fs_at (w_fs w)) (home_at (w_fs w) u)"
    and run: "save_try u n sz w s = (Value False, set_fs g w, discard_data s (unat sz))"
    using save_try_enter [OF assms(1-3) refl, of thesis] assms(4) by metis
  then have "save_file u n sz w s = (False, set_fs g w, discard_data s (unat sz))"
    by (simp add: save_file_def)
  with g show thesis
    using discard_data_exact [OF assms(5-7)] discard_data_reads by (intro that [of "set_fs g w" "discard_data s (unat sz)"]) simp_all
qed

section \<open>Downloads\<close>

text \<open>Sending reads the file and moves only the sending side of the socket.\<close>

lemma stream_loop_frame:
  "stream_loop c f s = (r, g, t) \<Longrightarrow> only_writes s t \<and> (\<exists>k. g = f\<lparr>fs_calls := k\<rparr>)"
proof (induction c f s arbitrary: r g t rule: stream_loop.induct)
  case (1 c f s)
  obtain bs c' good f' where rd: "ifstream_read f c TRANSFER_BUFFER_SIZE = (bs, c', good, f')"
    by (metis prod_cases4)
  obtain ok u where snd: "(if 0 < length bs then send_all s bs (length bs) else (True, s)) = (ok, u)" by fastforce
  have u: "only_writes s u" using snd send_all_writes by (auto split: if_splits)
  have f': "f' = f\<lparr>fs_calls := Suc (fs_calls f)\<rparr>" by (rule ifstream_read_frame [OF rd])
  show ?case
  proof (cases "ok \<and> good")
    case True
    then have "stream_loop c' f' u = (r, g, t)"
      using "1.prems" rd snd by (subst (asm) stream_loop.simps) simp
    then have "only_writes u t \<and> (\<exists>k. g = f'\<lparr>fs_calls := k\<rparr>)"
      using "1.IH" [OF rd [symmetric] refl refl snd [symmetric]] True by auto
    with u f' show ?thesis by (auto intro: only_writes_trans)
  next
    case False
    then have "t = u \<and> g = f'"
      using "1.prems" rd snd by (subst (asm) stream_loop.simps) (auto split: bool.splits if_splits)
    with u f' show ?thesis by auto
  qed
qed

lemma stream_loop_complete:
  "send_contract s \<Longrightarrow> send_reliable s \<Longrightarrow> healthy f \<Longrightarrow>
     \<exists>g t. stream_loop c f s = (True, g, t) \<and> sk_tx t = sk_tx s @ c"
proof (induction "length c" arbitrary: c f s rule: less_induct)
  case less
  let ?bs = "take TRANSFER_BUFFER_SIZE c" and ?f = "f\<lparr>fs_calls := Suc (fs_calls f)\<rparr>"
  have rd: "ifstream_read f c TRANSFER_BUFFER_SIZE
      = (?bs, drop TRANSFER_BUFFER_SIZE c, TRANSFER_BUFFER_SIZE \<le> length c, ?f)"
    using less.prems(3) by (simp add: ifstream_read_def)
  have "length ?bs < 2 ^ 31" using TRANSFER_BUFFER_SIZE_int by simp
  then obtain u where u: "send_all s ?bs (length ?bs) = (True, u)" "sk_tx u = sk_tx s @ ?bs" "only_writes s u"
    using send_all_complete [OF less.prems(1,2)] by blast
  have snd: "(if 0 < length ?bs then send_all s ?bs (length ?bs) else (True, s)) = (True, if c = [] then s else u)"
    using u(1) by simp
  show ?case
  proof (cases "TRANSFER_BUFFER_SIZE \<le> length c")
    case False
    with rd snd u(1) have "stream_loop c f s = (True, ?f, if c = [] then s else u)"
      by (subst stream_loop.simps) simp
    with False u(2) show ?thesis by auto
  next
    case True
    then have nonempty: "c \<noteq> []" using TRANSFER_BUFFER_SIZE_pos by fastforce
    then have "length (drop TRANSFER_BUFFER_SIZE c) < length c" by simp
    then obtain g t where "stream_loop (drop TRANSFER_BUFFER_SIZE c) ?f u = (True, g, t)"
        "sk_tx t = sk_tx u @ drop TRANSFER_BUFFER_SIZE c"
      using less.hyps [of "drop TRANSFER_BUFFER_SIZE c" u ?f] less.prems only_writes_contracts [OF u(3)] by auto
    moreover from rd snd True nonempty
    have "stream_loop c f s = stream_loop (drop TRANSFER_BUFFER_SIZE c) ?f u"
      by (subst stream_loop.simps) simp
    ultimately show ?thesis using u(2) by simp
  qed
qed

lemma stream_complete:
  assumes "is_valid_filename n" and "lockable w (file_path u n)" and "healthy (w_fs w)"
    and "fs_at (w_fs w) (file_at (w_fs w) u n) = Some (File c)"
    and "send_contract s" and "send_reliable s"
  obtains v t where "stream_file_to_socket u n w s = (True, v, t)" and "sk_tx t = sk_tx s @ c"
    and "only_writes s t" and "fs_at (w_fs v) = fs_at (w_fs w)" and "fs_env (w_fs v) = fs_env (w_fs w)"
    and "w_index v = w_index w" and "env_of v = env_of w" and "lock_leaked (file_path u n) w v"
proof -
  let ?f = "w_fs w\<lparr>fs_calls := Suc (fs_calls (w_fs w))\<rparr>" and ?p = "file_path u n"
  have op: "ifstream_open (w_fs w) ?p = (Some c, ?f)"
    using assms(3,4) by (simp add: ifstream_open_def fs_find_def file_at_def)
  obtain g t where g: "stream_loop c ?f s = (True, g, t)" "sk_tx t = sk_tx s @ c"
    using stream_loop_complete [OF assms(5,6), of ?f c] assms(3) by auto
  obtain k where k: "g = ?f\<lparr>fs_calls := k\<rparr>" "only_writes s t" using stream_loop_frame [OF g(1)] by blast
  let ?v = "set_fs g (lock_ref ?p w)"
  have "stream_file_to_socket u n w s = (True, ?v, t)"
    using assms(1) op g(1) by (simp add: stream_file_to_socket_def Let_def)
  moreover have "lock_leaked ?p w ?v" by (rule lock_without_unlock [OF assms(2)]) simp
  ultimately show thesis using g(2) k by (intro that [of ?v t]) simp_all
qed

text \<open>Without a regular file nothing is sent.\<close>

lemma stream_missing:
  assumes "lockable w (file_path u n)" and "\<And>c. fs_at (w_fs w) (file_at (w_fs w) u n) \<noteq> Some (File c)"
  obtains v where "stream_file_to_socket u n w s = (False, v, s)" and "fs_at (w_fs v) = fs_at (w_fs w)"
    and "w_index v = w_index w" and "locks_kept w v" and "fs_env (w_fs v) = fs_env (w_fs w)" and "env_of v = env_of w"
proof -
  let ?p = "file_path u n"
  have "fst (ifstream_open (w_fs w) ?p) = None"
    using assms(2) by (auto simp: ifstream_open_def fs_find_def fs_tick_def file_at_def Let_def
        split: option.splits node.splits if_splits)
  then obtain f where f: "ifstream_open (w_fs w) ?p = (None, f)" by (metis prod.collapse)
  then have f': "f = w_fs w\<lparr>fs_calls := Suc (fs_calls (w_fs w))\<rparr>" by (rule ifstream_open_frame)
  show thesis
  proof (cases "is_valid_filename n")
    case False
    with assms(1) show thesis
      by (intro that [of w]) (auto simp: stream_file_to_socket_def intro: locks_kept_refl)
  next
    case True
    let ?v = "unlock_ref ?p (set_fs f (lock_ref ?p w))"
    have "locks_kept w ?v" by (rule lock_then_unlock [OF assms(1)]) simp
    with True f f' show thesis by (intro that [of ?v]) (simp_all add: stream_file_to_socket_def Let_def)
  qed
qed

text \<open>Whatever happens, a download changes neither disk nor index.\<close>

lemma stream_frame:
  assumes "stream_file_to_socket u n w s = (r, v, t)"
  shows "only_writes s t \<and> w_index v = w_index w \<and> fs_at (w_fs v) = fs_at (w_fs w)
    \<and> fs_env (w_fs v) = fs_env (w_fs w) \<and> env_of v = env_of w"
  using assms
  by (auto simp: stream_file_to_socket_def Let_def split: if_splits prod.splits option.splits bool.splits
      dest!: stream_loop_frame ifstream_open_frame)

section \<open>Deletion and renaming\<close>

lemma delete_complete:
  assumes "is_valid_filename n" and "lockable w (file_path u n)" and "healthy (w_fs w)"
    and "fs_at (w_fs w) (file_at (w_fs w) u n) = Some (File c)"
  obtains v where "delete_file u n w = (True, v)"
    and "fs_at (w_fs v) = (fs_at (w_fs w))(file_at (w_fs w) u n := None)"
    and "w_index v = remove_file (w_index w) (user_dir u) n"
    and "locks_kept w v" and "fs_env (w_fs v) = fs_env (w_fs w)" and "env_of v = env_of w"
proof -
  let ?p = "file_path u n"
  obtain g where g: "fs_remove (w_fs w) ?p = (Value True, g)" "fs_env g = fs_env (w_fs w)"
      "fs_at g = (fs_at (w_fs w))(file_at (w_fs w) u n := None)"
    using remove_a_file [OF assms(3)] assms(4) by (auto simp: file_at_def)
  let ?v = "unlock_ref ?p (index_remove (user_dir u) n (set_fs g (lock_ref ?p w)))"
  have "delete_file u n w = (True, ?v)" using assms(1) g(1) by (simp add: delete_file_def Let_def)
  moreover have "locks_kept w ?v" by (rule lock_then_unlock [OF assms(2)]) simp
  ultimately show thesis using g by (intro that [of ?v]) simp_all
qed

lemma delete_missing:
  assumes "lockable w (file_path u n)" and "healthy (w_fs w)"
    and "\<not> is_valid_filename n \<or> fs_at (w_fs w) (file_at (w_fs w) u n) = None"
  obtains v where "delete_file u n w = (False, v)" and "fs_at (w_fs v) = fs_at (w_fs w)"
    and "w_index v = w_index w" and "locks_kept w v" and "fs_env (w_fs v) = fs_env (w_fs w)" and "env_of v = env_of w"
proof (cases "is_valid_filename n")
  case False
  with assms(1) show thesis
    by (intro that [of w]) (auto simp: delete_file_def intro: locks_kept_refl)
next
  case True
  let ?p = "file_path u n" and ?f = "w_fs w\<lparr>fs_calls := Suc (fs_calls (w_fs w))\<rparr>"
  have "fs_remove (w_fs w) ?p = (Value False, ?f)"
    using True assms(2,3) by (simp add: fs_remove_def file_at_def)
  moreover have "locks_kept w (unlock_ref ?p (set_fs ?f (lock_ref ?p w)))"
    by (rule lock_then_unlock [OF assms(1)]) simp
  ultimately show thesis
    using True by (intro that [of "unlock_ref ?p (set_fs ?f (lock_ref ?p w))"]) (simp_all add: delete_file_def Let_def)
qed

lemma lock_two_unlock_two:
  assumes "lockable w j" and "lockable w k" and "j \<noteq> k"
    and "w_locks v = release_lock_ref k (release_lock_ref j
           (snd (acquire_lock_ref k (snd (acquire_lock_ref j (w_locks w))))))"
  shows "locks_kept w v"
  using refs.balanced_two [of "w_locks w" j k, OF _ _ _ _ surjective_pairing surjective_pairing] assms
  by (simp add: lockable_def locks_kept_def)

lemma file_in_home:
  assumes "disk_ok f" and "entry_of f u n" and "fs_at f (file_at f u n) \<noteq> None"
  shows "fs_is_dir f (home_at f u)"
proof -
  have "strict_prefix (home_at f u) (file_at f u n)"
    using assms(2) unfolding entry_of_def by (metis append_butlast_last_id prefixI strict_prefixI' strict_prefix_simps(1))
  with assms(1,3) show ?thesis by (auto simp: disk_ok_def fs_is_dir_def)
qed

lemma rename_complete:
  assumes "is_valid_filename a" and "is_valid_filename b" and "file_path u a \<noteq> file_path u b"
    and "lockable w (file_path u a)" and "lockable w (file_path u b)"
    and "healthy (w_fs w)" and "disk_ok (w_fs w)" and "entry_of (w_fs w) u a" and "entry_of (w_fs w) u b"
    and "fs_at (w_fs w) (file_at (w_fs w) u a) = Some (File c)" and "fs_at (w_fs w) (file_at (w_fs w) u b) = None"
  obtains v where "rename_file u a b w = (True, v)"
    and "fs_at (w_fs v) = (fs_at (w_fs w))(file_at (w_fs w) u a := None, file_at (w_fs w) u b \<mapsto> File c)"
    and "w_index v = add_file (remove_file (w_index w) (user_dir u) a) (user_dir u) b
           (get_file_size (w_index w) (user_dir u) a) (w_clock w (w_time w))"
    and "locks_kept w v" and "fs_env (w_fs v) = fs_env (w_fs w)" and "env_of v = env_of w"
proof -
  let ?p = "file_path u a" and ?q = "file_path u b" and ?f = "w_fs w"
  let ?g = "?f\<lparr>fs_calls := Suc (Suc (fs_calls ?f))\<rparr>"
  have blk: "rename_blocked ?p ?q ?f = (Value False, ?g)"
    using assms(6,10,11) by (simp add: rename_blocked_def fs_exists_def fs_find_def file_at_def)
  obtain g where g: "fs_rename ?g ?p ?q = (Value (), g)" "fs_env g = fs_env ?f"
      "fs_at g = (fs_at ?f)(file_at ?f u a := None, file_at ?f u b \<mapsto> File c)"
    using fs_rename_file [of ?g ?p c ?q] assms(6-11) file_in_home [OF assms(7,8)]
    by (auto simp: fs_find_def file_at_def entry_of_def)
  define v where "v = unlock_ref ?q (unlock_ref ?p (index_add (user_dir u) b
     (get_file_size (w_index w) (user_dir u) a) (index_remove (user_dir u) a (set_fs g (lock_ref ?q (lock_ref ?p w))))))"
  have "rename_file u a b w = (True, v)"
    using blk g(1) assms(1-3) by (simp add: rename_file_def Let_def v_def)
  moreover have "locks_kept w v" unfolding v_def by (rule lock_two_unlock_two [OF assms(4,5,3)]) simp
  ultimately show thesis using g by (intro that [of v]) (simp_all add: v_def)
qed

text \<open>
  A rename that does not go through changes nothing. When the two names are equal the code
  returns true at once, whether there is such a file or not.
\<close>

lemma rename_refused:
  assumes "file_path u a \<noteq> file_path u b"
    and "lockable w (file_path u a)" and "lockable w (file_path u b)" and "healthy (w_fs w)"
    and "\<not> is_valid_filename a \<or> \<not> is_valid_filename b
       \<or> fs_at (w_fs w) (file_at (w_fs w) u a) = None \<or> fs_at (w_fs w) (file_at (w_fs w) u b) \<noteq> None"
  obtains v where "rename_file u a b w = (False, v)" and "fs_at (w_fs v) = fs_at (w_fs w)"
    and "w_index v = w_index w" and "locks_kept w v" and "fs_env (w_fs v) = fs_env (w_fs w)" and "env_of v = env_of w"
proof (cases "is_valid_filename a \<and> is_valid_filename b")
  case False
  with assms(2) show thesis
    by (intro that [of w]) (auto simp: rename_file_def intro: locks_kept_refl)
next
  case True
  let ?p = "file_path u a" and ?q = "file_path u b"
  have "\<exists>k. rename_blocked ?p ?q (w_fs w) = (Value True, w_fs w\<lparr>fs_calls := k\<rparr>)"
    using True assms(4,5)
    by (cases "fs_find (w_fs w) ?p"; cases "fs_find (w_fs w) ?q")
      (auto simp: rename_blocked_def fs_exists_def fs_find_def file_at_def)
  then obtain k where k: "rename_blocked ?p ?q (w_fs w) = (Value True, w_fs w\<lparr>fs_calls := k\<rparr>)" ..
  define v where "v = unlock_ref ?q (unlock_ref ?p (set_fs (w_fs w\<lparr>fs_calls := k\<rparr>) (lock_ref ?q (lock_ref ?p w))))"
  have "rename_file u a b w = (False, v)"
    using k True assms(1) by (simp add: rename_file_def Let_def v_def)
  moreover have "locks_kept w v" unfolding v_def by (rule lock_two_unlock_two [OF assms(2,3,1)]) simp
  ultimately show thesis by (intro that [of v]) (simp_all add: v_def)
qed

lemma rename_same_name:
  "is_valid_filename a \<Longrightarrow> rename_file u a a w = (True, w)"
  by (simp add: rename_file_def)

section \<open>Sample worlds\<close>

definition sample_world :: "(loc \<times> node) list \<Rightarrow> world" where
  "sample_world ns = \<lparr>w_fs = sample_disk ns, w_index = [], w_locks = no_locks, w_clock = (\<lambda>i. ''noon''),
     w_time = 0, w_alloc = (\<lambda>n. True), w_be = False\<rparr>"

definition home_nodes :: "(loc \<times> node) list" where
  "home_nodes = [([''storage''], Dir), ([''storage'', ''bob''], Dir), ([''storage'', ''bob'', ''a''], File ''xyz'')]"

lemma home_nodes_at [simp]:
  "map_of home_nodes [''storage'', ''bob'', ''a''] = Some (File ''xyz'')"
  "map_of home_nodes [''storage'', ''bob'', ''b''] = None"
  "map_of home_nodes [''storage'', ''bob''] = Some Dir"
  by (simp_all add: home_nodes_def)

lemma sample_world_simps [simp]:
  "w_fs (sample_world ns) = sample_disk ns" "w_index (sample_world ns) = []"
  "w_clock (sample_world ns) = (\<lambda>i. ''noon'')" "w_time (sample_world ns) = 0"
  "w_alloc (sample_world ns) = (\<lambda>n. True)" "w_be (sample_world ns) = False"
  "lockable (sample_world ns) k"
  by (simp_all add: sample_world_def lockable_def)

lemma plain_samples [simp]: "plain_name ''bob''" "plain_name ''a''" "plain_name ''b''" "plain_name ''new''"
  by (simp_all add: plain_name_def is_valid_filename_def)

lemma valid_samples [simp]: "is_valid_filename ''a''" "is_valid_filename ''b''" "is_valid_filename ''new''"
  by (simp_all add: is_valid_filename_def)

lemma sample_places [simp]:
  "plain_name u \<Longrightarrow> plain_name n \<Longrightarrow> file_at (sample_disk ns) u n = [''storage'', u, n]"
  "plain_name u \<Longrightarrow> home_at (sample_disk ns) u = [''storage'', u]"
  by (simp_all add: file_at_def home_at_def resolve_file_path resolve_user_path)

lemma sample_entry [simp]: "plain_name u \<Longrightarrow> plain_name n \<Longrightarrow> entry_of (sample_disk ns) u n"
  by (simp add: entry_of_def)

lemma disk_ok_home [simp]: "disk_ok (sample_disk home_nodes)" "disk_ok (sample_disk [])"
  by (auto simp: disk_ok_def home_nodes_def strict_prefix_def prefix_Cons split: if_splits)

lemma way_clear_home [simp]: "way_clear (sample_disk home_nodes) [''storage'', ''bob'']"
  by (auto simp: way_clear_def home_nodes_def prefix_Cons)

lemma can_store_home [simp]: "plain_name n \<Longrightarrow> can_store (sample_disk home_nodes) ''bob'' n"
  by (simp add: can_store_def) (simp add: home_nodes_def)

section \<open>Properties\<close>

text \<open>C11: an upload under an accepted name, with all announced bytes arriving and the disk
  taking them, returns true; afterwards the file holds exactly the payload, nothing else on
  disk has changed (but for the user's directory, which is made when missing), the index
  records the size, exactly the payload has been taken off the stream, and every lock
  reference has been given back.\<close>

theorem upload_stores_file:
  assumes "can_store (w_fs w) u n" and "is_valid_filename n" and "lockable w (file_path u n)"
    and "recv_contract s" and "recv_reliable s" and "unat sz \<le> length (sk_rx s)"
    and "save_file u n sz w s = (ok, v, t)"
  shows "ok \<and> fs_at (w_fs v) = (with_dirs (fs_at (w_fs w)) (home_at (w_fs w) u))
           (file_at (w_fs w) u n \<mapsto> File (take (unat sz) (sk_rx s)))
    \<and> idx_look (w_index v) = (idx_look (w_index w))
           ((normalize_path (user_dir u), n) \<mapsto> (sz, w_clock w (w_time w)))
    \<and> sk_rx t = drop (unat sz) (sk_rx s) \<and> sk_tx t = sk_tx s \<and> locks_kept w v"
  using save_file_complete [OF assms(1-6)] assms(7) only_reads_contracts(5) idx_look_add_file
  by (metis (no_types, lifting) Pair_inject)

theorem upload_stores_file_witness:
  "let (ok, v, t) = save_file ''bob'' ''new'' 5 (sample_world home_nodes) (trickle_socket ''hello, world'')
   in ok \<and> fs_at (w_fs v) [''storage'', ''bob'', ''new''] = Some (File ''hello'') \<and> sk_rx t = '', world''"
  using upload_stores_file [of "sample_world home_nodes" "''bob''" "''new''" "trickle_socket ''hello, world''" 5]
  by (cases "save_file ''bob'' ''new'' 5 (sample_world home_nodes) (trickle_socket ''hello, world'')") simp

text \<open>C17: an upload whose data stops before the announced size returns false and leaves no
  partial file; but the file stored under the name before is gone as well while the index
  keeps its entry, and the reference to the file's lock is never given back.\<close>

theorem upload_cut_short:
  assumes "can_store (w_fs w) u n" and "is_valid_filename n" and "lockable w (file_path u n)"
    and "recv_contract s" and "length (sk_rx s) < unat sz"
    and "save_file u n sz w s = (ok, v, t)"
  shows "\<not> ok \<and> fs_at (w_fs v) (file_at (w_fs w) u n) = None \<and> w_index v = w_index w
    \<and> (\<forall>l. l \<noteq> file_at (w_fs w) u n \<longrightarrow> fs_at (w_fs v) l = with_dirs (fs_at (w_fs w)) (home_at (w_fs w) u) l)
    \<and> lock_count (w_locks v) (file_path u n) = Suc (lock_count (w_locks w) (file_path u n))"
proof -
  obtain v' t' where v: "save_file u n sz w s = (False, v', t')"
      "fs_at (w_fs v') = (with_dirs (fs_at (w_fs w)) (home_at (w_fs w) u))(file_at (w_fs w) u n := None)"
      "w_index v' = w_index w" "lock_leaked (file_path u n) w v'"
    using save_file_cut_short [OF assms(1-5)] by metis
  with assms(6) show ?thesis by (auto simp: lock_leaked_def)
qed

theorem upload_cut_short_witness:
  "let (ok, v, t) = save_file ''bob'' ''a'' 5 (sample_world home_nodes) (prompt_socket ''he'')
   in \<not> ok \<and> fs_at (w_fs v) [''storage'', ''bob'', ''a''] = None"
  using upload_cut_short [of "sample_world home_nodes" "''bob''" "''a''" "prompt_socket ''he''" 5]
  by (cases "save_file ''bob'' ''a'' 5 (sample_world home_nodes) (prompt_socket ''he'')") simp

text \<open>An upload under a name that is refused stores nothing, changes neither index nor
  locks, and still takes exactly the announced payload off the stream, so that the next
  request is read from its beginning. The user's directory has been made all the same.\<close>

theorem upload_refused_name:
  assumes "healthy (w_fs w)" and "disk_ok (w_fs w)" and "way_clear (w_fs w) (home_at (w_fs w) u)"
    and "\<not> is_valid_filename n" and "recv_contract s" and "recv_reliable s" and "unat sz \<le> length (sk_rx s)"
    and "save_file u n sz w s = (ok, v, t)"
  shows "\<not> ok \<and> fs_at (w_fs v) = with_dirs (fs_at (w_fs w)) (home_at (w_fs w) u)
    \<and> w_index v = w_index w \<and> w_locks v = w_locks w \<and> sk_rx t = drop (unat sz) (sk_rx s) \<and> sk_tx t = sk_tx s"
  using save_file_rejected [OF assms(1-7)] assms(8) only_reads_contracts(5)
  by (metis (no_types, lifting) Pair_inject)

theorem upload_refused_name_witness:
  "let (ok, v, t) = save_file ''bob'' ''../x'' 2 (sample_world home_nodes) (prompt_socket ''hey'')
   in \<not> ok \<and> sk_rx t = ''y''"
  using upload_refused_name [of "sample_world home_nodes" "''bob''" "''../x''" "prompt_socket ''hey''" 2]
  by (cases "save_file ''bob'' ''../x'' 2 (sample_world home_nodes) (prompt_socket ''hey'')")
    (simp add: is_valid_filename_def)

text \<open>C12: streaming a stored file returns true and sends exactly its bytes, in blocks, changing
  neither disk nor index; but the reference to the file's lock is not given back on this
  path, so the lock table keeps the entry for good.\<close>

theorem download_streams_file:
  assumes "is_valid_filename n" and "lockable w (file_path u n)" and "healthy (w_fs w)"
    and "fs_at (w_fs w) (file_at (w_fs w) u n) = Some (File c)"
    and "send_contract s" and "send_reliable s" and "stream_file_to_socket u n w s = (ok, v, t)"
  shows "ok \<and> sk_tx t = sk_tx s @ c \<and> sk_rx t = sk_rx s \<and> w_index v = w_index w
    \<and> fs_at (w_fs v) = fs_at (w_fs w)
    \<and> lock_count (w_locks v) (file_path u n) = Suc (lock_count (w_locks w) (file_path u n))"
proof -
  obtain v' t' where v: "stream_file_to_socket u n w s = (True, v', t')" "sk_tx t' = sk_tx s @ c"
      "only_writes s t'" "fs_at (w_fs v') = fs_at (w_fs w)" "w_index v' = w_index w" "lock_leaked (file_path u n) w v'"
    using stream_complete [OF assms(1-6)] by metis
  with assms(7) only_writes_contracts(5) [OF v(3)] show ?thesis by (simp add: lock_leaked_def)
qed

theorem download_streams_file_witness:
  "let (ok, v, t) = stream_file_to_socket ''bob'' ''a'' (sample_world home_nodes) (trickle_socket [])
   in ok \<and> sk_tx t = ''xyz'' \<and> lock_count (w_locks v) (file_path ''bob'' ''a'') \<noteq> 0"
  using download_streams_file [of "''a''" "sample_world home_nodes" "''bob''" "''xyz''" "trickle_socket []"]
  by (cases "stream_file_to_socket ''bob'' ''a'' (sample_world home_nodes) (trickle_socket [])")
    (simp add: home_nodes_def)

text \<open>Deletion removes an existing file from the disk and from the index and returns true;
  without such a file, or with a refused name, it returns false and changes neither. Lock
  references are balanced in all cases.\<close>

theorem delete_removes_file:
  assumes "lockable w (file_path u n)" and "healthy (w_fs w)"
    and "fs_at (w_fs w) (file_at (w_fs w) u n) \<noteq> Some Dir" and "delete_file u n w = (ok, v)"
  shows "(ok \<longleftrightarrow> is_valid_filename n \<and> fs_at (w_fs w) (file_at (w_fs w) u n) \<noteq> None)
    \<and> fs_at (w_fs v) = (if ok then (fs_at (w_fs w))(file_at (w_fs w) u n := None) else fs_at (w_fs w))
    \<and> w_index v = (if ok then remove_file (w_index w) (user_dir u) n else w_index w) \<and> locks_kept w v"
proof (cases "is_valid_filename n \<and> fs_at (w_fs w) (file_at (w_fs w) u n) \<noteq> None")
  case True
  then obtain c where "fs_at (w_fs w) (file_at (w_fs w) u n) = Some (File c)"
    using assms(3) by (metis node.exhaust option.exhaust)
  with True obtain v' where "delete_file u n w = (True, v')"
      "fs_at (w_fs v') = (fs_at (w_fs w))(file_at (w_fs w) u n := None)"
      "w_index v' = remove_file (w_index w) (user_dir u) n" "locks_kept w v'"
    using delete_complete [OF _ assms(1,2)] by metis
  with True assms(4) show ?thesis by simp
next
  case False
  then obtain v' where "delete_file u n w = (False, v')" "fs_at (w_fs v') = fs_at (w_fs w)"
      "w_index v' = w_index w" "locks_kept w v'"
    using delete_missing [OF assms(1,2)] by metis
  with False assms(4) show ?thesis by simp
qed

theorem delete_removes_file_witness:
  "let (ok, v) = delete_file ''bob'' ''a'' (sample_world home_nodes)
   in ok \<and> fs_at (w_fs v) [''storage'', ''bob'', ''a''] = None"
  using delete_removes_file [of "sample_world home_nodes" "''bob''" "''a''"]
  by (cases "delete_file ''bob'' ''a'' (sample_world home_nodes)") (simp add: home_nodes_def)

text \<open>C13: between two different accepted names, a rename succeeds exactly when the old file
  exists and the new name is free; then the content has moved to the new place and the index
  entry with its size too. Otherwise it returns false and changes neither disk nor index.
  Both lock references are given back. Between equal accepted names it returns true without
  looking for the file.\<close>

theorem rename_moves_file:
  assumes "file_path u a \<noteq> file_path u b" and "lockable w (file_path u a)" and "lockable w (file_path u b)"
    and "healthy (w_fs w)" and "disk_ok (w_fs w)" and "entry_of (w_fs w) u a" and "entry_of (w_fs w) u b"
    and "fs_at (w_fs w) (file_at (w_fs w) u a) \<noteq> Some Dir" and "rename_file u a b w = (ok, v)"
  shows "(ok \<longleftrightarrow> is_valid_filename a \<and> is_valid_filename b
        \<and> fs_at (w_fs w) (file_at (w_fs w) u a) \<noteq> None \<and> fs_at (w_fs w) (file_at (w_fs w) u b) = None)
    \<and> fs_at (w_fs v) = (if ok then (fs_at (w_fs w))(file_at (w_fs w) u a := None,
          file_at (w_fs w) u b := fs_at (w_fs w) (file_at (w_fs w) u a)) else fs_at (w_fs w))
    \<and> idx_look (w_index v) = (if ok then (idx_look (w_index w))((normalize_path (user_dir u), a) := None,
          (normalize_path (user_dir u), b) \<mapsto> (get_file_size (w_index w) (user_dir u) a, w_clock w (w_time w)))
        else idx_look (w_index w))
    \<and> locks_kept w v \<and> (is_valid_filename a \<longrightarrow> rename_file u a a w = (True, w))"
proof (cases "is_valid_filename a \<and> is_valid_filename b
    \<and> fs_at (w_fs w) (file_at (w_fs w) u a) \<noteq> None \<and> fs_at (w_fs w) (file_at (w_fs w) u b) = None")
  case True
  then obtain c where c: "fs_at (w_fs w) (file_at (w_fs w) u a) = Some (File c)"
    using assms(8) by (metis node.exhaust option.exhaust)
  have "is_valid_filename a" "is_valid_filename b" "fs_at (w_fs w) (file_at (w_fs w) u b) = None"
    using True by simp_all
  then obtain v' where "rename_file u a b w = (True, v')"
      "fs_at (w_fs v') = (fs_at (w_fs w))(file_at (w_fs w) u a := None, file_at (w_fs w) u b \<mapsto> File c)"
      "w_index v' = add_file (remove_file (w_index w) (user_dir u) a) (user_dir u) b
           (get_file_size (w_index w) (user_dir u) a) (w_clock w (w_time w))" "locks_kept w v'"
    using rename_complete [OF _ _ assms(1-7) c] by metis
  with True c assms(9) rename_same_name show ?thesis
    by (simp add: idx_look_add_file idx_look_remove_file)
next
  case False
  then obtain v' where "rename_file u a b w = (False, v')" "fs_at (w_fs v') = fs_at (w_fs w)"
      "w_index v' = w_index w" "locks_kept w v'"
    using rename_refused [OF assms(1-4)] by metis
  with False assms(9) rename_same_name show ?thesis by auto
qed

theorem rename_moves_file_witness:
  "let (ok, v) = rename_file ''bob'' ''a'' ''b'' (sample_world home_nodes)
   in ok \<and> fs_at (w_fs v) [''storage'', ''bob'', ''b''] = Some (File ''xyz'')
      \<and> fs_at (w_fs v) [''storage'', ''bob'', ''a''] = None"
proof -
  have "file_path ''bob'' ''a'' \<noteq> file_path ''bob'' ''b''" by (simp add: file_path_plain)
  then show ?thesis
    using rename_moves_file [of "''bob''" "''a''" "''b''" "sample_world home_nodes"]
    by (cases "rename_file ''bob'' ''a'' ''b'' (sample_world home_nodes)") simp
qed

text \<open>
  The streams do not throw: once a write has failed the remaining blocks are received and
  dropped, and the loop still ends with true.
\<close>

lemma save_loop_bad:
  "recv_contract s \<Longrightarrow> recv_reliable s \<Longrightarrow> n \<le> length (sk_rx s) \<Longrightarrow> \<not> of_good h \<Longrightarrow>
   \<exists>t. save_loop h n f s = (True, f, t)"
proof (induction h n f s rule: save_loop.induct)
  case (1 h n f s)
  let ?c = "min TRANSFER_BUFFER_SIZE n"
  show ?case
  proof (cases "0 < n")
    case False
    then show ?thesis by (simp add: save_loop.simps)
  next
    case True
    have len: "length (take ?c (sk_rx s)) = ?c" using "1.prems"(3) by simp
    obtain t where t: "recv_all s ?c = (Some (take ?c (sk_rx s)), t)" "sk_rx t = drop ?c (sk_rx s)" "only_reads s t"
      using recv_all_append [OF "1.prems"(1,2), of "take ?c (sk_rx s)" "drop ?c (sk_rx s)"] chunk_int [of n]
      by (metis append_take_drop_id len)
    have w: "ofstream_write f h (take ?c (sk_rx s)) = (h, f)"
      using "1.prems"(4) by (simp add: ofstream_write_def)
    have "recv_contract t" "recv_reliable t" "n - ?c \<le> length (sk_rx t)" "\<not> of_good h"
      using "1.prems" t only_reads_contracts [OF t(3)] by simp_all
    then obtain u where "save_loop h (n - ?c) f t = (True, f, u)"
      using "1.IH" [OF True refl t(1) [symmetric] refl w [symmetric]] by blast
    with True t(1) w show ?thesis by (subst save_loop.simps) (simp add: Let_def)
  qed
qed

text \<open>C18: no write to the file is checked. If the first write fails, the upload still takes the
  whole payload, returns true and enters the announced size in the index, while the file on
  disk is empty.\<close>

theorem write_error_unnoticed:
  assumes "fs_find (w_fs w) (user_path u) = Some Dir" and "entry_of (w_fs w) u n"
    and "fs_at (w_fs w) (file_at (w_fs w) u n) \<noteq> Some Dir" and "is_valid_filename n"
    and "\<not> fs_fault (w_fs w) (fs_calls (w_fs w))" and "\<not> fs_fault (w_fs w) (Suc (fs_calls (w_fs w)))"
    and "fs_fault (w_fs w) (Suc (Suc (fs_calls (w_fs w))))"
    and "recv_contract s" and "recv_reliable s" and "unat sz \<le> length (sk_rx s)" and "0 < sz"
    and "save_file u n sz w s = (ok, v, t)"
  shows "ok \<and> fs_at (w_fs v) (file_at (w_fs w) u n) = Some (File [])
    \<and> idx_look (w_index v) (normalize_path (user_dir u), n) = Some (sz, w_clock w (w_time w))"
proof -
  let ?f = "w_fs w" and ?p = "file_path u n" and ?k = "fs_calls (w_fs w)"
  let ?l = "fs_resolve ?f ?p" and ?c = "min TRANSFER_BUFFER_SIZE (unat sz)"
  let ?h = "\<lparr>of_loc = ?l, of_good = True\<rparr>" and ?h' = "\<lparr>of_loc = ?l, of_good = False\<rparr>"
  define g where "g = fs_put (?f\<lparr>fs_calls := Suc (Suc ?k)\<rparr>) ?l (File [])"
  have home: "fs_exists ?f (user_path u) = (Value True, ?f\<lparr>fs_calls := Suc ?k\<rparr>)"
    using assms(1,5) by (simp add: fs_exists_def fs_tick_def)
  have "fs_is_dir ?f (butlast ?l)"
    using assms(1,2) by (simp add: entry_of_def file_at_def home_at_def fs_is_dir_def fs_find_def)
  then have opened: "ofstream_open (?f\<lparr>fs_calls := Suc ?k\<rparr>) ?p = (Some ?h, g)"
    using assms(2,3,6) by (simp add: ofstream_open_def fs_tick_def Let_def entry_of_def file_at_def g_def)
  have "?c \<le> length (sk_rx s)" "length (take ?c (sk_rx s)) = ?c" using assms(10) by simp_all
  then obtain t1 where t1: "recv_all s ?c = (Some (take ?c (sk_rx s)), t1)" "sk_rx t1 = drop ?c (sk_rx s)" "only_reads s t1"
    using recv_all_append [OF assms(8,9), of "take ?c (sk_rx s)" "drop ?c (sk_rx s)"] chunk_int [of "unat sz"]
    by (metis append_take_drop_id)
  let ?g = "g\<lparr>fs_calls := Suc (Suc (Suc ?k))\<rparr>"
  have "fs_calls g = Suc (Suc ?k)" "fs_fault g = fs_fault ?f" by (simp_all add: g_def fs_put_def)
  then have w: "ofstream_write g ?h (take ?c (sk_rx s)) = (?h', ?g)"
    using assms(7) by (simp add: ofstream_write_def fs_tick_def)
  have prems: "recv_contract t1" "recv_reliable t1" "unat sz - ?c \<le> length (sk_rx t1)" "\<not> of_good ?h'"
    using only_reads_contracts [OF t1(3)] t1(2) assms(8-10) by simp_all
  obtain t2 where t2: "save_loop ?h' (unat sz - ?c) ?g t1 = (True, ?g, t2)"
    using save_loop_bad [of t1 "unat sz - ?c" ?h' ?g, OF prems] by blast
  have "save_loop ?h (unat sz) g s = (True, ?g, t2)"
    using t1(1) w t2 assms(11) by (subst save_loop.simps) (simp add: Let_def word_less_nat_alt)
  then have "save_file u n sz w s = (True, unlock_ref ?p (index_add (user_dir u) n sz (set_fs ?g (lock_ref ?p w))), t2)"
    using home opened assms(4) by (simp add: save_file_def save_try_def save_body_def Let_def)
  with assms(12) show ?thesis by (auto simp: g_def file_at_def idx_look_add_file)
qed

definition full_disk_world :: world where
  "full_disk_world = set_fs (sample_disk home_nodes\<lparr>fs_fault := \<lambda>i. 2 \<le> i\<rparr>) (sample_world home_nodes)"

theorem write_error_unnoticed_witness:
  "let (ok, v, t) = save_file ''bob'' ''new'' 5 full_disk_world (prompt_socket ''hello'')
   in ok \<and> fs_at (w_fs v) [''storage'', ''bob'', ''new''] = Some (File [])"
proof -
  have f: "w_fs full_disk_world = sample_disk home_nodes\<lparr>fs_fault := \<lambda>i. 2 \<le> i\<rparr>" by (simp add: full_disk_world_def)
  have at: "file_at (w_fs full_disk_world) ''bob'' ''new'' = [''storage'', ''bob'', ''new'']"
    "home_at (w_fs full_disk_world) ''bob'' = [''storage'', ''bob'']"
    unfolding f by (simp_all add: file_at_def home_at_def resolve_file_path resolve_user_path)
  have "fs_find (w_fs full_disk_world) (user_path ''bob'') = Some Dir"
    unfolding f by (simp add: fs_find_def fs_at_def resolve_user_path)
  moreover have "entry_of (w_fs full_disk_world) ''bob'' ''new''" by (simp add: entry_of_def at)
  moreover have "fs_at (w_fs full_disk_world) (file_at (w_fs full_disk_world) ''bob'' ''new'') \<noteq> Some Dir"
    unfolding at unfolding f by (simp add: fs_at_def home_nodes_def)
  moreover have "fs_fault (w_fs full_disk_world) = (\<lambda>i. 2 \<le> i)" "fs_calls (w_fs full_disk_world) = 0"
    unfolding f by (simp_all add: sample_disk_def)
  ultimately show ?thesis
    using write_error_unnoticed [of full_disk_world "''bob''" "''new''" "prompt_socket ''hello''" 5]
    by (cases "save_file ''bob'' ''new'' 5 full_disk_world (prompt_socket ''hello'')") (simp add: at)
qed

text \<open>The text of a listing, from names, sizes and times.\<close>

definition render_listing :: "(bytes \<times> u64 \<times> bytes) list \<Rightarrow> bytes" where
  "render_listing fs = (if fs = [] then ''(Empty)'' else concat (map (\<lambda>(n, sz, time).
     n @ '' ('' @ to_string (unat sz) @ '' bytes) - '' @ time @ [CHR 0x0A]) fs))"

lemma list_files_shape:
  assumes "index_ok (w_index w)"
  shows "\<exists>fs. list_files u w = render_listing fs
    \<and> distinct (map fst fs)
    \<and> set fs = {(n, sz, time). idx_look (w_index w) (normalize_path (user_dir u), n) = Some (sz, time)}"
proof -
  let ?fs = "list_directory (w_index w) (user_dir u)"
  let ?info = "map (\<lambda>md. (md_filename md, md_size md, md_upload_time md)) ?fs"
  have line: "list_line = (\<lambda>(n, sz, time). n @ '' ('' @ to_string (unat sz) @ '' bytes) - '' @ time @ [CHR 0x0A])
      \<circ> (\<lambda>md. (md_filename md, md_size md, md_upload_time md))"
    by (simp add: list_line_def fun_eq_iff)
  have "list_files u w = render_listing ?info"
    by (simp only: list_files_def render_listing_def Let_def line map_map map_is_Nil_conv)
  moreover have "distinct (map fst ?info)"
    using list_directory_look(2) [OF assms] by (simp add: o_def)
  ultimately show ?thesis using list_directory_look(1) [OF assms, of "user_dir u"] by blast
qed

end
