(* ===== verification/Store_Sync.thy ===== *)
theory Store_Sync
  imports File_Store
begin

text \<open>
  The index of theory \<open>Metadata\<close> and the disk stay in step: the server starts with an index
  rebuilt from the disk, and every file operation that runs to its end keeps them equal. The
  statement is an invariant of the step relation whose steps are the complete file operations.
\<close>

section \<open>The invariant\<close>

text \<open>
  The set N of (user, file name) pairs under consideration has ordinary places: the path built
  for such a pair leads to the entry of that name in the user's directory under the storage
  directory.
\<close>

definition ordinary :: "filesys \<Rightarrow> (bytes \<times> bytes) set \<Rightarrow> bool" where
  "ordinary f N \<longleftrightarrow> (\<forall>(u, n)\<in>N. clean_name u \<and> home_at f u = fs_resolve f ''storage'' @ [u]
     \<and> file_at f u n = fs_resolve f ''storage'' @ [u, n])"

definition size_on_disk :: "filesys \<Rightarrow> bytes \<Rightarrow> bytes \<Rightarrow> u64 option" where
  "size_on_disk f u n = (case fs_at f (file_at f u n) of
       Some (File c) \<Rightarrow> Some (word_of_nat (length c)) | _ \<Rightarrow> None)"

definition in_step :: "(bytes \<times> bytes) set \<Rightarrow> world \<Rightarrow> bool" where
  "in_step N w \<longleftrightarrow> healthy (w_fs w) \<and> disk_ok (w_fs w) \<and> ordinary (w_fs w) N \<and> index_ok (w_index w)
     \<and> (\<forall>(u, n)\<in>N. way_clear (w_fs w) (home_at (w_fs w) u)
          \<and> fs_at (w_fs w) (file_at (w_fs w) u n) \<noteq> Some Dir
          \<and> idx_size (w_index w) (user_dir u, n) = size_on_disk (w_fs w) u n)"

section \<open>The operations as steps\<close>

text \<open>
  A complete operation of any session. The names are ordinary, the client sends the payload it
  announced, and the lock table has room for the references taken. A rename to the same name
  or of names the code refuses is a step as well.
\<close>

inductive file_step :: "(bytes \<times> bytes) set \<Rightarrow> world \<Rightarrow> world \<Rightarrow> bool" for N where
  upload: "(u, n) \<in> N \<Longrightarrow> recv_contract s \<Longrightarrow> recv_reliable s \<Longrightarrow> unat sz \<le> length (sk_rx s) \<Longrightarrow>
     lockable w (file_path u n) \<Longrightarrow> save_file u n sz w s = (r, v, t) \<Longrightarrow> file_step N w v"
| download: "stream_file_to_socket u n w s = (r, v, t) \<Longrightarrow> file_step N w v"
| delete: "(u, n) \<in> N \<Longrightarrow> lockable w (file_path u n) \<Longrightarrow> delete_file u n w = (r, v) \<Longrightarrow> file_step N w v"
| rename: "(u, a) \<in> N \<Longrightarrow> (u, b) \<in> N \<Longrightarrow> lockable w (file_path u a) \<Longrightarrow> lockable w (file_path u b) \<Longrightarrow>
     rename_file u a b w = (r, v) \<Longrightarrow> file_step N w v"

lemma ordinary_env: "fs_env g = fs_env f \<Longrightarrow> ordinary g N = ordinary f N"
  using places_env [of g f] by (simp add: ordinary_def fs_env_def)

lemma ordinaryD:
  "ordinary f N \<Longrightarrow> (u, n) \<in> N \<Longrightarrow> clean_name u \<and> home_at f u = fs_resolve f ''storage'' @ [u]
     \<and> file_at f u n = fs_resolve f ''storage'' @ [u, n]"
  by (auto simp: ordinary_def)

lemma ordinary_entry: "ordinary f N \<Longrightarrow> (u, n) \<in> N \<Longrightarrow> entry_of f u n"
  using ordinaryD [of f N u n] by (simp add: entry_of_def butlast_append)

lemma ordinary_same: "ordinary f N \<Longrightarrow> (u, n) \<in> N \<Longrightarrow> (v, m) \<in> N \<Longrightarrow>
    file_at f u n = file_at f v m \<longleftrightarrow> u = v \<and> n = m"
  using ordinaryD [of f N u n] ordinaryD [of f N v m] by auto

lemma ordinary_below: "ordinary f N \<Longrightarrow> (u, n) \<in> N \<Longrightarrow> (v, m) \<in> N \<Longrightarrow> \<not> prefix (file_at f u n) (home_at f v)"
  using ordinaryD [of f N u n] ordinaryD [of f N v m] by auto

lemma ordinary_dir: "ordinary f N \<Longrightarrow> (u, n) \<in> N \<Longrightarrow> normalize_path (user_dir u) = user_dir u"
  using ordinaryD normalize_user_dir by blast

text \<open>
  All four operations change the disk in one of two ways at ordinary places: a file appears or
  disappears there. The rest of the invariant follows from how the index moves along.
\<close>

lemma idx_size_add: "idx_size (add_file ix d n sz now) = (idx_size ix)((normalize_path d, n) \<mapsto> sz)"
  by (simp add: idx_size_def idx_look_add_file fun_eq_iff)

lemma idx_size_remove: "idx_size (remove_file ix d n) = (idx_size ix)((normalize_path d, n) := None)"
  by (simp add: idx_size_def idx_look_remove_file fun_eq_iff)

lemma way_clear_put:
  "way_clear f p \<Longrightarrow> \<not> prefix l p \<Longrightarrow> fs_at g = (fs_at f)(l := x) \<Longrightarrow> way_clear g p"
  by (auto simp: way_clear_def)

lemma in_step_change:
  assumes "in_step N w" and "(u, n) \<in> N" and "x \<noteq> Some Dir" and "fs_env (w_fs v) = fs_env (w_fs w)"
    and "\<And>u' n'. (u', n') \<in> N \<Longrightarrow> fs_at (w_fs v) (file_at (w_fs w) u' n') =
           (if (u', n') = (u, n) then x else fs_at (w_fs w) (file_at (w_fs w) u' n'))"
    and "\<And>u' n'. (u', n') \<in> N \<Longrightarrow> way_clear (w_fs v) (home_at (w_fs w) u')"
    and "disk_ok (w_fs v)" and "index_ok (w_index v)"
    and "idx_size (w_index v) = (idx_size (w_index w))((user_dir u, n) :=
           (case x of Some (File c) \<Rightarrow> Some (word_of_nat (length c)) | _ \<Rightarrow> None))"
  shows "in_step N v"
proof -
  let ?f = "w_fs w"
  have inv: "healthy ?f" "ordinary ?f N" and at: "\<And>u n. (u, n) \<in> N \<Longrightarrow> way_clear ?f (home_at ?f u)
      \<and> fs_at ?f (file_at ?f u n) \<noteq> Some Dir \<and> idx_size (w_index w) (user_dir u, n) = size_on_disk ?f u n"
    using assms(1) by (auto simp: in_step_def)
  note env = places_env [OF assms(4)]
  have "way_clear (w_fs v) (home_at ?f u') \<and> fs_at (w_fs v) (file_at ?f u' n') \<noteq> Some Dir
      \<and> idx_size (w_index v) (user_dir u', n') = size_on_disk (w_fs v) u' n'" if "(u', n') \<in> N" for u' n'
    using at [OF that] assms(3) assms(5,6) [OF that] by (auto simp: assms(9) size_on_disk_def env)
  then show ?thesis
    using healthy_env [OF assms(4)] ordinary_env [OF assms(4)] inv assms(7,8) env
    unfolding in_step_def by auto
qed

text \<open>The two changes of the disk, as the previous lemma wants them.\<close>

lemma change_at:
  assumes "ordinary f N" and "(u, n) \<in> N" and "(u', n') \<in> N"
    and "fs_at g = (fs_at f)(file_at f u n := x)"
  shows "fs_at g (file_at f u' n') = (if (u', n') = (u, n) then x else fs_at f (file_at f u' n'))"
  using ordinary_same [OF assms(1,3,2)] assms(4) by auto

lemma change_clear:
  assumes "ordinary f N" and "(u, n) \<in> N" and "(u', n') \<in> N" and "way_clear f (home_at f u')"
    and "fs_at g = (fs_at f)(file_at f u n := x)"
  shows "way_clear g (home_at f u')"
  using ordinary_below [OF assms(1-3)] assms(4) way_clear_put [OF _ _ assms(5)] by blast

lemma in_step_at:
  assumes "in_step N w" and "(u, n) \<in> N" and "x \<noteq> Some Dir" and "fs_env (w_fs v) = fs_env (w_fs w)"
    and at: "fs_at (w_fs v) = (fs_at (w_fs w))(file_at (w_fs w) u n := x)"
    and "disk_ok (w_fs v)" and "index_ok (w_index v)"
    and "idx_size (w_index v) = (idx_size (w_index w))((user_dir u, n) :=
           (case x of Some (File c) \<Rightarrow> Some (word_of_nat (length c)) | _ \<Rightarrow> None))"
  shows "in_step N v"
proof (rule in_step_change [OF assms(1-4) _ _ assms(6-8)])
  have ord: "ordinary (w_fs w) N" using assms(1) by (simp add: in_step_def)
  fix u' n'
  assume in': "(u', n') \<in> N"
  show "fs_at (w_fs v) (file_at (w_fs w) u' n') =
      (if (u', n') = (u, n) then x else fs_at (w_fs w) (file_at (w_fs w) u' n'))"
    by (rule change_at [OF ord assms(2) in' at])
  show "way_clear (w_fs v) (home_at (w_fs w) u')"
    using assms(1) in' by (intro change_clear [OF ord assms(2) in' _ at]) (auto simp: in_step_def)
qed

lemma with_dirs_home:
  assumes "ordinary f N" and "(u, n) \<in> N" and "(v, m) \<in> N"
  shows "with_dirs (fs_at f) (home_at f u) (file_at f v m) = fs_at f (file_at f v m)"
  using ordinary_below [OF assms(1,3,2)] by (auto simp: with_dirs_def)

lemma in_step_same:
  assumes "in_step N w" and "fs_env (w_fs v) = fs_env (w_fs w)" and "fs_at (w_fs v) = fs_at (w_fs w)"
    and "w_index v = w_index w"
  shows "in_step N v"
  using assms healthy_env [OF assms(2)] ordinary_env [OF assms(2)] places_env [OF assms(2)]
  by (simp add: in_step_def disk_ok_def way_clear_def size_on_disk_def)

section \<open>Every operation keeps them in step\<close>

lemma in_stepD:
  assumes "in_step N w" and "(u, n) \<in> N"
  shows "healthy (w_fs w)" and "disk_ok (w_fs w)" and "ordinary (w_fs w) N" and "index_ok (w_index w)"
    and "way_clear (w_fs w) (home_at (w_fs w) u)" and "fs_at (w_fs w) (file_at (w_fs w) u n) \<noteq> Some Dir"
    and "idx_size (w_index w) (user_dir u, n) = size_on_disk (w_fs w) u n"
    and "entry_of (w_fs w) u n" and "normalize_path (user_dir u) = user_dir u"
  using assms ordinary_entry [of "w_fs w" N u n] ordinary_dir [of "w_fs w" N u n] by (auto simp: in_step_def)

lemma ordinary_nonempty: "ordinary f N \<Longrightarrow> (u, n) \<in> N \<Longrightarrow> file_at f u n \<noteq> []"
  by (auto simp: ordinary_def)

lemma in_step_upload:
  assumes "in_step N w" and "(u, n) \<in> N" and "recv_contract s" and "recv_reliable s"
    and "unat sz \<le> length (sk_rx s)" and "lockable w (file_path u n)" and "save_file u n sz w s = (r, v, t)"
  shows "in_step N v"
proof -
  note inv = in_stepD [OF assms(1)]
  note here = inv [OF assms(2)]
  let ?f = "w_fs w"
  show ?thesis
  proof (cases "is_valid_filename n")
    case True
    have can: "can_store ?f u n" using here by (simp add: can_store_def)
    let ?c = "take (unat sz) (sk_rx s)"
    obtain v' t' where v: "save_file u n sz w s = (True, v', t')"
        "fs_at (w_fs v') = (with_dirs (fs_at ?f) (home_at ?f u))(file_at ?f u n \<mapsto> File ?c)"
        "w_index v' = add_file (w_index w) (user_dir u) n sz (w_clock w (w_time w))"
        "fs_env (w_fs v') = fs_env ?f"
      using save_file_complete [OF can True assms(6,3-5)] by metis
    then have eq: "v' = v" using assms(7) by simp
    have size: "(word_of_nat (length ?c) :: u64) = sz" using assms(5) by simp
    show ?thesis
    proof (rule in_step_change [OF assms(1,2), of "Some (File ?c)"])
      show "fs_at (w_fs v) (file_at ?f u' n') = (if (u', n') = (u, n) then Some (File ?c) else fs_at ?f (file_at ?f u' n'))"
        if "(u', n') \<in> N" for u' n'
        using ordinary_same [OF here(3) that assms(2)] with_dirs_home [OF here(3) assms(2) that] v(2) eq by auto
      show "way_clear (w_fs v) (home_at ?f u')" if "(u', n') \<in> N" for u' n'
        using inv(5) [OF that] ordinary_below [OF here(3) assms(2) that] v(2) eq
        by (auto simp: way_clear_def with_dirs_def)
      show "disk_ok (w_fs v)" using disk_ok_stored [OF can v(2)] eq by simp
      show "index_ok (w_index v)" using v(3) eq here(4) by (simp add: index_ok_add_file)
    qed (use v eq size here(9) in \<open>simp_all add: idx_size_add\<close>)
  next
    case False
    obtain v' t' where v: "save_file u n sz w s = (False, v', t')" "fs_at (w_fs v') = with_dirs (fs_at ?f) (home_at ?f u)"
        "w_index v' = w_index w" "fs_env (w_fs v') = fs_env ?f"
      using save_file_rejected [OF here(1,2,5) False assms(3-5)] by metis
    then have eq: "v' = v" using assms(7) by simp
    show ?thesis
    proof (rule in_step_change [OF assms(1,2), of "fs_at ?f (file_at ?f u n)"])
      show "fs_at (w_fs v) (file_at ?f u' n') = (if (u', n') = (u, n) then fs_at ?f (file_at ?f u n) else fs_at ?f (file_at ?f u' n'))"
        if "(u', n') \<in> N" for u' n'
        using with_dirs_home [OF here(3) assms(2) that] v(2) eq by auto
      show "way_clear (w_fs v) (home_at ?f u')" if "(u', n') \<in> N" for u' n'
        using inv(5) [OF that] v(2) eq by (auto simp: way_clear_def with_dirs_def)
      show "disk_ok (w_fs v)" using disk_ok_with_dirs [OF here(2,5) v(2)] eq by simp
    qed (use v eq here in \<open>simp_all add: size_on_disk_def fun_upd_idem\<close>)
  qed
qed

lemma in_step_delete:
  assumes "in_step N w" and "(u, n) \<in> N" and "lockable w (file_path u n)" and "delete_file u n w = (r, v)"
  shows "in_step N v"
proof -
  note inv = in_stepD [OF assms(1)]
  note here = inv [OF assms(2)]
  let ?f = "w_fs w"
  show ?thesis
  proof (cases "is_valid_filename n \<and> fs_at ?f (file_at ?f u n) \<noteq> None")
    case True
    then obtain c where c: "fs_at ?f (file_at ?f u n) = Some (File c)"
      using here(6) by (metis node.exhaust option.exhaust)
    obtain v' where v: "delete_file u n w = (True, v')"
        "fs_at (w_fs v') = (fs_at ?f)(file_at ?f u n := None)"
        "w_index v' = remove_file (w_index w) (user_dir u) n" "fs_env (w_fs v') = fs_env ?f"
      using delete_complete [OF _ assms(3) here(1) c] True by metis
    then have eq: "v' = v" using assms(4) by simp
    have "disk_ok (fs_del ?f (file_at ?f u n))" by (rule disk_ok_del_file [OF here(2) c])
    then have "disk_ok (w_fs v)" using v(2) eq by (simp add: disk_ok_def)
    show ?thesis
    proof (rule in_step_at [OF assms(1,2), of None])
      show "index_ok (w_index v)" using v(3) eq index_ok_remove_file [OF here(4)] by simp
    qed (use v eq here(9) \<open>disk_ok (w_fs v)\<close> in \<open>simp_all add: idx_size_remove\<close>)
  next
    case False
    obtain v' where "delete_file u n w = (False, v')" "fs_at (w_fs v') = fs_at ?f" "w_index v' = w_index w"
        "fs_env (w_fs v') = fs_env ?f"
      using delete_missing [OF assms(3) here(1)] False by metis
    with assms(4) show ?thesis by (intro in_step_same [OF assms(1)]) simp_all
  qed
qed

text \<open>In between, a rename has taken the old name away.\<close>

lemma in_step_gone:
  assumes "in_step N w" and "(u, a) \<in> N" and c: "fs_at (w_fs w) (file_at (w_fs w) u a) = Some (File c)"
    and x: "x = set_fs (fs_del (w_fs w) (file_at (w_fs w) u a)) (index_remove (user_dir u) a w)"
  shows "in_step N x"
proof -
  note A = in_stepD [OF assms(1,2)]
  show ?thesis
  proof (rule in_step_at [OF assms(1,2), of None])
    show "disk_ok (w_fs x)" using disk_ok_del_file [OF A(2) c] by (simp add: x)
    show "index_ok (w_index x)" using index_ok_remove_file [OF A(4)] by (simp add: x)
  qed (use A(9) in \<open>simp_all add: x idx_size_remove\<close>)
qed

lemma get_file_size_idx: "get_file_size ix d n = (case idx_size ix (normalize_path d, n) of None \<Rightarrow> 0 | Some z \<Rightarrow> z)"
  by (auto simp: get_file_size_look idx_size_def split: option.split)

text \<open>A rename is a deletion followed by the appearance of the new file.\<close>

lemma in_step_rename:
  assumes "in_step N w" and "(u, a) \<in> N" and "(u, b) \<in> N" and "lockable w (file_path u a)"
    and "lockable w (file_path u b)" and "rename_file u a b w = (r, v)"
  shows "in_step N v"
proof (cases "file_path u a = file_path u b")
  case True
  with assms(6) have "v = w" by (auto simp: rename_file_def Let_def split: if_splits)
  with assms(1) show ?thesis by simp
next
  case ne: False
  note inv = in_stepD [OF assms(1)]
  note A = inv [OF assms(2)] and B = inv [OF assms(3)]
  let ?f = "w_fs w" and ?d = "user_dir u"
  show ?thesis
  proof (cases "is_valid_filename a \<and> is_valid_filename b \<and> fs_at ?f (file_at ?f u a) \<noteq> None
      \<and> fs_at ?f (file_at ?f u b) = None")
    case True
    then obtain c where c: "fs_at ?f (file_at ?f u a) = Some (File c)"
      using A(6) by (metis node.exhaust option.exhaust)
    obtain v' where v: "rename_file u a b w = (True, v')"
        "fs_at (w_fs v') = (fs_at ?f)(file_at ?f u a := None, file_at ?f u b \<mapsto> File c)"
        "w_index v' = add_file (remove_file (w_index w) ?d a) ?d b (get_file_size (w_index w) ?d a) (w_clock w (w_time w))"
        "fs_env (w_fs v') = fs_env ?f"
      using rename_complete [OF _ _ ne assms(4,5) A(1,2,8) B(8) c] True by metis
    then have eq: "v' = v" using assms(6) by simp
    define x where "x = set_fs (fs_del ?f (file_at ?f u a)) (index_remove ?d a w)"
    have x: "fs_env (w_fs x) = fs_env ?f" "fs_at (w_fs x) = (fs_at ?f)(file_at ?f u a := None)" "disk_ok (w_fs x)"
        "w_index x = remove_file (w_index w) ?d a"
      using disk_ok_del_file [OF A(2) c] by (simp_all add: x_def)
    have inx: "in_step N x" by (rule in_step_gone [OF assms(1,2) c x_def])
    note B' = in_stepD [OF inx assms(3)]
    have size: "get_file_size (w_index w) ?d a = word_of_nat (length c)"
      using A(7,9) c by (auto simp: get_file_size_look idx_size_def size_on_disk_def)
    have at: "file_at (w_fs x) = file_at ?f" using places_env [OF x(1)] by simp
    have dir: "fs_is_dir (w_fs x) (butlast (file_at ?f u b))"
      using file_in_home [OF A(2,8)] c A(8) B(8) ordinary_below [OF A(3) assms(2,2)]
      by (auto simp: entry_of_def fs_is_dir_def x(2))
    have "disk_ok (fs_put (w_fs x) (file_at ?f u b) (File c))"
      using x(3) B(8) dir B'(6) at by (intro disk_ok_put_file) (simp_all add: entry_of_def)
    then have "disk_ok (w_fs v)" using v(2) eq x(2) by (simp add: disk_ok_def)
    show ?thesis
    proof (rule in_step_at [OF inx assms(3), of "Some (File c)"])
      show "fs_at (w_fs v) = (fs_at (w_fs x))(file_at (w_fs x) u b := Some (File c))"
        using v(2) eq x(2) at by simp
      show "index_ok (w_index v)" using v(3) eq x(4) index_ok_add_file [OF B'(4)] by simp
      show "fs_env (w_fs v) = fs_env (w_fs x)" using v(4) eq x(1) by simp
    qed (use v(3) eq x(4) B'(9) size \<open>disk_ok (w_fs v)\<close> in \<open>simp_all add: idx_size_add\<close>)
  next
    case False
    obtain v' where "rename_file u a b w = (False, v')" "fs_at (w_fs v') = fs_at ?f" "w_index v' = w_index w"
        "fs_env (w_fs v') = fs_env ?f"
      using rename_refused [OF ne assms(4,5) A(1)] False by metis
    with assms(6) show ?thesis by (intro in_step_same [OF assms(1)]) simp_all
  qed
qed

text \<open>The state of the server when \<open>main\<close> has rebuilt the index and starts to serve.\<close>

definition booted :: "(bytes \<times> bytes) set \<Rightarrow> world \<Rightarrow> bool" where
  "booted N w \<longleftrightarrow> (\<exists>f ix k k'. healthy f \<and> disk_ok f \<and> distinct (map fst (fs_nodes f))
     \<and> fs_find f ''storage'' = Some Dir \<and> ordinary f N
     \<and> (\<forall>v. fs_at f (fs_resolve f ''storage'' @ [v]) = Some Dir \<longrightarrow> clean_name v)
     \<and> (\<forall>(u, n)\<in>N. way_clear f (home_at f u) \<and> fs_at f (file_at f u n) \<noteq> Some Dir)
     \<and> rebuild_from_disk (w_clock w) ix k f ''storage'' = (Value (), w_index w, k', w_fs w))"

lemma disk_size_ordinary:
  assumes "disk_ok f" and "ordinary f N" and "(u, n) \<in> N"
  shows "disk_size f (fs_resolve f ''storage'') u n = size_on_disk f u n"
proof -
  note place = ordinaryD [OF assms(2,3)]
  have "fs_at f (home_at f u) = Some Dir" if "fs_at f (file_at f u n) \<noteq> None"
  proof -
    have "strict_prefix (home_at f u) (file_at f u n)" "home_at f u \<noteq> []"
      using place by (auto simp: strict_prefix_def)
    with that assms(1) show ?thesis unfolding disk_ok_def by blast
  qed
  then show ?thesis using place
    by (cases "fs_at f (file_at f u n)") (auto simp: disk_size_def size_on_disk_def)
qed

lemma booted_in_step:
  assumes "booted N w"
  shows "in_step N w"
proof -
  from assms obtain f ix k k' where f: "healthy f" "disk_ok f" "distinct (map fst (fs_nodes f))"
      "fs_find f ''storage'' = Some Dir" "ordinary f N"
      "\<And>v. fs_at f (fs_resolve f ''storage'' @ [v]) = Some Dir \<Longrightarrow> clean_name v"
      "\<And>u n. (u, n) \<in> N \<Longrightarrow> way_clear f (home_at f u) \<and> fs_at f (file_at f u n) \<noteq> Some Dir"
    and run: "rebuild_from_disk (w_clock w) ix k f ''storage'' = (Value (), w_index w, k', w_fs w)"
    unfolding booted_def by blast
  obtain ix' m j where "rebuild_from_disk (w_clock w) ix k f ''storage'' = (Value (), ix', m, f\<lparr>fs_calls := j\<rparr>)"
    and ok: "index_ok ix'" and sz: "\<And>u n. idx_size ix' (user_dir u, n) = disk_size f (fs_resolve f ''storage'') u n"
    using rebuild_from_disk_healthy [OF f(1,3,4,6)] by metis
  with run have w: "w_index w = ix'" "w_fs w = f\<lparr>fs_calls := j\<rparr>" by simp_all
  have env: "fs_env (w_fs w) = fs_env f" by (simp add: w)
  show ?thesis
    using f ok sz disk_size_ordinary [OF f(2,5)] healthy_env [OF env] ordinary_env [OF env] places_env [OF env]
    unfolding in_step_def w by (auto simp: way_clear_def size_on_disk_def)
qed

interpretation sync: invariant_of_steps "booted N" "file_step N" "in_step N" for N
proof unfold_locales
  show "in_step N w" if "booted N w" for w using that by (rule booted_in_step)
  show "in_step N t" if "in_step N w" "file_step N w t" for w t
    using that(2,1)
    by (cases rule: file_step.cases)
      (blast intro: in_step_upload in_step_delete in_step_rename in_step_same dest: stream_frame)+
qed

section \<open>Properties\<close>

text \<open>C9: from start-up on, through any sequence of complete uploads, downloads, deletions and
  renames of any users, the index tells the truth about the disk: a file is known exactly
  when it is there, and the size a download will announce is the length of its content.\<close>

theorem index_tracks_disk:
  assumes "booted N w" and "(file_step N)\<^sup>*\<^sup>* w v" and "(u, n) \<in> N"
  shows "(file_exists (w_index v) (user_dir u) n \<longleftrightarrow> (\<exists>c. fs_at (w_fs v) (file_at (w_fs v) u n) = Some (File c)))
    \<and> (\<forall>c. fs_at (w_fs v) (file_at (w_fs v) u n) = Some (File c) \<longrightarrow>
          fm_get_file_size u n v = word_of_nat (length c))
    \<and> (fs_at (w_fs v) (file_at (w_fs v) u n) = None \<longrightarrow> fm_get_file_size u n v = - 1)"
proof -
  have inv: "in_step N v" by (rule sync.inv_reachable [OF assms(1,2)])
  note here = in_stepD [OF inv assms(3)]
  have "map_option fst (idx_look (w_index v) (user_dir u, n)) = size_on_disk (w_fs v) u n"
    using here(7) by (simp add: idx_size_def)
  with here(9) show ?thesis
    by (auto simp: file_exists_look get_file_size_look fm_get_file_size_def size_on_disk_def Let_def
        split: option.splits node.splits)
qed

definition booted_world :: world where
  "booted_world = (let r = rebuild_from_disk (\<lambda>i. ''noon'') [] 0 (sample_disk home_nodes) ''storage''
     in (sample_world home_nodes)\<lparr>w_index := fst (snd r), w_fs := snd (snd (snd r))\<rparr>)"

lemma booted_sample: "booted {(''bob'', ''a'')} booted_world"
proof -
  let ?f = "sample_disk home_nodes"
  obtain ix' m j where run: "rebuild_from_disk (\<lambda>i. ''noon'') [] 0 ?f ''storage'' = (Value (), ix', m, ?f\<lparr>fs_calls := j\<rparr>)"
    by (rule rebuild_from_disk_healthy [of ?f "''storage''" "\<lambda>i. ''noon''" "[]" 0])
      (auto simp: home_nodes_def fs_find_def clean_name_def split: if_splits)
  have 1: "rebuild_from_disk (w_clock booted_world) [] 0 ?f ''storage'' = (Value (), w_index booted_world, m, w_fs booted_world)"
    by (simp add: run booted_world_def)
  have 2: "\<forall>v. fs_at ?f (fs_resolve ?f ''storage'' @ [v]) = Some Dir \<longrightarrow> clean_name v"
    by (auto simp: home_nodes_def clean_name_def split: if_splits)
  have 3: "fs_find ?f ''storage'' = Some Dir" "distinct (map fst (fs_nodes ?f))"
    by (simp_all add: fs_find_def home_nodes_def)
  show ?thesis
    unfolding booted_def
    by (intro exI [of _ ?f] exI [of _ "[]"] exI [of _ "0::nat"] exI [of _ m] conjI 1 2 3)
      (simp_all add: ordinary_def clean_name_def)
qed

lemma booted_stored:
  "fs_at (w_fs booted_world) (file_at (w_fs booted_world) ''bob'' ''a'') = Some (File ''xyz'')"
  "lockable booted_world (file_path ''bob'' ''a'')" "healthy (w_fs booted_world)"
proof -
  have "\<exists>j. w_fs booted_world = sample_disk home_nodes\<lparr>fs_calls := j\<rparr>"
    by (rule rebuild_from_disk_healthy [of "sample_disk home_nodes" "''storage''" "\<lambda>i. ''noon''" "[]" 0])
      (auto simp: booted_world_def home_nodes_def fs_find_def clean_name_def split: if_splits)
  then obtain j where fs: "w_fs booted_world = sample_disk home_nodes\<lparr>fs_calls := j\<rparr>" ..
  then have env: "fs_env (w_fs booted_world) = fs_env (sample_disk home_nodes)" by simp
  then have "file_at (w_fs booted_world) ''bob'' ''a'' = [''storage'', ''bob'', ''a'']" using places_env [OF env] by simp
  then show "fs_at (w_fs booted_world) (file_at (w_fs booted_world) ''bob'' ''a'') = Some (File ''xyz'')" by (simp add: fs)
  show "lockable booted_world (file_path ''bob'' ''a'')"
    by (simp add: booted_world_def lockable_def Let_def sample_world_def)
  show "healthy (w_fs booted_world)" by (simp add: fs)
qed

theorem index_tracks_disk_witness:
  "fm_get_file_size ''bob'' ''a'' booted_world = 3
   \<and> \<not> file_exists (w_index (snd (delete_file ''bob'' ''a'' booted_world))) (user_dir ''bob'') ''a''"
proof -
  let ?N = "{(''bob'', ''a'')}" and ?v = "snd (delete_file ''bob'' ''a'' booted_world)"
  have inN: "(''bob'', ''a'') \<in> ?N" by simp
  obtain v where v: "delete_file ''bob'' ''a'' booted_world = (True, v)"
      "fs_at (w_fs v) = (fs_at (w_fs booted_world))(file_at (w_fs booted_world) ''bob'' ''a'' := None)"
      "fs_env (w_fs v) = fs_env (w_fs booted_world)"
    by (rule delete_complete [OF _ booted_stored(2,3,1)]) simp
  have "file_step ?N booted_world v" by (rule file_step.delete [OF inN booted_stored(2) v(1)])
  then have "(file_step ?N)\<^sup>*\<^sup>* booted_world v" by (rule r_into_rtranclp)
  from index_tracks_disk [OF booted_sample this inN] v places_env [OF v(3)]
  have "\<not> file_exists (w_index v) (user_dir ''bob'') ''a''" by simp
  with index_tracks_disk [OF booted_sample rtranclp.rtrancl_refl inN] booted_stored(1) v(1) show ?thesis by simp
qed

end
