(* ===== verification/Solo_Steps.thy ===== *)
theory Solo_Steps
  imports Concurrent_Store Store_Sync
begin

text \<open>
  The two models of src/src/server/file_manager.cpp agree. Theory \<open>Concurrent_Store\<close> cuts the
  operations into steps on an abstract disk so that they can interleave; theory \<open>File_Manager\<close> has
  each operation whole, statement by statement. Here the steps of one operation that nobody
  disturbs are put together again and compared with the whole.
\<close>

section \<open>One operation alone\<close>

text \<open>The steps from the moment the locks are held, with what becomes known on the way.\<close>

inductive solo :: "work \<Rightarrow> file_map \<times> size_map \<times> stage \<times> bytes \<Rightarrow> event list \<Rightarrow> file_map \<times> size_map \<times> stage \<times> bytes \<Rightarrow> bool"
  for w a where
  none: "solo w a [] a"
| one_more: "solo w a es b \<Longrightarrow> work_step w b c fs \<Longrightarrow> solo w a (es @ fs) c"

lemma solo_step: "solo w a es b \<Longrightarrow> work_step w b c [] \<Longrightarrow> solo w a es c"
  using solo.one_more [of w a es b c "[]"] by simp

lemma solo_last: "solo w a [] b \<Longrightarrow> work_step w b c [e] \<Longrightarrow> solo w a [e] c"
  using solo.one_more [of w a "[]" b c "[e]"] by simp

text \<open>
  An operation from beginning to end: its events, the files and the index it leaves, whether it
  gives its references back, what it has sent. The network interrupts it when nothing becomes
  known of it, or that it broke off.
\<close>

type_synonym ending = "event list \<times> file_map \<times> size_map \<times> bool \<times> bytes"

definition completes :: "nat list \<Rightarrow> work \<Rightarrow> file_map \<Rightarrow> size_map \<Rightarrow> ending \<Rightarrow> bool" where
  "completes cs w F X r \<longleftrightarrow> (case r of (es, F', X', g, out) \<Rightarrow> solo w (F, X, In_Lock cs, []) es (F', X', Leaving cs [] g, out))"

fun is_broken :: "event \<Rightarrow> bool" where
  "is_broken (Broken k) = True"
| "is_broken e = False"

definition uninterrupted :: "ending \<Rightarrow> bool" where
  "uninterrupted r \<longleftrightarrow> fst r \<noteq> [] \<and> list_all (\<lambda>e. \<not> is_broken e) (fst r)"

text \<open>The same in one go.\<close>

fun in_one_go :: "work \<Rightarrow> file_map \<Rightarrow> size_map \<Rightarrow> ending" where
  "in_one_go (Saving k p) F X = ([Stored k p], F(k \<mapsto> p), X(k \<mapsto> word_of_nat (length p)), True, [])"
| "in_one_go (Streaming k) F X =
     (case F k of Some c \<Rightarrow> ([Sent k c], F, X, False, c) | None \<Rightarrow> ([Not_There k], F, X, True, []))"
| "in_one_go (Deleting k) F X =
     (if F k = None then ([Not_There k], F, X, True, []) else ([Removed k], F(k := None), X(k := None), True, []))"
| "in_one_go (Renaming j k) F X =
     (case F j of
        Some c \<Rightarrow> if F k = None then ([Moved j k], F(j := None, k \<mapsto> c), X(j := None, k \<mapsto> size_in X j), True, [])
                   else ([Not_Moved j k], F, X, True, [])
      | None \<Rightarrow> ([Not_Moved j k], F, X, True, []))"

text \<open>What the steps have done so far.\<close>

fun so_far :: "work \<Rightarrow> file_map \<Rightarrow> size_map \<Rightarrow> event list \<Rightarrow> file_map \<times> size_map \<times> stage \<times> bytes \<Rightarrow> bool" where
  "so_far w F X es (G, Y, In_Lock cs, out) \<longleftrightarrow> es = [] \<and> G = F \<and> Y = X \<and> out = []"
| "so_far (Saving k p) F X es (G, Y, In_File cs n, out) \<longleftrightarrow> es = [] \<and> n \<le> length p \<and> G = F(k \<mapsto> take n p) \<and> Y = X \<and> out = []"
| "so_far (Streaming k) F X es (G, Y, In_File cs n, out) \<longleftrightarrow>
     es = [] \<and> G = F \<and> Y = X \<and> (\<exists>c. F k = Some c \<and> n \<le> length c \<and> out = take n c)"
| "so_far (Saving k p) F X es (G, Y, Adding cs z, out) \<longleftrightarrow> es = [] \<and> G = F(k \<mapsto> p) \<and> Y = X \<and> z = word_of_nat (length p) \<and> out = []"
| "so_far (Deleting k) F X es (G, Y, Changed cs, out) \<longleftrightarrow> es = [] \<and> F k \<noteq> None \<and> G = F(k := None) \<and> Y = X \<and> out = []"
| "so_far (Renaming j k) F X es (G, Y, Changed cs, out) \<longleftrightarrow>
     es = [] \<and> F k = None \<and> (\<exists>c. F j = Some c \<and> G = F(j := None, k \<mapsto> c)) \<and> Y = X \<and> out = []"
| "so_far (Renaming j k) F X es (G, Y, Adding cs z, out) \<longleftrightarrow>
     es = [] \<and> F k = None \<and> (\<exists>c. F j = Some c \<and> G = F(j := None, k \<mapsto> c)) \<and> Y = X(j := None) \<and> z = size_in X j \<and> out = []"
| "so_far w F X es (G, Y, Leaving hs us g, out) \<longleftrightarrow>
     \<not> uninterrupted (es, G, Y, g, out) \<or> (es, G, Y, g, out) = in_one_go w F X"
| "so_far w F X es s \<longleftrightarrow> False"

lemma so_far_step: "work_step w a b fs \<Longrightarrow> so_far w F X es a \<Longrightarrow> so_far w F X (es @ fs) b"
proof (induction rule: work_step.induct)
  case (receive n p G k c m Y cs out)
  then show ?case by (auto simp: take_add)
next
  case (stream G k c b n Y cs out)
  then show ?case by (auto simp: take_add)
next
  case (stream_last G k c b n Y cs out)
  then have "drop n c = b" by (auto simp: take_all_iff)
  then have "take n c @ b = c" by (metis append_take_drop_id)
  with stream_last show ?case by (auto simp: uninterrupted_def)
qed (auto simp: uninterrupted_def split: option.splits)

lemma so_far_solo: "solo w (F, X, In_Lock cs, []) es s \<Longrightarrow> so_far w F X es s"
  by (induction rule: solo.induct) (auto intro: so_far_step)

text \<open>The transfer loops to their ends.\<close>

lemma receive_all:
  "solo (Saving k p) a [] (F, X, In_File cs n, out) \<Longrightarrow> n \<le> length p \<Longrightarrow> F k = Some (take n p) \<Longrightarrow>
   solo (Saving k p) a [] (F(k \<mapsto> p), X, In_File cs (length p), out)"
proof (induction "length p - n" arbitrary: F n rule: less_induct)
  case less
  show ?case
  proof (cases "n < length p")
    case False
    with less.prems show ?thesis by (simp add: fun_upd_idem)
  next
    case True
    define m where "m = min TRANSFER_BUFFER_SIZE (length p - n)"
    have m: "0 < m" "n + m \<le> length p" using True by (auto simp: m_def TRANSFER_BUFFER_SIZE_def)
    have "solo (Saving k p) a [] (F(k \<mapsto> take n p @ take m (drop n p)), X, In_File cs (n + m), out)"
      by (rule solo_step [OF less.prems(1) receive [of n p F k "take n p" m, OF True less.prems(3) m_def]])
    moreover have "take n p @ take m (drop n p) = take (n + m) p" by (simp add: take_add)
    ultimately show ?thesis using less.hyps [of "n + m" "F(k \<mapsto> take (n + m) p)"] m True by simp
  qed
qed

lemma send_all_of_it:
  "solo (Streaming k) a [] (F, X, In_File cs n, take n c) \<Longrightarrow> n \<le> length c \<Longrightarrow> F k = Some c \<Longrightarrow>
   solo (Streaming k) a [Sent k c] (F, X, Leaving cs [] False, c)"
proof (induction "length c - n" arbitrary: n rule: less_induct)
  case less
  define b where "b = take TRANSFER_BUFFER_SIZE (drop n c)"
  show ?case
  proof (cases "length b = TRANSFER_BUFFER_SIZE")
    case True
    have "solo (Streaming k) a [] (F, X, In_File cs (n + length b), take n c @ b)"
      by (rule solo_step [OF less.prems(1) stream [of F k c b n, OF less.prems(3) b_def True]])
    moreover have "take n c @ b = take (n + length b) c" using True by (simp add: b_def take_add)
    moreover have "length c - (n + length b) < length c - n" "n + length b \<le> length c"
      using True less.prems(2) by (auto simp: b_def TRANSFER_BUFFER_SIZE_def)
    ultimately show ?thesis using less.hyps [of "n + length b"] less.prems(3) by simp
  next
    case False
    then have short: "length b < TRANSFER_BUFFER_SIZE" by (auto simp: b_def)
    then have "take n c @ b = c" by (simp add: b_def take_all_iff)
    then show ?thesis using solo_last [OF less.prems(1) stream_last [of F k c b n, OF less.prems(3) b_def short]] by simp
  qed
qed

lemma solo_exists: "completes cs w F X (in_one_go w F X)"
proof (cases w)
  case (Saving k p)
  have "solo w (F, X, In_Lock cs, []) [] (F(k \<mapsto> []), X, In_File cs 0, [])"
    unfolding Saving by (rule solo_step [OF solo.none open_out])
  then have "solo w (F, X, In_Lock cs, []) [] (F(k \<mapsto> p), X, In_File cs (length p), [])"
    using receive_all [of k p _ "F(k \<mapsto> [])" X cs 0] Saving by simp
  then have "solo w (F, X, In_Lock cs, []) [] (F(k \<mapsto> p), X, Adding cs (word_of_nat (length p)), [])"
    unfolding Saving by (rule solo_step [OF _ close]) simp
  then have "solo w (F, X, In_Lock cs, []) [Stored k p] (F(k \<mapsto> p), X(k \<mapsto> word_of_nat (length p)), Leaving cs [] True, [])"
    unfolding Saving by (rule solo_last [OF _ add_saved])
  with Saving show ?thesis by (simp add: completes_def)
next
  case (Streaming k)
  show ?thesis
  proof (cases "F k")
    case None
    then show ?thesis using solo_last [OF solo.none open_none [of F k X cs "[]"]] Streaming by (simp add: completes_def)
  next
    case (Some c)
    then have "solo w (F, X, In_Lock cs, []) [] (F, X, In_File cs 0, take 0 c)"
      using solo_step [OF solo.none open_in [of F k c X cs "[]"]] Streaming by simp
    then show ?thesis using send_all_of_it [of k _ F X cs 0 c] Streaming Some by (simp add: completes_def)
  qed
next
  case (Deleting k)
  show ?thesis
  proof (cases "F k")
    case None
    then show ?thesis using solo_last [OF solo.none remove_none [of F k X cs "[]"]] Deleting by (simp add: completes_def)
  next
    case (Some c)
    from solo_last [OF solo_step [OF solo.none remove [of F k c X cs "[]", OF this]] unindex] show ?thesis using Some Deleting by (simp add: completes_def)
  qed
next
  case (Renaming j k)
  consider c where "F j = Some c" "F k = None" | "F j = None \<or> F k \<noteq> None" by (cases "F j") auto
  then show ?thesis
  proof cases
    case (1 c)
    from solo_last [OF solo_step [OF solo_step [OF solo.none move [of F j c k X cs "[]", OF 1]] unindex_old] index_new] show ?thesis
      using 1 Renaming by (simp add: completes_def)
  next
    case 2
    from solo_last [OF solo.none blocked [of F j k X cs "[]", OF 2]] show ?thesis using 2 Renaming by (auto simp: completes_def split: option.splits)
  qed
qed

lemma completes_iff: "completes cs w F X r \<and> uninterrupted r \<longleftrightarrow> r = in_one_go w F X"
proof
  assume r: "completes cs w F X r \<and> uninterrupted r"
  obtain es F' X' g out where eq: "r = (es, F', X', g, out)" by (metis prod_cases5)
  with r have "solo w (F, X, In_Lock cs, []) es (F', X', Leaving cs [] g, out)" by (simp add: completes_def)
  then have "so_far w F X es (F', X', Leaving cs [] g, out)" by (rule so_far_solo)
  then have "\<not> uninterrupted r \<or> r = in_one_go w F X" unfolding eq by (simp only: so_far.simps)
  with r show "r = in_one_go w F X" by blast
next
  assume "r = in_one_go w F X"
  moreover have "uninterrupted (in_one_go w F X)" by (cases w) (auto simp: uninterrupted_def split: option.split)
  ultimately show "completes cs w F X r \<and> uninterrupted r" using solo_exists [of cs w F X] by simp
qed

section \<open>The disk and the index as the abstract store sees them\<close>

text \<open>
  Keys are the paths the code builds. The two maps say of every ordinary file what the disk and
  the index of the server have for it.
\<close>

definition agrees :: "(bytes \<times> bytes) set \<Rightarrow> world \<Rightarrow> file_map \<Rightarrow> size_map \<Rightarrow> bool" where
  "agrees N w F X \<longleftrightarrow> (\<forall>(u, n)\<in>N.
     F (file_path u n) = (case fs_at (w_fs w) (file_at (w_fs w) u n) of Some (File c) \<Rightarrow> Some c | _ \<Rightarrow> None)
     \<and> X (file_path u n) = idx_size (w_index w) (user_dir u, n))"

lemma agreesD:
  assumes "agrees N w F X" and "in_step N w" and "(u, n) \<in> N"
  shows "X (file_path u n) = idx_size (w_index w) (user_dir u, n)"
    and "F (file_path u n) = Some c \<longleftrightarrow> fs_at (w_fs w) (file_at (w_fs w) u n) = Some (File c)"
    and "F (file_path u n) = None \<longleftrightarrow> fs_at (w_fs w) (file_at (w_fs w) u n) = None"
proof -
  note here = assms(1) [unfolded agrees_def, rule_format, OF assms(3), simplified]
  note no_dir = in_stepD(6) [OF assms(2,3)]
  show "X (file_path u n) = idx_size (w_index w) (user_dir u, n)" using here by simp
  show "F (file_path u n) = Some c \<longleftrightarrow> fs_at (w_fs w) (file_at (w_fs w) u n) = Some (File c)"
    using here no_dir by (simp split: option.splits node.splits)
  show "F (file_path u n) = None \<longleftrightarrow> fs_at (w_fs w) (file_at (w_fs w) u n) = None"
    using here no_dir by (simp split: option.splits node.splits)
qed

lemma path_same: "ordinary f N \<Longrightarrow> (u, n) \<in> N \<Longrightarrow> (v, m) \<in> N \<Longrightarrow> file_path u n = file_path v m \<longleftrightarrow> u = v \<and> n = m"
  using ordinary_same [of f N u n v m] by (auto simp: file_at_def)

lemma dir_same: "user_dir u = user_dir v \<longleftrightarrow> u = v"
  by (simp add: user_dir_def)

text \<open>One file changes, or none.\<close>

lemma agrees_change:
  assumes "agrees N w F X" and "in_step N w" and "(u, n) \<in> N" and "fs_env (w_fs v) = fs_env (w_fs w)"
    and "\<And>u' n'. (u', n') \<in> N \<Longrightarrow> fs_at (w_fs v) (file_at (w_fs w) u' n') =
           (if (u', n') = (u, n) then map_option File y else fs_at (w_fs w) (file_at (w_fs w) u' n'))"
    and "idx_size (w_index v) = (idx_size (w_index w))((user_dir u, n) := z)"
  shows "agrees N v (F(file_path u n := y)) (X(file_path u n := z))"
proof -
  have ord: "ordinary (w_fs w) N" using assms(2) by (simp add: in_step_def)
  have at: "file_at (w_fs v) = file_at (w_fs w)" using places_env [OF assms(4)] by blast
  have "(F(file_path u n := y)) (file_path u' n') =
      (case fs_at (w_fs v) (file_at (w_fs v) u' n') of Some (File c) \<Rightarrow> Some c | _ \<Rightarrow> None)
    \<and> (X(file_path u n := z)) (file_path u' n') = idx_size (w_index v) (user_dir u', n')" if "(u', n') \<in> N" for u' n'
  proof (cases "(u', n') = (u, n)")
    case True
    then show ?thesis using assms(5) [OF that] by (simp add: at assms(6) split: option.split)
  next
    case False
    then have "file_path u' n' \<noteq> file_path u n" "(user_dir u', n') \<noteq> (user_dir u, n)"
      using path_same [OF ord that assms(3)] by (auto simp: dir_same)
    then show ?thesis using assms(5) [OF that] assms(1) that False by (auto simp: at assms(6) agrees_def)
  qed
  then show ?thesis unfolding agrees_def by blast
qed

lemma agrees_same:
  assumes "agrees N w F X" and "fs_env (w_fs v) = fs_env (w_fs w)" and "fs_at (w_fs v) = fs_at (w_fs w)" and "w_index v = w_index w"
  shows "agrees N v F X"
  using assms(1) places_env [OF assms(2)] by (simp add: agrees_def assms(3,4))

text \<open>
  An operation of the code is played by the steps when, begun where the two agree, they lead to
  exactly one end that the network has no part in, with this event, these bytes sent, the
  references given back as the code does, and agree there again.
\<close>

definition played :: "(bytes \<times> bytes) set \<Rightarrow> work \<Rightarrow> world \<Rightarrow> world \<Rightarrow> event \<Rightarrow> bytes \<Rightarrow> bool" where
  "played N p w v e out \<longleftrightarrow>
     (\<forall>F X cs. agrees N w F X \<longrightarrow>
        (\<exists>F' X' g. (\<forall>r. completes cs p F X r \<and> uninterrupted r \<longleftrightarrow> r = ([e], F', X', g, out)) \<and> agrees N v F' X'
           \<and> (if g then locks_kept w v else \<exists>k. lock_leaked k w v)))"

lemma playedI:
  assumes "\<And>F X. agrees N w F X \<Longrightarrow> \<exists>F' X'. in_one_go p F X = ([e], F', X', g, out) \<and> agrees N v F' X'"
    and "if g then locks_kept w v else \<exists>k. lock_leaked k w v"
  shows "played N p w v e out"
  unfolding played_def completes_iff using assms by metis

lemma played_upload:
  assumes "in_step N w" and "(u, n) \<in> N" and "is_valid_filename n" and "lockable w (file_path u n)"
    and "recv_contract s" and "recv_reliable s" and "unat sz \<le> length (sk_rx s)" and "save_file u n sz w s = (r, v, t)"
  shows "r \<and> played N (Saving (file_path u n) (take (unat sz) (sk_rx s))) w v (Stored (file_path u n) (take (unat sz) (sk_rx s))) []"
proof -
  note here = in_stepD [OF assms(1,2)]
  let ?f = "w_fs w" and ?c = "take (unat sz) (sk_rx s)"
  have can: "can_store ?f u n" using here by (simp add: can_store_def)
  obtain v' t' where v': "save_file u n sz w s = (True, v', t')"
      "fs_at (w_fs v') = (with_dirs (fs_at ?f) (home_at ?f u))(file_at ?f u n \<mapsto> File ?c)"
      "w_index v' = add_file (w_index w) (user_dir u) n sz (w_clock w (w_time w))"
      "fs_env (w_fs v') = fs_env ?f" "locks_kept w v'"
    using save_file_complete [OF can assms(3,4,5-7)] by metis
  then have v: "v' = v" "r" using assms(8) by simp_all
  have size: "(word_of_nat (length ?c) :: u64) = sz" using assms(7) by simp
  have "agrees N v (F(file_path u n := Some ?c)) (X(file_path u n := Some sz))" if "agrees N w F X" for F X
  proof (rule agrees_change [OF that assms(1,2)])
    show "fs_at (w_fs v) (file_at ?f u' n') = (if (u', n') = (u, n) then map_option File (Some ?c) else fs_at ?f (file_at ?f u' n'))"
      if "(u', n') \<in> N" for u' n'
      using ordinary_same [OF here(3) that assms(2)] with_dirs_home [OF here(3) assms(2) that] v'(2) v(1) by auto
  qed (use v' v(1) here(9) in \<open>simp_all add: idx_size_add\<close>)
  then have "played N (Saving (file_path u n) ?c) w v (Stored (file_path u n) ?c) []"
    using v'(5) v(1) size by (intro playedI [where g = True]) auto
  with v(2) show ?thesis by simp
qed

lemma played_download:
  assumes "in_step N w" and "(u, n) \<in> N" and "is_valid_filename n" and "lockable w (file_path u n)"
    and "send_contract s" and "send_reliable s" and "stream_file_to_socket u n w s = (r, v, t)"
  shows "\<exists>c. sk_tx t = sk_tx s @ c
    \<and> played N (Streaming (file_path u n)) w v (if r then Sent (file_path u n) c else Not_There (file_path u n)) c"
proof -
  note here = in_stepD [OF assms(1,2)]
  note view = agreesD [OF _ assms(1,2)]
  have same: "agrees N v F X" if "agrees N w F X" for F X
    using stream_frame [OF assms(7)] agrees_same [OF that] by blast
  show ?thesis
  proof (cases "fs_at (w_fs w) (file_at (w_fs w) u n)")
    case None
    then have missing: "\<And>c. fs_at (w_fs w) (file_at (w_fs w) u n) \<noteq> Some (File c)" by simp
    obtain v' where "stream_file_to_socket u n w s = (False, v', s)" "locks_kept w v'"
      by (rule stream_missing [OF assms(4) missing])
    then have "\<not> r" "t = s" "locks_kept w v" using assms(7) by simp_all
    moreover have "\<exists>F' X'. in_one_go (Streaming (file_path u n)) F X = ([Not_There (file_path u n)], F', X', True, []) \<and> agrees N v F' X'"
      if "agrees N w F X" for F X using view(3) [OF that] None same [OF that] by simp
    then have "played N (Streaming (file_path u n)) w v (Not_There (file_path u n)) []"
      using \<open>locks_kept w v\<close> by (intro playedI [where g = True]) auto
    ultimately show ?thesis by (intro exI [of _ "[]"]) simp
  next
    case (Some nd)
    then obtain c where c: "fs_at (w_fs w) (file_at (w_fs w) u n) = Some (File c)" using here(6) by (cases nd) auto
    obtain v' t' where "stream_file_to_socket u n w s = (True, v', t')" "sk_tx t' = sk_tx s @ c" "lock_leaked (file_path u n) w v'"
      by (rule stream_complete [OF assms(3,4) here(1) c assms(5,6)])
    then have "r" "sk_tx t = sk_tx s @ c" "lock_leaked (file_path u n) w v" using assms(7) by simp_all
    moreover have "\<exists>F' X'. in_one_go (Streaming (file_path u n)) F X = ([Sent (file_path u n) c], F', X', False, c) \<and> agrees N v F' X'"
      if "agrees N w F X" for F X using view(2) [OF that, of c] c same [OF that] by simp
    then have "played N (Streaming (file_path u n)) w v (Sent (file_path u n) c) c"
      using \<open>lock_leaked (file_path u n) w v\<close> by (intro playedI [where g = False]) auto
    ultimately show ?thesis by (intro exI [of _ c]) simp
  qed
qed

lemma played_delete:
  assumes "in_step N w" and "(u, n) \<in> N" and "is_valid_filename n" and "lockable w (file_path u n)" and "delete_file u n w = (r, v)"
  shows "played N (Deleting (file_path u n)) w v (if r then Removed (file_path u n) else Not_There (file_path u n)) []"
proof -
  note here = in_stepD [OF assms(1,2)]
  note view = agreesD [OF _ assms(1,2)]
  show ?thesis
  proof (cases "fs_at (w_fs w) (file_at (w_fs w) u n)")
    case None
    obtain v' where v': "delete_file u n w = (False, v')" "fs_at (w_fs v') = fs_at (w_fs w)" "w_index v' = w_index w"
        "fs_env (w_fs v') = fs_env (w_fs w)" "locks_kept w v'"
      using delete_missing [OF assms(4) here(1)] None by metis
    then have v: "\<not> r" "v = v'" using assms(5) by simp_all
    have "\<exists>F' X'. in_one_go (Deleting (file_path u n)) F X = ([Not_There (file_path u n)], F', X', True, []) \<and> agrees N v F' X'"
      if "agrees N w F X" for F X using view(3) [OF that] None agrees_same [OF that] v' v(2) by simp
    then have "played N (Deleting (file_path u n)) w v (Not_There (file_path u n)) []"
      using v'(5) v(2) by (intro playedI [where g = True]) auto
    with v(1) show ?thesis by simp
  next
    case (Some nd)
    then obtain c where c: "fs_at (w_fs w) (file_at (w_fs w) u n) = Some (File c)" using here(6) by (cases nd) auto
    obtain v' where v': "delete_file u n w = (True, v')" "fs_at (w_fs v') = (fs_at (w_fs w))(file_at (w_fs w) u n := None)"
        "w_index v' = remove_file (w_index w) (user_dir u) n" "fs_env (w_fs v') = fs_env (w_fs w)" "locks_kept w v'"
      using delete_complete [OF assms(3,4) here(1) c] by metis
    then have v: "r" "v = v'" using assms(5) by simp_all
    have "agrees N v (F(file_path u n := None)) (X(file_path u n := None))" if "agrees N w F X" for F X
    proof (rule agrees_change [OF that assms(1,2)])
      show "fs_at (w_fs v) (file_at (w_fs w) u' n') = (if (u', n') = (u, n) then map_option File None else fs_at (w_fs w) (file_at (w_fs w) u' n'))"
        if "(u', n') \<in> N" for u' n'
        using change_at [OF here(3) assms(2) that v'(2)] v(2) by simp
    qed (use v' v(2) here(9) in \<open>simp_all add: idx_size_remove\<close>)
    then have "\<exists>F' X'. in_one_go (Deleting (file_path u n)) F X = ([Removed (file_path u n)], F', X', True, []) \<and> agrees N v F' X'"
      if "agrees N w F X" for F X using view(2) [OF that, of c] c that by simp
    then have "played N (Deleting (file_path u n)) w v (Removed (file_path u n)) []"
      using v'(5) v(2) by (intro playedI [where g = True]) auto
    with v(1) show ?thesis by simp
  qed
qed

lemma played_rename:
  assumes "in_step N w" and "(u, a) \<in> N" and "(u, b) \<in> N" and "is_valid_filename a" and "is_valid_filename b"
    and "a \<noteq> b" and "lockable w (file_path u a)" and "lockable w (file_path u b)" and "rename_file u a b w = (r, v)"
  shows "played N (Renaming (file_path u a) (file_path u b)) w v
    (if r then Moved (file_path u a) (file_path u b) else Not_Moved (file_path u a) (file_path u b)) []"
proof -
  let ?f = "w_fs w" and ?d = "user_dir u" and ?j = "file_path u a" and ?k = "file_path u b"
  note A = in_stepD [OF assms(1,2)] and B = in_stepD [OF assms(1,3)]
  note viewA = agreesD [OF _ assms(1,2)] and viewB = agreesD [OF _ assms(1,3)]
  have ne: "?j \<noteq> ?k" using path_same [OF A(3) assms(2,3)] assms(6) by simp
  show ?thesis
  proof (cases "fs_at ?f (file_at ?f u a) \<noteq> None \<and> fs_at ?f (file_at ?f u b) = None")
    case False
    obtain v' where v': "rename_file u a b w = (False, v')" "fs_at (w_fs v') = fs_at ?f" "w_index v' = w_index w"
        "fs_env (w_fs v') = fs_env ?f" "locks_kept w v'"
      using rename_refused [OF ne assms(7,8) A(1)] False by metis
    then have v: "\<not> r" "v = v'" using assms(9) by simp_all
    have "\<exists>F' X'. in_one_go (Renaming ?j ?k) F X = ([Not_Moved ?j ?k], F', X', True, []) \<and> agrees N v F' X'"
      if "agrees N w F X" for F X
      using viewA(3) [OF that] viewB(3) [OF that] False agrees_same [OF that] v' v(2) by (auto split: option.split)
    then have "played N (Renaming ?j ?k) w v (Not_Moved ?j ?k) []" using v'(5) v(2) by (intro playedI [where g = True]) auto
    with v(1) show ?thesis by simp
  next
    case True
    then obtain c where c: "fs_at ?f (file_at ?f u a) = Some (File c)" using A(6) by (metis node.exhaust option.exhaust)
    obtain v' where v': "rename_file u a b w = (True, v')"
        "fs_at (w_fs v') = (fs_at ?f)(file_at ?f u a := None, file_at ?f u b \<mapsto> File c)"
        "w_index v' = add_file (remove_file (w_index w) ?d a) ?d b (get_file_size (w_index w) ?d a) (w_clock w (w_time w))"
        "fs_env (w_fs v') = fs_env ?f" "locks_kept w v'"
      using rename_complete [OF assms(4,5) ne assms(7,8) A(1,2,8) B(8) c] True by metis
    then have v: "r" "v = v'" using assms(9) by simp_all
    define x where "x = set_fs (fs_del ?f (file_at ?f u a)) (index_remove ?d a w)"
    have x: "fs_env (w_fs x) = fs_env ?f" "fs_at (w_fs x) = (fs_at ?f)(file_at ?f u a := None)"
        "w_index x = remove_file (w_index w) ?d a" by (simp_all add: x_def)
    have inx: "in_step N x" by (rule in_step_gone [OF assms(1,2) c x_def])
    have at: "file_at (w_fs x) = file_at ?f" using places_env [OF x(1)] by simp
    have gone: "agrees N x (F(?j := None)) (X(?j := None))" if "agrees N w F X" for F X
    proof (rule agrees_change [OF that assms(1,2) x(1)])
      show "fs_at (w_fs x) (file_at ?f u' n') = (if (u', n') = (u, a) then map_option File None else fs_at ?f (file_at ?f u' n'))"
        if "(u', n') \<in> N" for u' n'
        using change_at [OF A(3) assms(2) that x(2)] by simp
    qed (use A(9) in \<open>simp add: x(3) idx_size_remove\<close>)
    have moved: "agrees N v (F(?j := None, ?k \<mapsto> c)) (X(?j := None, ?k \<mapsto> size_in X ?j))" if "agrees N w F X" for F X
    proof (rule agrees_change [OF gone [OF that] inx assms(3)])
      have ord: "ordinary (w_fs x) N" using inx by (simp add: in_step_def)
      have v_at: "fs_at (w_fs v) = (fs_at (w_fs x))(file_at (w_fs x) u b := Some (File c))" using v'(2) v(2) x(2) at by simp
      show "fs_at (w_fs v) (file_at (w_fs x) u' n') = (if (u', n') = (u, b) then map_option File (Some c) else fs_at (w_fs x) (file_at (w_fs x) u' n'))"
        if "(u', n') \<in> N" for u' n'
        using change_at [OF ord assms(3) that v_at] by simp
      have "size_in X ?j = get_file_size (w_index w) ?d a"
        using viewA(1) [OF that] A(9) by (simp add: size_in_def get_file_size_idx split: option.split)
      then show "idx_size (w_index v) = (idx_size (w_index x))((?d, b) := Some (size_in X ?j))"
        using v'(3) v(2) x(3) A(9) by (simp add: idx_size_add)
    qed (use v'(4) v(2) x(1) in simp)
    have "\<exists>F' X'. in_one_go (Renaming ?j ?k) F X = ([Moved ?j ?k], F', X', True, []) \<and> agrees N v F' X'" if "agrees N w F X" for F X
      using viewA(2) [OF that, of c] viewB(3) [OF that] c True moved [OF that] by simp
    then have "played N (Renaming ?j ?k) w v (Moved ?j ?k) []" using v'(5) v(2) by (intro playedI [where g = True]) auto
    with v(1) show ?thesis by simp
  qed
qed

text \<open>An upload whose data stops early is a run of the steps that the network interrupts.\<close>

lemma solo_broken: "p \<noteq> [] \<Longrightarrow> completes cs (Saving k p) F X ([Broken k], F(k := None), X, False, [])"
  using solo_last [OF solo_step [OF solo.none open_out [of k p F X cs "[]"]] cut_short [of 0 p k "F(k \<mapsto> [])" X cs "[]"]]
  by (simp add: completes_def)

lemma broken_upload:
  assumes "in_step N w" and "(u, n) \<in> N" and "is_valid_filename n" and "lockable w (file_path u n)"
    and "recv_contract s" and "length (sk_rx s) < unat sz" and "save_file u n sz w s = (r, v, t)" and "agrees N w F X"
    and "length p = unat sz"
  shows "\<not> r \<and> (\<exists>F' X'. completes cs (Saving (file_path u n) p) F X ([Broken (file_path u n)], F', X', False, []) \<and> agrees N v F' X')"
proof -
  note here = in_stepD [OF assms(1,2)]
  let ?f = "w_fs w" and ?k = "file_path u n"
  have can: "can_store ?f u n" using here by (simp add: can_store_def)
  obtain v' t' where v': "save_file u n sz w s = (False, v', t')"
      "fs_at (w_fs v') = (with_dirs (fs_at ?f) (home_at ?f u))(file_at ?f u n := None)"
      "w_index v' = w_index w" "fs_env (w_fs v') = fs_env ?f"
    using save_file_cut_short [OF can assms(3-6)] by metis
  then have v: "v' = v" "\<not> r" using assms(7) by simp_all
  have "agrees N v (F(?k := None)) (X(?k := X ?k))"
  proof (rule agrees_change [OF assms(8,1,2)])
    show "fs_at (w_fs v) (file_at ?f u' n') = (if (u', n') = (u, n) then map_option File None else fs_at ?f (file_at ?f u' n'))"
      if "(u', n') \<in> N" for u' n'
      using ordinary_same [OF here(3) that assms(2)] with_dirs_home [OF here(3) assms(2) that] v'(2) v(1) by auto
  qed (use v' v(1) agreesD(1) [OF assms(8,1,2)] in \<open>simp_all add: fun_upd_idem\<close>)
  then have "agrees N v (F(?k := None)) X" by simp
  moreover have "p \<noteq> []" using assms(6,9) by auto
  ultimately show ?thesis using v(2) solo_broken by blast
qed

section \<open>The property\<close>

text \<open>C5: the operations cut into steps do what the operations of the code do. An upload, a download, a
  deletion or a rename of ordinary names, run by itself on the server's disk, is played by its steps:
  begun on the maps that disk and index stand for, they have exactly one end the network has no part
  in, with the answer the code gives, the bytes it sends, its references given back where the code
  gives them back, and maps that stand for the disk and index the code leaves. An upload that
  breaks off is among the interrupted runs.\<close>

theorem steps_agree_with_operations:
  assumes "in_step N w" and "(u, n) \<in> N" and "is_valid_filename n" and "lockable w (file_path u n)"
    and "k = file_path u n"
  shows "(save_file u n sz w s = (r, v, t) \<and> recv_contract s \<and> recv_reliable s \<and> unat sz \<le> length (sk_rx s) \<longrightarrow>
       r \<and> played N (Saving k (take (unat sz) (sk_rx s))) w v (Stored k (take (unat sz) (sk_rx s))) [])
    \<and> (save_file u n sz w s = (r, v, t) \<and> recv_contract s \<and> length (sk_rx s) < unat sz \<and> length p = unat sz \<and> agrees N w F X \<longrightarrow>
       \<not> r \<and> (\<exists>F' X'. completes cs (Saving k p) F X ([Broken k], F', X', False, []) \<and> agrees N v F' X'))
    \<and> (stream_file_to_socket u n w s = (r, v, t) \<and> send_contract s \<and> send_reliable s \<longrightarrow>
       (\<exists>c. sk_tx t = sk_tx s @ c \<and> played N (Streaming k) w v (if r then Sent k c else Not_There k) c))
    \<and> (delete_file u n w = (r, v) \<longrightarrow> played N (Deleting k) w v (if r then Removed k else Not_There k) [])
    \<and> (rename_file u n m w = (r, v) \<and> (u, m) \<in> N \<and> is_valid_filename m \<and> m \<noteq> n \<and> lockable w (file_path u m) \<longrightarrow>
       played N (Renaming k (file_path u m)) w v (if r then Moved k (file_path u m) else Not_Moved k (file_path u m)) [])"
  unfolding assms(5)
  using played_upload [OF assms(1-4), of s sz r v t] broken_upload [OF assms(1-4), of s sz r v t F X p cs]
    played_download [OF assms(1-4), of s r v t] played_delete [OF assms(1-4), of r v]
    played_rename [OF assms(1,2) _ assms(3) _ _ assms(4), of m r v]
  by blast

text \<open>The file \<open>a\<close> of \<open>bob\<close> is deleted, by the code and by the steps.\<close>

theorem steps_agree_with_operations_witness:
  "\<exists>v F' X'. delete_file ''bob'' ''a'' booted_world = (True, v) \<and> agrees {(''bob'', ''a'')} v F' X'
     \<and> completes [0] (Deleting (file_path ''bob'' ''a'')) [file_path ''bob'' ''a'' \<mapsto> ''xyz''] [file_path ''bob'' ''a'' \<mapsto> 3]
          ([Removed (file_path ''bob'' ''a'')], F', X', True, [])"
proof -
  let ?N = "{(''bob'', ''a'')}" and ?k = "file_path ''bob'' ''a''"
  have inN: "(''bob'', ''a'') \<in> ?N" by simp
  have ok: "in_step ?N booted_world" by (rule booted_in_step [OF booted_sample])
  obtain v where v: "delete_file ''bob'' ''a'' booted_world = (True, v)"
    by (rule delete_complete [OF _ booted_stored(2,3,1)]) simp
  have "played ?N (Deleting ?k) booted_world v (Removed ?k) []"
    using steps_agree_with_operations [OF ok inN _ booted_stored(2) refl, of undefined undefined True v] v by simp
  moreover have "agrees ?N booted_world [?k \<mapsto> ''xyz''] [?k \<mapsto> 3]"
    using in_stepD(7) [OF ok inN] booted_stored(1) by (simp add: agrees_def size_on_disk_def)
  ultimately obtain F' X' g where end': "\<forall>r. completes [0] (Deleting ?k) [?k \<mapsto> ''xyz''] [?k \<mapsto> 3] r \<and> uninterrupted r
      \<longleftrightarrow> r = ([Removed ?k], F', X', g, [])" and "agrees ?N v F' X'"
    unfolding played_def by blast
  moreover have "in_one_go (Deleting ?k) [?k \<mapsto> ''xyz''] [?k \<mapsto> 3] = ([Removed ?k], F', X', g, [])"
    using end' completes_iff by blast
  then have "g" by simp
  ultimately show ?thesis using v by blast
qed

end
