(* ===== verification/Task_Queue.thy ===== *)
theory Task_Queue
  imports Prelude
begin

text \<open>
  src/src/server/task_queue.cpp: the bounded blocking queue between the acceptor and the
  workers. What push and pop do while they hold \<open>mutex_\<close> is a function on the queue; how any
  number of threads go through these critical sections, wait on the two condition variables
  and wake each other is a step relation.
\<close>

section \<open>The critical sections\<close>

record 'a tqueue =
  tq_queue :: "'a list"
  tq_max_size :: nat
  tq_shutdown :: bool

definition new_queue :: "nat \<Rightarrow> 'a tqueue" where
  "new_queue max_size = \<lparr>tq_queue = [], tq_max_size = max_size, tq_shutdown = False\<rparr>"

text \<open>The predicates the two waits test.\<close>

definition push_ready :: "'a tqueue \<Rightarrow> bool" where
  "push_ready q \<longleftrightarrow> tq_shutdown q \<or> tq_max_size q = 0 \<or> length (tq_queue q) < tq_max_size q"

definition pop_ready :: "'a tqueue \<Rightarrow> bool" where
  "pop_ready q \<longleftrightarrow> tq_shutdown q \<or> tq_queue q \<noteq> []"

text \<open>None: the wait blocks. Otherwise what the function returns, and the queue.\<close>

definition try_push :: "'a \<Rightarrow> 'a tqueue \<Rightarrow> (bool \<times> 'a tqueue) option" where
  "try_push task q =
     (if \<not> push_ready q then None
      else if tq_shutdown q then Some (False, q)
      else Some (True, q\<lparr>tq_queue := tq_queue q @ [task]\<rparr>))"

definition try_pop :: "'a tqueue \<Rightarrow> ('a option \<times> 'a tqueue) option" where
  "try_pop q =
     (if \<not> pop_ready q then None
      else if tq_shutdown q \<and> tq_queue q = [] then Some (None, q)
      else Some (Some (hd (tq_queue q)), q\<lparr>tq_queue := tl (tq_queue q)\<rparr>))"

definition shutdown_queue :: "'a tqueue \<Rightarrow> 'a tqueue" where
  "shutdown_queue q = q\<lparr>tq_shutdown := True\<rparr>"

definition queue_size :: "'a tqueue \<Rightarrow> nat" where "queue_size q = length (tq_queue q)"

definition is_shutdown :: "'a tqueue \<Rightarrow> bool" where "is_shutdown q = tq_shutdown q"

lemma push_blocked: "try_push x q = None \<longleftrightarrow> \<not> tq_shutdown q \<and> 0 < tq_max_size q \<and> tq_max_size q \<le> length (tq_queue q)"
  by (auto simp: try_push_def push_ready_def)

lemma push_refused: "try_push x q = Some (False, q') \<longleftrightarrow> tq_shutdown q \<and> q' = q"
  by (auto simp: try_push_def push_ready_def)

lemma push_stored: "try_push x q = Some (True, q') \<longleftrightarrow> \<not> tq_shutdown q
    \<and> (tq_max_size q = 0 \<or> length (tq_queue q) < tq_max_size q) \<and> q' = q\<lparr>tq_queue := tq_queue q @ [x]\<rparr>"
  by (auto simp: try_push_def push_ready_def)

lemma pop_blocked: "try_pop q = None \<longleftrightarrow> \<not> tq_shutdown q \<and> tq_queue q = []"
  by (auto simp: try_pop_def pop_ready_def)

lemma pop_drained: "try_pop q = Some (None, q') \<longleftrightarrow> tq_shutdown q \<and> tq_queue q = [] \<and> q' = q"
  by (auto simp: try_pop_def pop_ready_def)

lemma pop_taken: "try_pop q = Some (Some x, q') \<longleftrightarrow> (\<exists>xs. tq_queue q = x # xs \<and> q' = q\<lparr>tq_queue := xs\<rparr>)"
  by (cases "tq_queue q") (auto simp: try_pop_def pop_ready_def)

lemmas critical_sections = push_blocked push_refused push_stored pop_blocked pop_drained pop_taken

section \<open>Threads\<close>

text \<open>
  Where a thread is: outside; about to run its critical section (having called the function, or
  having been woken); asleep in the wait; past the critical section with its notification still
  to send; in \<open>shutdown\<close>, before the first or the second \<open>notify_all\<close>.
\<close>

datatype 'a tpc =
    Outside
  | Pushing 'a | Push_Asleep 'a | Pushed
  | Popping | Pop_Asleep | Popped
  | Down_Empty | Down_Full

text \<open>The threads, and the history: what has been accepted and what has been handed out.\<close>

record 'a monitor =
  mq :: "'a tqueue"
  mt :: "'a tpc list"
  m_pushed :: "'a list"
  m_popped :: "'a list"

definition wake_pop :: "'a tpc \<Rightarrow> 'a tpc" where
  "wake_pop p = (case p of Pop_Asleep \<Rightarrow> Popping | _ \<Rightarrow> p)"

definition wake_push :: "'a tpc \<Rightarrow> 'a tpc" where
  "wake_push p = (case p of Push_Asleep x \<Rightarrow> Pushing x | _ \<Rightarrow> p)"

text \<open>
  The steps of thread i. The mutex makes each critical section one step: testing the predicate
  and falling asleep is atomic, as \<open>wait\<close> guarantees. A notification wakes one sleeper if there
  is any; a sleeper may also wake up for no reason.
\<close>

inductive tq_step :: "'a monitor \<Rightarrow> 'a monitor \<Rightarrow> bool" where
  call_push: "i < length (mt s) \<Longrightarrow> mt s ! i = Outside \<Longrightarrow> tq_step s (s\<lparr>mt := (mt s)[i := Pushing x]\<rparr>)"
| push_sleep: "i < length (mt s) \<Longrightarrow> mt s ! i = Pushing x \<Longrightarrow> try_push x (mq s) = None \<Longrightarrow>
     tq_step s (s\<lparr>mt := (mt s)[i := Push_Asleep x]\<rparr>)"
| push_refuse: "i < length (mt s) \<Longrightarrow> mt s ! i = Pushing x \<Longrightarrow> try_push x (mq s) = Some (False, q) \<Longrightarrow>
     tq_step s (s\<lparr>mq := q, mt := (mt s)[i := Outside]\<rparr>)"
| push_store: "i < length (mt s) \<Longrightarrow> mt s ! i = Pushing x \<Longrightarrow> try_push x (mq s) = Some (True, q) \<Longrightarrow>
     tq_step s (s\<lparr>mq := q, mt := (mt s)[i := Pushed], m_pushed := m_pushed s @ [x]\<rparr>)"
| push_notify: "i < length (mt s) \<Longrightarrow> mt s ! i = Pushed \<Longrightarrow> j < length (mt s) \<Longrightarrow> mt s ! j = Pop_Asleep \<Longrightarrow>
     tq_step s (s\<lparr>mt := (mt s)[i := Outside, j := Popping]\<rparr>)"
| push_notify_none: "i < length (mt s) \<Longrightarrow> mt s ! i = Pushed \<Longrightarrow> \<forall>j<length (mt s). mt s ! j \<noteq> Pop_Asleep \<Longrightarrow>
     tq_step s (s\<lparr>mt := (mt s)[i := Outside]\<rparr>)"
| call_pop: "i < length (mt s) \<Longrightarrow> mt s ! i = Outside \<Longrightarrow> tq_step s (s\<lparr>mt := (mt s)[i := Popping]\<rparr>)"
| pop_sleep: "i < length (mt s) \<Longrightarrow> mt s ! i = Popping \<Longrightarrow> try_pop (mq s) = None \<Longrightarrow>
     tq_step s (s\<lparr>mt := (mt s)[i := Pop_Asleep]\<rparr>)"
| pop_end: "i < length (mt s) \<Longrightarrow> mt s ! i = Popping \<Longrightarrow> try_pop (mq s) = Some (None, q) \<Longrightarrow>
     tq_step s (s\<lparr>mq := q, mt := (mt s)[i := Outside]\<rparr>)"
| pop_take: "i < length (mt s) \<Longrightarrow> mt s ! i = Popping \<Longrightarrow> try_pop (mq s) = Some (Some x, q) \<Longrightarrow>
     tq_step s (s\<lparr>mq := q, mt := (mt s)[i := Popped], m_popped := m_popped s @ [x]\<rparr>)"
| pop_notify: "i < length (mt s) \<Longrightarrow> mt s ! i = Popped \<Longrightarrow> j < length (mt s) \<Longrightarrow> mt s ! j = Push_Asleep x \<Longrightarrow>
     tq_step s (s\<lparr>mt := (mt s)[i := Outside, j := Pushing x]\<rparr>)"
| pop_notify_none: "i < length (mt s) \<Longrightarrow> mt s ! i = Popped \<Longrightarrow> \<forall>j<length (mt s). \<forall>x. mt s ! j \<noteq> Push_Asleep x \<Longrightarrow>
     tq_step s (s\<lparr>mt := (mt s)[i := Outside]\<rparr>)"
| wake_up: "i < length (mt s) \<Longrightarrow> tq_step s (s\<lparr>mt := (mt s)[i := wake_push (wake_pop (mt s ! i))]\<rparr>)"
| down: "i < length (mt s) \<Longrightarrow> mt s ! i = Outside \<Longrightarrow>
     tq_step s (s\<lparr>mq := shutdown_queue (mq s), mt := (mt s)[i := Down_Empty]\<rparr>)"
| down_notify_empty: "i < length (mt s) \<Longrightarrow> mt s ! i = Down_Empty \<Longrightarrow>
     tq_step s (s\<lparr>mt := map wake_pop ((mt s)[i := Down_Full])\<rparr>)"
| down_notify_full: "i < length (mt s) \<Longrightarrow> mt s ! i = Down_Full \<Longrightarrow>
     tq_step s (s\<lparr>mt := map wake_push ((mt s)[i := Outside])\<rparr>)"

section \<open>What the threads are up to\<close>

fun sleeps_pop :: "'a tpc \<Rightarrow> bool" where
  "sleeps_pop Pop_Asleep = True" | "sleeps_pop _ = False"

fun serves_pop :: "'a tpc \<Rightarrow> bool" where
  "serves_pop Pushed = True" | "serves_pop Popping = True" | "serves_pop _ = False"

fun sleeps_push :: "'a tpc \<Rightarrow> bool" where
  "sleeps_push (Push_Asleep x) = True" | "sleeps_push _ = False"

fun serves_push :: "'a tpc \<Rightarrow> bool" where
  "serves_push Popped = True" | "serves_push (Pushing x) = True" | "serves_push _ = False"

fun rings_empty :: "'a tpc \<Rightarrow> bool" where
  "rings_empty Down_Empty = True" | "rings_empty _ = False"

fun rings_full :: "'a tpc \<Rightarrow> bool" where
  "rings_full Down_Empty = True" | "rings_full Down_Full = True" | "rings_full _ = False"

lemma asleep_iff: "sleeps_pop p \<longleftrightarrow> p = Pop_Asleep" "sleeps_push p \<longleftrightarrow> (\<exists>x. p = Push_Asleep x)"
  by (cases p; simp)+

lemma wake_simps [simp]:
  "sleeps_pop (wake_pop p) = False" "sleeps_push (wake_pop p) = sleeps_push p"
  "serves_push (wake_pop p) = serves_push p" "rings_full (wake_pop p) = rings_full p"
  "sleeps_push (wake_push p) = False" "sleeps_pop (wake_push p) = sleeps_pop p"
  "serves_pop (wake_push p) = serves_pop p" "rings_empty (wake_push p) = rings_empty p"
  by (cases p; simp add: wake_pop_def wake_push_def)+

lemma counts_update:
  assumes "i < length xs" and "xs ! i = p"
  shows "cnt sleeps_pop (xs[i := v]) + of_bool (sleeps_pop p) = cnt sleeps_pop xs + of_bool (sleeps_pop v)"
    and "cnt serves_pop (xs[i := v]) + of_bool (serves_pop p) = cnt serves_pop xs + of_bool (serves_pop v)"
    and "cnt sleeps_push (xs[i := v]) + of_bool (sleeps_push p) = cnt sleeps_push xs + of_bool (sleeps_push v)"
    and "cnt serves_push (xs[i := v]) + of_bool (serves_push p) = cnt serves_push xs + of_bool (serves_push v)"
    and "cnt rings_empty (xs[i := v]) + of_bool (rings_empty p) = cnt rings_empty xs + of_bool (rings_empty v)"
    and "cnt rings_full (xs[i := v]) + of_bool (rings_full p) = cnt rings_full xs + of_bool (rings_full v)"
  using cnt_update [OF assms(1), where v = v] by (simp_all add: assms(2))

text \<open>
  The invariant. Items leave in the order they came; the bound is kept; and whoever sleeps will
  be woken when there is something to do: as long as a popper sleeps, every item in the queue
  has a notification on the way or an awake popper to take it, and the same for sleeping pushers
  and free slots; after a shutdown some thread is still about to wake the sleepers.
\<close>

definition monitor_ok :: "'a monitor \<Rightarrow> bool" where
  "monitor_ok s \<longleftrightarrow> (let q = mq s; n = length (tq_queue q) in
     m_pushed s = m_popped s @ tq_queue q
     \<and> (0 < tq_max_size q \<longrightarrow> n \<le> tq_max_size q)
     \<and> (0 < cnt sleeps_push (mt s) \<longrightarrow> 0 < tq_max_size q)
     \<and> (\<not> tq_shutdown q \<and> 0 < cnt sleeps_pop (mt s) \<longrightarrow> n \<le> cnt serves_pop (mt s))
     \<and> (\<not> tq_shutdown q \<and> 0 < cnt sleeps_push (mt s) \<longrightarrow> tq_max_size q \<le> n + cnt serves_push (mt s))
     \<and> (tq_shutdown q \<and> 0 < cnt sleeps_pop (mt s) \<longrightarrow> 0 < cnt rings_empty (mt s))
     \<and> (tq_shutdown q \<and> 0 < cnt sleeps_push (mt s) \<longrightarrow> 0 < cnt rings_full (mt s)))"

lemma none_asleep:
  "\<forall>j<length xs. xs ! j \<noteq> Pop_Asleep \<Longrightarrow> cnt sleeps_pop xs = 0"
  "\<forall>j<length xs. \<forall>x. xs ! j \<noteq> Push_Asleep x \<Longrightarrow> cnt sleeps_push xs = 0"
  by (auto simp: cnt_zero asleep_iff)

lemma cnt_map: "(\<And>p. P (f p) = Q p) \<Longrightarrow> cnt P (map f xs) = cnt Q xs"
  by (simp add: cnt_def filter_map o_def)

lemma cnt_False [simp]: "cnt (\<lambda>p. False) xs = 0"
  by (simp add: cnt_def)

lemma counts_wake_pop:
  "cnt sleeps_pop (map wake_pop xs) = 0" "cnt sleeps_push (map wake_pop xs) = cnt sleeps_push xs"
  "cnt serves_push (map wake_pop xs) = cnt serves_push xs" "cnt rings_full (map wake_pop xs) = cnt rings_full xs"
  using cnt_map [of sleeps_pop wake_pop "\<lambda>p. False" xs] cnt_map [of sleeps_push wake_pop sleeps_push xs]
    cnt_map [of serves_push wake_pop serves_push xs] cnt_map [of rings_full wake_pop rings_full xs] by simp_all

lemma counts_wake_push:
  "cnt sleeps_push (map wake_push xs) = 0" "cnt sleeps_pop (map wake_push xs) = cnt sleeps_pop xs"
  "cnt serves_pop (map wake_push xs) = cnt serves_pop xs" "cnt rings_empty (map wake_push xs) = cnt rings_empty xs"
  using cnt_map [of sleeps_push wake_push "\<lambda>p. False" xs] cnt_map [of sleeps_pop wake_push sleeps_pop xs]
    cnt_map [of serves_pop wake_push serves_pop xs] cnt_map [of rings_empty wake_push rings_empty xs] by simp_all

lemma monitor_ok_step: "tq_step s t \<Longrightarrow> monitor_ok s \<Longrightarrow> monitor_ok t"
proof (induction rule: tq_step.induct)
  case (call_push i s x)
  then show ?case using counts_update [of i "mt s" Outside "Pushing x"] by (auto simp: monitor_ok_def Let_def)
next
  case (push_sleep i s x)
  then show ?case using counts_update [of i "mt s" "Pushing x" "Push_Asleep x"]
    by (auto simp: monitor_ok_def Let_def critical_sections)
next
  case (push_refuse i s x q)
  then show ?case using counts_update [of i "mt s" "Pushing x" Outside]
    by (auto simp: monitor_ok_def Let_def critical_sections)
next
  case (push_store i s x q)
  then show ?case using counts_update [of i "mt s" "Pushing x" Pushed]
    by (auto simp: monitor_ok_def Let_def critical_sections)
next
  case (push_notify i s j)
  then have "i \<noteq> j" by auto
  then have "j < length ((mt s)[i := Outside])" "(mt s)[i := Outside] ! j = Pop_Asleep" using push_notify(3,4) by auto
  with push_notify show ?case
    using counts_update [of i "mt s" Pushed Outside] counts_update [of j "(mt s)[i := Outside]" Pop_Asleep Popping]
    by (auto simp: monitor_ok_def Let_def)
next
  case (push_notify_none i s)
  then show ?case using counts_update [of i "mt s" Pushed Outside] none_asleep(1) [of "mt s"]
    by (auto simp: monitor_ok_def Let_def)
next
  case (call_pop i s)
  then show ?case using counts_update [of i "mt s" Outside Popping] by (auto simp: monitor_ok_def Let_def)
next
  case (pop_sleep i s)
  then show ?case using counts_update [of i "mt s" Popping Pop_Asleep]
    by (auto simp: monitor_ok_def Let_def critical_sections)
next
  case (pop_end i s q)
  then show ?case using counts_update [of i "mt s" Popping Outside]
    by (auto simp: monitor_ok_def Let_def critical_sections)
next
  case (pop_take i s x q)
  then obtain xs where xs: "tq_queue (mq s) = x # xs" "q = (mq s)\<lparr>tq_queue := xs\<rparr>" by (auto simp: pop_taken)
  note counts = counts_update [OF pop_take(1,2), of Popped, simplified]
  show ?case using pop_take(4) counts xs unfolding monitor_ok_def Let_def
    by (intro conjI impI) simp_all
next
  case (pop_notify i s j x)
  then have "i \<noteq> j" by auto
  then have "j < length ((mt s)[i := Outside])" "(mt s)[i := Outside] ! j = Push_Asleep x" using pop_notify(3,4) by auto
  with pop_notify show ?case
    using counts_update [of i "mt s" Popped Outside] counts_update [of j "(mt s)[i := Outside]" "Push_Asleep x" "Pushing x"]
    by (auto simp: monitor_ok_def Let_def)
next
  case (pop_notify_none i s)
  then show ?case using counts_update [of i "mt s" Popped Outside] none_asleep(2) [of "mt s"]
    by (auto simp: monitor_ok_def Let_def)
next
  case (wake_up i s)
  then show ?case using counts_update [of i "mt s" "mt s ! i" "wake_push (wake_pop (mt s ! i))"]
    by (cases "mt s ! i") (auto simp: monitor_ok_def Let_def wake_pop_def wake_push_def)
next
  case (down i s)
  then show ?case using counts_update [of i "mt s" Outside Down_Empty]
    by (auto simp: monitor_ok_def Let_def shutdown_queue_def)
next
  case (down_notify_empty i s)
  then show ?case
    using counts_update [of i "mt s" Down_Empty Down_Full] counts_wake_pop [of "(mt s)[i := Down_Full]"]
    by (auto simp: monitor_ok_def Let_def)
next
  case (down_notify_full i s)
  then show ?case
    using counts_update [of i "mt s" Down_Full Outside] counts_wake_push [of "(mt s)[i := Outside]"]
    by (auto simp: monitor_ok_def Let_def)
qed

section \<open>Reachable states\<close>

text \<open>A new queue, and any number of threads that have not called it yet.\<close>

definition fresh_monitor :: "nat \<Rightarrow> nat \<Rightarrow> 'a monitor" where
  "fresh_monitor max_size threads =
     \<lparr>mq = new_queue max_size, mt = replicate threads Outside, m_pushed = [], m_popped = []\<rparr>"

lemma cnt_replicate: "\<not> P x \<Longrightarrow> cnt P (replicate n x) = 0"
  by (simp add: cnt_def)

lemma monitor_ok_fresh: "monitor_ok (fresh_monitor max_size threads)"
  by (simp add: monitor_ok_def fresh_monitor_def new_queue_def cnt_replicate)

interpretation tq: invariant_of_steps "\<lambda>s. \<exists>k n. s = fresh_monitor k n" tq_step monitor_ok
  by unfold_locales (auto intro: monitor_ok_fresh monitor_ok_step)

interpretation tq_bound: invariant_of_steps "\<lambda>s. \<exists>n. s = fresh_monitor k n" tq_step "\<lambda>s. tq_max_size (mq s) = k" for k
proof unfold_locales
  show "tq_max_size (mq t) = k" if "tq_max_size (mq s) = k" "tq_step s t" for s t
    using that(2,1) by cases (auto simp: critical_sections shutdown_queue_def)
qed (auto simp: fresh_monitor_def new_queue_def)

section \<open>Properties\<close>

text \<open>C25: in every interleaving of any number of threads calling push, pop and shutdown, the queue
  hands out exactly what was accepted, in the order it was accepted, without loss or
  repetition, and never holds more than \<open>max_size\<close> tasks.\<close>

theorem queue_fifo_bounded:
  assumes "tq_step\<^sup>*\<^sup>* (fresh_monitor max_size threads) s"
  shows "m_pushed s = m_popped s @ tq_queue (mq s)
    \<and> (0 < max_size \<longrightarrow> queue_size (mq s) \<le> max_size)"
proof -
  have "monitor_ok s" using assms by (intro tq.inv_reachable [of "fresh_monitor max_size threads"]) auto
  moreover have "tq_max_size (mq s) = max_size"
    using assms by (intro tq_bound.inv_reachable [where k = max_size and s = "fresh_monitor max_size threads"]) auto
  ultimately show ?thesis by (auto simp: monitor_ok_def Let_def queue_size_def)
qed

text \<open>C26: no wake-up is lost. In every reachable state in which no thread is inside a critical
  section or on its way to a notification, a thread asleep in pop sleeps because the queue is
  empty, a thread asleep in push because it is full, never both kinds at once, and after a
  shutdown nobody sleeps at all.\<close>

theorem no_lost_wakeups:
  assumes "tq_step\<^sup>*\<^sup>* (fresh_monitor max_size threads) s"
    and "\<forall>p\<in>set (mt s). p = Outside \<or> p = Pop_Asleep \<or> (\<exists>x. p = Push_Asleep x)"
  shows "(Pop_Asleep \<in> set (mt s) \<longrightarrow> tq_queue (mq s) = [] \<and> \<not> is_shutdown (mq s))
    \<and> (\<forall>x. Push_Asleep x \<in> set (mt s) \<longrightarrow>
         queue_size (mq s) = max_size \<and> \<not> is_shutdown (mq s) \<and> Pop_Asleep \<notin> set (mt s))"
proof -
  have ok: "monitor_ok s" using assms(1) by (intro tq.inv_reachable [of "fresh_monitor max_size threads"]) auto
  have max: "tq_max_size (mq s) = max_size"
    using assms(1) by (intro tq_bound.inv_reachable [where k = max_size and s = "fresh_monitor max_size threads"]) auto
  have idle: "cnt P (mt s) = 0" if "\<not> P Outside" "\<not> P Pop_Asleep" "\<And>x. \<not> P (Push_Asleep x)" for P
    using assms(2) that unfolding cnt_zero by (metis nth_mem)
  have none: "cnt serves_pop (mt s) = 0" "cnt serves_push (mt s) = 0" "cnt rings_empty (mt s) = 0" "cnt rings_full (mt s) = 0"
    by (rule idle; simp)+
  have pop: "0 < cnt sleeps_pop (mt s)" if "Pop_Asleep \<in> set (mt s)"
    using that cnt_pos [of _ "mt s" sleeps_pop] by (auto simp: in_set_conv_nth)
  have push: "0 < cnt sleeps_push (mt s)" if "Push_Asleep x \<in> set (mt s)" for x
    using that cnt_pos [of _ "mt s" sleeps_push] by (auto simp: in_set_conv_nth)
  from ok none max have "0 < cnt sleeps_pop (mt s) \<longrightarrow> tq_queue (mq s) = [] \<and> \<not> tq_shutdown (mq s)"
    and "0 < cnt sleeps_push (mt s) \<longrightarrow> 0 < max_size \<and> length (tq_queue (mq s)) = max_size \<and> \<not> tq_shutdown (mq s)"
    unfolding monitor_ok_def Let_def by auto
  with pop push show ?thesis unfolding is_shutdown_def queue_size_def by (metis less_irrefl list.size(3))
qed

text \<open>One thread calls pop and falls asleep, another pushes and wakes it, and it takes the task.\<close>

definition demo_monitor :: "nat monitor" where
  "demo_monitor = (fresh_monitor 64 2)\<lparr>mt := [Pop_Asleep, Outside]\<rparr>"

lemma demo_monitor_reachable: "tq_step\<^sup>*\<^sup>* (fresh_monitor 64 2) demo_monitor"
proof -
  let ?s = "fresh_monitor 64 2 :: nat monitor"
  have "tq_step ?s (?s\<lparr>mt := [Popping, Outside]\<rparr>)"
    using call_pop [of 0 ?s] by (simp add: fresh_monitor_def numeral_2_eq_2)
  moreover have "tq_step (?s\<lparr>mt := [Popping, Outside]\<rparr>) demo_monitor"
    using pop_sleep [of 0 "?s\<lparr>mt := [Popping, Outside]\<rparr>"]
    by (simp add: demo_monitor_def pop_blocked fresh_monitor_def new_queue_def)
  ultimately show ?thesis by (meson r_into_rtranclp rtranclp_trans)
qed

theorem queue_fifo_bounded_witness: "m_pushed demo_monitor = m_popped demo_monitor @ tq_queue (mq demo_monitor)"
  using queue_fifo_bounded [OF demo_monitor_reachable] by simp

theorem no_lost_wakeups_witness: "Pop_Asleep \<in> set (mt demo_monitor) \<and> tq_queue (mq demo_monitor) = []"
  using no_lost_wakeups [OF demo_monitor_reachable] by (simp add: demo_monitor_def)

end
