(* ===== verification/Thread_Pool.thy ===== *)
theory Thread_Pool
  imports Task_Queue "HOL-Library.Multiset"
begin

text \<open>
  src/src/server/thread_pool.cpp and the life cycle of src/src/server/server.cpp and main.cpp:
  the acceptor thread (\<open>Server::start\<close>), the workers (\<open>worker_loop\<close>), the thread that calls
  \<open>Server::stop\<close> and with it \<open>ThreadPool::shutdown\<close>, and the destruction of the server at the
  end of \<open>main\<close>. A task is one client's session. The queue's operations are the critical
  sections of theory \<open>Task_Queue\<close>: a thread whose operation would block takes no step, which
  \<open>no_lost_wakeups\<close> justifies.
\<close>

section \<open>Threads\<close>

text \<open>A worker waits in pop, runs a task, or has left its loop.\<close>

datatype 'a worker = Waiting | Running 'a | Exited

text \<open>
  The main thread: before \<open>start\<close>, at the top of its loop, with a client to hand over, after the
  loop, in the destructor of the pool; and after the destruction of the server, in good order
  or through \<open>std::terminate\<close>.
\<close>

datatype 'a acceptor = Not_Started | Accepting | Holding 'a | Left | Tearing_Down | Destroyed | Terminated

text \<open>
  The thread in \<open>stop\<close>: not called, past the exchange of \<open>running_\<close>, joining the workers in
  \<open>ThreadPool::shutdown\<close>, returned.
\<close>

datatype stopper = Up | Closing | Joining | Stopped

record 'a server =
  sv_queue :: "'a tqueue"
  sv_workers :: "'a worker list"
  sv_running :: bool
  sv_acceptor :: "'a acceptor"
  sv_stopper :: stopper
  sv_joined :: "nat option"
  sv_accepted :: "'a list"
  sv_dropped :: "'a list"
  sv_started :: "'a list"
  sv_finished :: "'a list"

text \<open>The constructor of the pool starts its workers; a negative number makes \<open>workers_.reserve\<close> throw.\<close>

definition start_workers :: "int \<Rightarrow> 'a worker list option" where
  "start_workers num_workers =
     (if num_workers < 0 then None else Some (replicate (nat num_workers) Waiting))"

text \<open>
  \<open>sv_joined\<close> is None until some thread has exchanged the pool's \<open>stopped_\<close>, and then the number
  of workers that thread has joined. \<open>Server::Server\<close> makes a queue for 64 tasks and the workers.
\<close>

definition server_with :: "'a worker list \<Rightarrow> 'a server" where
  "server_with workers =
     \<lparr>sv_queue = new_queue 64, sv_workers = workers, sv_running = False,
      sv_acceptor = Not_Started, sv_stopper = Up, sv_joined = None, sv_accepted = [], sv_dropped = [], sv_started = [], sv_finished = []\<rparr>"

definition new_server :: "nat \<Rightarrow> 'a server" where
  "new_server num_workers = server_with (replicate num_workers Waiting)"

lemmas new_server_def' = new_server_def [unfolded server_with_def]

text \<open>
  \<open>ThreadPool::shutdown\<close>: the compare-and-exchange of \<open>stopped_\<close> lets one caller through, which wakes
  everybody up, and then joins the workers one after the other; joining blocks until the worker
  has left its loop. None stands for the early return, and for the join that blocks.
\<close>

definition begin_shutdown :: "'a server \<Rightarrow> 'a server option" where
  "begin_shutdown s =
     (if sv_joined s = None then Some (s\<lparr>sv_joined := Some 0, sv_queue := shutdown_queue (sv_queue s)\<rparr>) else None)"

definition join_next :: "'a server \<Rightarrow> 'a server option" where
  "join_next s =
     (case sv_joined s of
        None \<Rightarrow> None
      | Some k \<Rightarrow> if k < length (sv_workers s) \<and> sv_workers s ! k = Exited then Some (s\<lparr>sv_joined := Some (Suc k)\<rparr>) else None)"

section \<open>Steps\<close>

text \<open>
  \<open>stop\<close> and \<open>shutdown\<close> go ahead only for the caller whose compare-and-exchange succeeds, so a
  stop before \<open>start\<close> has set \<open>running_\<close> does nothing, and so does a second one. A call of
  \<open>accept\<close> that has begun may still deliver a client until the listening socket is closed. A worker
  ends a task in the same way whether it returned or threw, and may do so at any time: whether
  a session ever ends is up to its client, who may stay connected and silent (theory
  \<open>Pool_Termination\<close>). At the end of \<open>main\<close> the destructor
  of the pool calls \<open>shutdown\<close> again: if the thread in \<open>stop\<close> has got there first it returns at
  once, without waiting, and then the destructor of a thread that is not joined terminates the
  program. (What the other threads do after that has no meaning; the relation does not rule it
  out.)
\<close>

lemmas pool_defs = begin_shutdown_def join_next_def

inductive sv_step :: "'a server \<Rightarrow> 'a server \<Rightarrow> bool" where
  start: "sv_acceptor s = Not_Started \<Longrightarrow> sv_step s (s\<lparr>sv_acceptor := Accepting, sv_running := True\<rparr>)"
| accept: "sv_acceptor s = Accepting \<Longrightarrow> sv_running s \<or> sv_stopper s = Closing \<Longrightarrow> sv_step s (s\<lparr>sv_acceptor := Holding x\<rparr>)"
| hand_over: "sv_acceptor s = Holding x \<Longrightarrow> try_push x (sv_queue s) = Some (True, q) \<Longrightarrow>
     sv_step s (s\<lparr>sv_acceptor := Accepting, sv_queue := q, sv_accepted := sv_accepted s @ [x]\<rparr>)"
| drop_client: "sv_acceptor s = Holding x \<Longrightarrow> try_push x (sv_queue s) = Some (False, q) \<Longrightarrow>
     sv_step s (s\<lparr>sv_acceptor := Accepting, sv_queue := q, sv_dropped := sv_dropped s @ [x]\<rparr>)"
| leave: "sv_acceptor s = Accepting \<Longrightarrow> \<not> sv_running s \<Longrightarrow> sv_step s (s\<lparr>sv_acceptor := Left\<rparr>)"
| take_task: "i < length (sv_workers s) \<Longrightarrow> sv_workers s ! i = Waiting \<Longrightarrow> try_pop (sv_queue s) = Some (Some x, q) \<Longrightarrow>
     sv_step s (s\<lparr>sv_queue := q, sv_workers := (sv_workers s)[i := Running x], sv_started := sv_started s @ [x]\<rparr>)"
| finish_task: "i < length (sv_workers s) \<Longrightarrow> sv_workers s ! i = Running x \<Longrightarrow>
     sv_step s (s\<lparr>sv_workers := (sv_workers s)[i := Waiting], sv_finished := sv_finished s @ [x]\<rparr>)"
| exit_worker: "i < length (sv_workers s) \<Longrightarrow> sv_workers s ! i = Waiting \<Longrightarrow> try_pop (sv_queue s) = Some (None, q) \<Longrightarrow>
     sv_step s (s\<lparr>sv_queue := q, sv_workers := (sv_workers s)[i := Exited]\<rparr>)"
| stop: "sv_stopper s = Up \<Longrightarrow> sv_running s \<Longrightarrow> sv_step s (s\<lparr>sv_stopper := Closing, sv_running := False\<rparr>)"
| shutdown_pool: "sv_stopper s = Closing \<Longrightarrow> begin_shutdown s = Some t \<Longrightarrow> sv_step s (t\<lparr>sv_stopper := Joining\<rparr>)"
| shutdown_again: "sv_stopper s = Closing \<Longrightarrow> begin_shutdown s = None \<Longrightarrow> sv_step s (s\<lparr>sv_stopper := Stopped\<rparr>)"
| join_worker: "sv_stopper s = Joining \<or> sv_acceptor s = Tearing_Down \<Longrightarrow> join_next s = Some t \<Longrightarrow> sv_step s t"
| join_done: "sv_stopper s = Joining \<Longrightarrow> sv_joined s = Some (length (sv_workers s)) \<Longrightarrow>
     sv_step s (s\<lparr>sv_stopper := Stopped\<rparr>)"
| tear_down: "sv_acceptor s = Left \<Longrightarrow> begin_shutdown s = Some t \<Longrightarrow> sv_step s (t\<lparr>sv_acceptor := Tearing_Down\<rparr>)"
| torn_down: "sv_acceptor s = Tearing_Down \<Longrightarrow> sv_joined s = Some (length (sv_workers s)) \<Longrightarrow>
     sv_step s (s\<lparr>sv_acceptor := Destroyed\<rparr>)"
| destroy: "sv_acceptor s = Left \<Longrightarrow> sv_joined s = Some k \<Longrightarrow>
     sv_step s (s\<lparr>sv_acceptor := if k = length (sv_workers s) then Destroyed else Terminated\<rparr>)"

section \<open>The invariant\<close>

definition task_of :: "'a worker \<Rightarrow> 'a list" where
  "task_of w = (case w of Running x \<Rightarrow> [x] | _ \<Rightarrow> [])"

definition running_tasks :: "'a worker list \<Rightarrow> 'a list" where
  "running_tasks ws = concat (map task_of ws)"

lemma running_tasks_update:
  "i < length ws \<Longrightarrow>
     mset (running_tasks (ws[i := w])) + mset (task_of (ws ! i)) = mset (running_tasks ws) + mset (task_of w)"
proof (induction ws arbitrary: i)
  case Nil
  then show ?case by simp
next
  case (Cons v ws)
  then show ?case by (cases i) (auto simp: running_tasks_def add_ac)
qed

definition server_ok :: "'a server \<Rightarrow> bool" where
  "server_ok s \<longleftrightarrow>
     sv_accepted s = sv_started s @ tq_queue (sv_queue s)
     \<and> mset (sv_started s) = mset (sv_finished s) + mset (running_tasks (sv_workers s))
     \<and> tq_max_size (sv_queue s) = 64 \<and> length (tq_queue (sv_queue s)) \<le> 64
     \<and> (Exited \<in> set (sv_workers s) \<longrightarrow> tq_shutdown (sv_queue s) \<and> tq_queue (sv_queue s) = [])
     \<and> (tq_shutdown (sv_queue s) \<longleftrightarrow> sv_joined s \<noteq> None)
     \<and> (\<forall>k. sv_joined s = Some k \<longrightarrow> k \<le> length (sv_workers s) \<and> (\<forall>i<k. sv_workers s ! i = Exited))
     \<and> (sv_acceptor s = Destroyed \<longrightarrow> sv_joined s = Some (length (sv_workers s)))"

lemma exited_stays: "Exited \<in> set (ws[i := w]) \<Longrightarrow> w \<noteq> Exited \<Longrightarrow> Exited \<in> set ws"
  by (auto dest: set_update_subset_insert [THEN subsetD])

lemma server_ok_step: "sv_step s t \<Longrightarrow> server_ok s \<Longrightarrow> server_ok t"
proof (induction rule: sv_step.induct)
  case (take_task i s x q)
  then obtain xs where q: "tq_queue (sv_queue s) = x # xs" "q = (sv_queue s)\<lparr>tq_queue := xs\<rparr>" by (auto simp: pop_taken)
  have "Exited \<notin> set ((sv_workers s)[i := Running x])"
    using take_task(4) q(1) exited_stays by (fastforce simp: server_ok_def)
  moreover have "mset (running_tasks ((sv_workers s)[i := Running x])) = add_mset x (mset (running_tasks (sv_workers s)))"
    using running_tasks_update [OF take_task(1), of "Running x"] take_task(2) by (simp add: task_of_def)
  ultimately show ?case using take_task q by (auto simp: server_ok_def nth_list_update)
next
  case (finish_task i s x)
  have "mset (running_tasks (sv_workers s)) = add_mset x (mset (running_tasks ((sv_workers s)[i := Waiting])))"
    using running_tasks_update [OF finish_task(1), of Waiting] finish_task(2) by (simp add: task_of_def)
  moreover have "Exited \<in> set ((sv_workers s)[i := Waiting]) \<Longrightarrow> Exited \<in> set (sv_workers s)" using exited_stays by fastforce
  ultimately show ?case using finish_task by (auto simp: server_ok_def nth_list_update)
next
  case (exit_worker i s q)
  have "mset (running_tasks ((sv_workers s)[i := Exited])) = mset (running_tasks (sv_workers s))"
    using running_tasks_update [OF exit_worker(1), of Exited] exit_worker(2) by (simp add: task_of_def)
  then show ?case using exit_worker
    by (auto simp: server_ok_def nth_list_update critical_sections)
next
  case (hand_over s x q)
  then show ?case by (auto simp: server_ok_def critical_sections)
next
  case (join_worker s t)
  then show ?case by (auto simp: server_ok_def pool_defs less_Suc_eq split: option.splits if_splits)
qed (auto simp: server_ok_def critical_sections shutdown_queue_def pool_defs split: if_splits)

lemma server_ok_new: "server_ok (new_server n)"
proof -
  have "running_tasks (replicate n Waiting) = []" by (simp add: running_tasks_def task_of_def)
  then show ?thesis by (simp add: server_ok_def new_server_def' new_queue_def)
qed

interpretation server: invariant_of_steps "\<lambda>s. \<exists>n. s = new_server n" sv_step server_ok
  by unfold_locales (auto intro: server_ok_new server_ok_step)

interpretation workers: invariant_of_steps "\<lambda>s. s = new_server n" sv_step "\<lambda>s. length (sv_workers s) = n" for n
proof unfold_locales
  show "length (sv_workers t) = n" if "length (sv_workers s) = n" "sv_step s t" for s t
    using that(2,1) by cases (auto simp: pool_defs split: option.splits if_splits)
qed (simp add: new_server_def')

interpretation drops: invariant_of_steps "\<lambda>s. \<exists>n. s = new_server n" sv_step
  "\<lambda>s. sv_dropped s \<noteq> [] \<longrightarrow> is_shutdown (sv_queue s)"
proof unfold_locales
  show "sv_dropped t \<noteq> [] \<longrightarrow> is_shutdown (sv_queue t)"
    if "sv_dropped s \<noteq> [] \<longrightarrow> is_shutdown (sv_queue s)" "sv_step s t" for s t
    using that(2,1) by cases (auto simp: critical_sections is_shutdown_def shutdown_queue_def pool_defs split: option.splits if_splits)
qed (auto simp: new_server_def')

lemma joined_drained:
  assumes "sv_step\<^sup>*\<^sup>* (new_server n) s" and "sv_joined s = Some n" and "0 < n"
  shows "mset (sv_finished s) = mset (sv_accepted s) \<and> tq_queue (sv_queue s) = []
    \<and> sv_workers s = replicate n Exited"
proof -
  have ok: "server_ok s" using assms(1) by (intro server.inv_reachable [of "new_server n"]) auto
  have len: "length (sv_workers s) = n" using assms(1) by (intro workers.inv_reachable [of "new_server n"]) auto
  have all: "\<forall>i<n. sv_workers s ! i = Exited" using ok len assms(2) by (auto simp: server_ok_def)
  with len have ws: "sv_workers s = replicate n Exited" by (auto intro: nth_equalityI)
  then have "tq_queue (sv_queue s) = []" using ok assms(3) by (auto simp: server_ok_def)
  moreover have "running_tasks (replicate n Exited) = []" by (simp add: running_tasks_def task_of_def)
  ultimately show ?thesis using ok ws by (simp add: server_ok_def)
qed

section \<open>Properties\<close>

text \<open>C27: at every moment and in every interleaving, the sessions started are the accepted clients in
  the order they were accepted, less those still queued, of which there are at most 64; every
  session started is either finished or running on one of the workers, never on two; and a
  client is dropped only because the server is shutting down.\<close>

theorem sessions_in_order:
  assumes "sv_step\<^sup>*\<^sup>* (new_server n) s"
  shows "sv_accepted s = sv_started s @ tq_queue (sv_queue s) \<and> queue_size (sv_queue s) \<le> 64
    \<and> mset (sv_started s) = mset (sv_finished s) + mset (running_tasks (sv_workers s))
    \<and> length (running_tasks (sv_workers s)) \<le> n
    \<and> (sv_dropped s \<noteq> [] \<longrightarrow> is_shutdown (sv_queue s))"
proof -
  have ok: "server_ok s" using assms by (intro server.inv_reachable [of "new_server n"]) auto
  have "length (sv_workers s) = n" using assms by (intro workers.inv_reachable [of "new_server n"]) auto
  moreover have "length (running_tasks ws) \<le> length ws" for ws :: "'a worker list"
    by (induction ws) (auto simp: running_tasks_def task_of_def split: worker.split)
  moreover have "sv_dropped s \<noteq> [] \<longrightarrow> is_shutdown (sv_queue s)"
    using assms by (intro drops.inv_reachable [of "new_server n"]) auto
  ultimately show ?thesis using ok by (auto simp: server_ok_def queue_size_def)
qed

text \<open>C28: a shutdown drains the queue. When \<open>ThreadPool::shutdown\<close> has joined all workers, every
  client that was accepted has been served to the end of its session and none is left in the
  queue or running. (So it does not return while any client stays connected.)\<close>

theorem shutdown_drains_queue:
  assumes "sv_step\<^sup>*\<^sup>* (new_server n) s" and "sv_joined s = Some n" and "0 < n"
  shows "mset (sv_finished s) = mset (sv_accepted s) \<and> tq_queue (sv_queue s) = []
    \<and> sv_workers s = replicate n Exited"
  using joined_drained [OF assms] .

text \<open>C30: the destruction of the server at the end of \<open>main\<close> does not wait for a \<open>stop\<close> that is
  joining the workers in another thread: if the main thread leaves its loop in the meantime the
  program ends in \<open>std::terminate\<close>. It ends in good order only when every worker has been joined.\<close>

theorem destruction_races_with_stop:
  assumes "sv_step\<^sup>*\<^sup>* (new_server n) s" and "sv_acceptor s = Left"
  shows "(\<forall>k<n. sv_joined s = Some k \<longrightarrow> sv_step\<^sup>*\<^sup>* (new_server n) (s\<lparr>sv_acceptor := Terminated\<rparr>))
    \<and> (\<forall>t. sv_step\<^sup>*\<^sup>* s t \<and> sv_acceptor t = Destroyed \<longrightarrow> sv_workers t = replicate n Exited)"
proof -
  have len: "length (sv_workers s) = n" using assms(1) by (intro workers.inv_reachable [of "new_server n"]) auto
  have crash: "sv_step\<^sup>*\<^sup>* (new_server n) (s\<lparr>sv_acceptor := Terminated\<rparr>)" if "k < n" "sv_joined s = Some k" for k
    using assms(1) destroy [OF assms(2) that(2)] len that(1) by (auto intro: rtranclp.rtrancl_into_rtrancl)
  have "sv_workers t = replicate n Exited" if "sv_step\<^sup>*\<^sup>* s t" "sv_acceptor t = Destroyed" for t
  proof -
    have reach: "sv_step\<^sup>*\<^sup>* (new_server n) t" using assms(1) that(1) by (rule rtranclp_trans)
    have "server_ok t" using reach by (intro server.inv_reachable [of "new_server n"]) auto
    moreover have "length (sv_workers t) = n" using reach by (intro workers.inv_reachable [of "new_server n"]) auto
    ultimately show ?thesis using that(2) by (auto simp: server_ok_def intro: nth_equalityI)
  qed
  with crash show ?thesis by blast
qed

section \<open>Runs\<close>

text \<open>One worker, one client: served to the end and stopped in good order.\<close>

lemma good_run:
  obtains s where "sv_step\<^sup>*\<^sup>* (new_server 1) s" and "sv_joined s = Some 1" and "sv_accepted s = [7::nat]"
    and "sv_acceptor s = Left"
proof -
  let ?s0 = "new_server 1 :: nat server"
  let ?s1 = "?s0\<lparr>sv_acceptor := Accepting, sv_running := True\<rparr>"
  let ?s2 = "?s1\<lparr>sv_acceptor := Holding 7\<rparr>"
  let ?q = "(new_queue 64)\<lparr>tq_queue := [7::nat]\<rparr>"
  let ?s3 = "?s2\<lparr>sv_acceptor := Accepting, sv_queue := ?q, sv_accepted := [7]\<rparr>"
  let ?s4 = "?s3\<lparr>sv_queue := new_queue 64, sv_workers := [Running 7], sv_started := [7]\<rparr>"
  let ?s5 = "?s4\<lparr>sv_workers := [Waiting], sv_finished := [7]\<rparr>"
  let ?s6 = "?s5\<lparr>sv_stopper := Closing, sv_running := False\<rparr>"
  let ?s7 = "?s6\<lparr>sv_stopper := Joining, sv_joined := Some 0, sv_queue := shutdown_queue (new_queue 64)\<rparr>"
  let ?s8 = "?s7\<lparr>sv_workers := [Exited]\<rparr>"
  let ?s9 = "?s8\<lparr>sv_joined := Some 1\<rparr>"
  let ?s10 = "?s9\<lparr>sv_stopper := Stopped\<rparr>"
  let ?s11 = "?s10\<lparr>sv_acceptor := Left\<rparr>"
  note sims = new_server_def' new_queue_def critical_sections shutdown_queue_def pool_defs
  have "sv_step ?s0 ?s1" by (rule sv_step.start) (simp add: sims)
  moreover have "sv_step ?s1 ?s2" by (rule sv_step.accept) (simp_all add: sims)
  moreover have "sv_step ?s2 ?s3" using sv_step.hand_over [of ?s2 7 ?q] by (simp add: sims)
  moreover have "sv_step ?s3 ?s4" using sv_step.take_task [of 0 ?s3 7 "new_queue 64"] by (simp add: sims)
  moreover have "sv_step ?s4 ?s5" using sv_step.finish_task [of 0 ?s4 7] by (simp add: sims)
  moreover have "sv_step ?s5 ?s6" by (rule sv_step.stop) (simp_all add: sims)
  moreover have "sv_step ?s6 ?s7" using sv_step.shutdown_pool [of ?s6] by (simp add: sims)
  moreover have "sv_step ?s7 ?s8" using sv_step.exit_worker [of 0 ?s7 "shutdown_queue (new_queue 64)"] by (simp add: sims)
  moreover have "sv_step ?s8 ?s9" using sv_step.join_worker [of ?s8] by (simp add: sims)
  moreover have "sv_step ?s9 ?s10" by (rule sv_step.join_done) (simp_all add: sims)
  moreover have "sv_step ?s10 ?s11" by (rule sv_step.leave) (simp_all add: sims)
  ultimately have "sv_step\<^sup>*\<^sup>* ?s0 ?s11" by (meson converse_rtranclp_into_rtranclp rtranclp.rtrancl_refl)
  then show thesis by (rule that) simp_all
qed

theorem shutdown_drains_queue_witness:
  "\<exists>s :: nat server. sv_step\<^sup>*\<^sup>* (new_server 1) s \<and> sv_joined s = Some 1 \<and> mset (sv_finished s) = {#7#}"
proof -
  obtain s where s: "sv_step\<^sup>*\<^sup>* (new_server 1) s" "sv_joined s = Some 1" "sv_accepted s = [7::nat]"
    by (rule good_run)
  with shutdown_drains_queue [OF s(1,2)] show ?thesis by auto
qed

theorem sessions_in_order_witness:
  "\<exists>s :: nat server. sv_step\<^sup>*\<^sup>* (new_server 1) s \<and> sv_accepted s = [7] \<and> queue_size (sv_queue s) \<le> 64"
proof -
  obtain s where s: "sv_step\<^sup>*\<^sup>* (new_server 1) s" "sv_accepted s = [7::nat]" by (rule good_run)
  with sessions_in_order [OF s(1)] show ?thesis by auto
qed

text \<open>Stopping while no worker has been joined yet, with the main thread already out of its loop.\<close>

lemma racing_run:
  obtains s :: "nat server" where "sv_step\<^sup>*\<^sup>* (new_server 1) s" and "sv_acceptor s = Left" and "sv_joined s = Some 0"
proof -
  let ?s0 = "new_server 1 :: nat server"
  let ?s1 = "?s0\<lparr>sv_acceptor := Accepting, sv_running := True\<rparr>"
  let ?s2 = "?s1\<lparr>sv_stopper := Closing, sv_running := False\<rparr>"
  let ?s3 = "?s2\<lparr>sv_stopper := Joining, sv_joined := Some 0, sv_queue := shutdown_queue (new_queue 64)\<rparr>"
  let ?s4 = "?s3\<lparr>sv_acceptor := Left\<rparr>"
  have "sv_step ?s0 ?s1" by (rule sv_step.start) (simp add: new_server_def')
  moreover have "sv_step ?s1 ?s2" by (rule sv_step.stop) (simp_all add: new_server_def')
  moreover have "sv_step ?s2 ?s3" using sv_step.shutdown_pool [of ?s2] by (simp add: new_server_def' pool_defs)
  moreover have "sv_step ?s3 ?s4" by (rule sv_step.leave) simp_all
  ultimately have "sv_step\<^sup>*\<^sup>* ?s0 ?s4" by (meson converse_rtranclp_into_rtranclp rtranclp.rtrancl_refl)
  then show thesis by (rule that) simp_all
qed

theorem destruction_races_with_stop_witness:
  "\<exists>s :: nat server. sv_step\<^sup>*\<^sup>* (new_server 1) s \<and> sv_acceptor s = Terminated"
proof -
  obtain s :: "nat server" where s: "sv_step\<^sup>*\<^sup>* (new_server 1) s" "sv_acceptor s = Left" "sv_joined s = Some 0"
    by (rule racing_run)
  with destruction_races_with_stop [OF s(1,2)]
  have "sv_step\<^sup>*\<^sup>* (new_server 1) (s\<lparr>sv_acceptor := Terminated\<rparr>)" by simp
  then show ?thesis by (intro exI [of _ "s\<lparr>sv_acceptor := Terminated\<rparr>"]) simp
qed

end
