(* ===== verification/Pool_Termination.thy ===== *)
theory Pool_Termination
  imports Thread_Pool "HOL-Library.Word"
begin

text \<open>
  The end of a run of the server (src/src/server/thread_pool.cpp, \<open>Server::stop\<close> and the end of
  \<open>main\<close>): once \<open>ThreadPool::shutdown\<close> has begun every step of every thread counts down a measure,
  so no interleaving runs on. Where it gets stuck depends on the sessions: nothing wakes a worker
  that waits for the next request of a client who stays connected.
\<close>

section \<open>What shutdown makes impossible\<close>






section \<open>The measure\<close>













section \<open>Clients that stay\<close>










section \<open>Which threads are left waiting\<close>







section \<open>Properties\<close>





end
