(* ===== verification/Protocol.thy ===== *)
theory Protocol
  imports Net_Utils
begin

text \<open>
  src/src/common/protocol.h and protocol.cpp: commands, status codes, the 32-byte message
  header and its network byte order, and the functions that send and receive whole messages.
\<close>

section \<open>Commands and status codes\<close>

datatype CommandType = LOGIN | UPLOAD | DOWNLOAD | LIST | DELETE_F | RENAME | QUIT

fun command_code :: "CommandType \<Rightarrow> u32" where
  "command_code LOGIN = 1"
| "command_code UPLOAD = 2"
| "command_code DOWNLOAD = 3"
| "command_code LIST = 4"
| "command_code DELETE_F = 5"
| "command_code RENAME = 6"
| "command_code QUIT = 7"

datatype StatusCode = OK | CREATED | BAD_REQUEST | NOT_FOUND | CONFLICT | INTERNAL_ERROR

fun status_code :: "StatusCode \<Rightarrow> u32" where
  "status_code OK = 200"
| "status_code CREATED = 201"
| "status_code BAD_REQUEST = 400"
| "status_code NOT_FOUND = 404"
| "status_code CONFLICT = 409"
| "status_code INTERNAL_ERROR = 500"

text \<open>
  \<open>static_cast<CommandType>(cmd)\<close> of a number that is no enumerator is legal and matches
  no case of a switch: None.
\<close>

definition to_command :: "u32 \<Rightarrow> CommandType option" where
  "to_command c = (if c = 1 then Some LOGIN else if c = 2 then Some UPLOAD
     else if c = 3 then Some DOWNLOAD else if c = 4 then Some LIST
     else if c = 5 then Some DELETE_F else if c = 6 then Some RENAME
     else if c = 7 then Some QUIT else None)"

definition to_status :: "u32 \<Rightarrow> StatusCode option" where
  "to_status c = (if c = 200 then Some OK else if c = 201 then Some CREATED
     else if c = 400 then Some BAD_REQUEST else if c = 404 then Some NOT_FOUND
     else if c = 409 then Some CONFLICT else if c = 500 then Some INTERNAL_ERROR else None)"

lemma to_command_code [simp]: "to_command (command_code c) = Some c"
  by (cases c) (simp_all add: to_command_def)

lemma to_command_Some: "to_command w = Some c \<longleftrightarrow> w = command_code c"
  by (cases c) (auto simp: to_command_def)

lemma to_status_code [simp]: "to_status (status_code c) = Some c"
  by (cases c) (simp_all add: to_status_def)

definition command_to_string :: "u32 \<Rightarrow> bytes" where
  "command_to_string cmd = (case to_command cmd of
       Some LOGIN \<Rightarrow> ''LOGIN'' | Some UPLOAD \<Rightarrow> ''UPLOAD'' | Some DOWNLOAD \<Rightarrow> ''DOWNLOAD''
     | Some LIST \<Rightarrow> ''LIST'' | Some DELETE_F \<Rightarrow> ''DELETE'' | Some RENAME \<Rightarrow> ''RENAME''
     | Some QUIT \<Rightarrow> ''QUIT'' | None \<Rightarrow> ''UNKNOWN'')"

definition status_to_string :: "u32 \<Rightarrow> bytes" where
  "status_to_string status = (case to_status status of
       Some OK \<Rightarrow> ''200 OK'' | Some CREATED \<Rightarrow> ''201 Created''
     | Some BAD_REQUEST \<Rightarrow> ''400 Bad Request'' | Some NOT_FOUND \<Rightarrow> ''404 Not Found''
     | Some CONFLICT \<Rightarrow> ''409 Conflict'' | Some INTERNAL_ERROR \<Rightarrow> ''500 Internal Error''
     | None \<Rightarrow> ''??? Unknown'')"

section \<open>The message header\<close>

record MessageHeader =
  command :: u32
  status :: u32
  payload_length :: u64
  filename_length :: u64
  username_length :: u64

definition make_request :: "CommandType \<Rightarrow> u64 \<Rightarrow> u64 \<Rightarrow> u64 \<Rightarrow> MessageHeader" where
  "make_request cmd payload_len filename_len username_len =
     \<lparr>command = command_code cmd, status = 0, payload_length = payload_len,
      filename_length = filename_len, username_length = username_len\<rparr>"

text \<open>The first argument of \<open>make_response\<close> is a cast from the wire, so any 32-bit number.\<close>

definition make_response :: "u32 \<Rightarrow> StatusCode \<Rightarrow> u64 \<Rightarrow> u64 \<Rightarrow> MessageHeader" where
  "make_response cmd st payload_len filename_len =
     \<lparr>command = cmd, status = status_code st, payload_length = payload_len,
      filename_length = filename_len, username_length = 0\<rparr>"

section \<open>Byte order\<close>

text \<open>
  The host is little-endian or big-endian: the parameter \<open>be\<close>. \<open>mem32\<close> and \<open>mem64\<close> are the
  bytes of an integer in the host's memory, \<open>load32\<close> and \<open>load64\<close> read them.
\<close>

definition mem32 :: "bool \<Rightarrow> u32 \<Rightarrow> bytes" where
  "mem32 be w = (if be then rev (le_bytes 4 (unat w)) else le_bytes 4 (unat w))"

definition mem64 :: "bool \<Rightarrow> u64 \<Rightarrow> bytes" where
  "mem64 be w = (if be then rev (le_bytes 8 (unat w)) else le_bytes 8 (unat w))"

definition load32 :: "bool \<Rightarrow> bytes \<Rightarrow> u32" where
  "load32 be bs = word_of_nat (le_val (if be then rev bs else bs))"

definition load64 :: "bool \<Rightarrow> bytes \<Rightarrow> u64" where
  "load64 be bs = word_of_nat (le_val (if be then rev bs else bs))"

text \<open>
  \<open>htonl\<close> gives the 32-bit number whose bytes in the host's memory are the network (big-endian)
  bytes of its argument: the identity or a reversal of the four bytes. \<open>ntohl\<close> is the same map.
\<close>

definition htonl :: "bool \<Rightarrow> u32 \<Rightarrow> u32" where
  "htonl be w = (if be then w else word_of_nat (le_val (rev (le_bytes 4 (unat w)))))"

text \<open>The macro \<open>htonll\<close> of protocol.cpp, with its test of the host's byte order; \<open>ntohll\<close> is \<open>htonll\<close>.\<close>

definition htonll :: "bool \<Rightarrow> u64 \<Rightarrow> u64" where
  "htonll be x =
     (if 1 = htonl be 1 then x
      else push_bit 32 (ucast (htonl be (ucast (x AND 0xFFFFFFFF))))
           OR ucast (htonl be (ucast (drop_bit 32 x))))"

lemma unat_lt_256_4: "unat (w :: u32) < 256 ^ 4"
  using unsigned_less [of w] by simp

lemma unat_lt_256_8: "unat (w :: u64) < 256 ^ 8"
  using unsigned_less [of w] by simp

lemma length_mem [simp]: "length (mem32 be w) = 4" "length (mem64 be v) = 8"
  by (simp_all add: mem32_def mem64_def)

lemma load32_mem32 [simp]: "load32 be (mem32 be w) = w"
  using unat_lt_256_4 [of w] by (simp add: load32_def mem32_def le_val_le_bytes)

lemma load64_mem64 [simp]: "load64 be (mem64 be w) = w"
  using unat_lt_256_8 [of w] by (simp add: load64_def mem64_def le_val_le_bytes)

lemma unat_of_le_val4: "length bs = 4 \<Longrightarrow> unat (word_of_nat (le_val bs) :: u32) = le_val bs"
  using le_val_bound [of bs] by (simp add: unat_of_nat)

lemma unat_of_le_val8: "length bs = 8 \<Longrightarrow> unat (word_of_nat (le_val bs) :: u64) = le_val bs"
  using le_val_bound [of bs] by (simp add: unat_of_nat)

lemma mem32_load32: "length bs = 4 \<Longrightarrow> mem32 be (load32 be bs) = bs"
  by (simp add: mem32_def load32_def unat_of_le_val4 le_bytes_le_val)

lemma mem64_load64: "length bs = 8 \<Longrightarrow> mem64 be (load64 be bs) = bs"
  by (simp add: mem64_def load64_def unat_of_le_val8 le_bytes_le_val)

text \<open>The bytes an integer has on the wire: big-endian, whatever the host.\<close>

definition net32 :: "u32 \<Rightarrow> bytes" where "net32 w = rev (le_bytes 4 (unat w))"
definition net64 :: "u64 \<Rightarrow> bytes" where "net64 w = rev (le_bytes 8 (unat w))"

lemma mem32_htonl: "mem32 be (htonl be w) = net32 w"
  by (simp add: mem32_def htonl_def net32_def unat_of_le_val4 le_bytes_le_val)

lemma htonl_htonl [simp]: "htonl be (htonl be w) = w"
  using unat_lt_256_4 [of w]
  by (simp add: htonl_def unat_of_le_val4 le_bytes_le_val le_val_le_bytes)

lemma htonl_one: "(1 = htonl be 1) = be"
  by (simp add: htonl_def le_bytes_numeral)

text \<open>The macro swaps the halves and the bytes inside each half, which is the 8-byte reversal.\<close>

lemma unat_join_halves:
  "unat (push_bit 32 (ucast (a :: u32)) OR ucast (b :: u32) :: u64) = 2 ^ 32 * unat a + unat b"
proof -
  have lt: "unat a < 2 ^ 32" "unat b < 2 ^ 32"
    using unsigned_less [of a] unsigned_less [of b] by simp_all
  have "unat (push_bit 32 (ucast a) OR ucast b :: u64) = push_bit 32 (unat a) OR unat b"
    unfolding unsigned_or_eq unsigned_push_bit_eq unsigned_ucast_eq
    using lt by (simp add: take_bit_nat_eq_self push_bit_eq_mult)
  also have "\<dots> = push_bit 32 (unat a) + unat b"
  proof (rule disjunctive_add_eq_or [symmetric])
    have "take_bit 32 (unat b) = unat b" using lt by (simp add: take_bit_nat_eq_self)
    then have "\<And>n. bit (unat b) n \<Longrightarrow> n < 32" by (metis bit_take_bit_iff)
    then show "push_bit 32 (unat a) AND unat b = 0" by (auto simp: bit_eq_iff bit_simps not_le)
  qed
  finally show ?thesis by (simp add: push_bit_eq_mult mult.commute)
qed

lemma unat_low_half: "unat (ucast (x AND 0xFFFFFFFF :: u64) :: u32) = unat x mod 256 ^ 4"
proof -
  have "x AND 0xFFFFFFFF = take_bit 32 x" by (simp add: take_bit_eq_mask mask_eq_exp_minus_1)
  then show ?thesis unfolding unsigned_ucast_eq by (simp only: unsigned_take_bit_eq) (simp add: take_bit_eq_mod)
qed

lemma unat_high_half: "unat (ucast (drop_bit 32 (x :: u64)) :: u32) = unat x div 256 ^ 4"
proof -
  have lt: "unat x < 2 ^ 64" using unsigned_less [of x] by simp
  then have "unat x div 2 ^ 32 < 2 ^ 32" by (simp add: div_less_iff_less_mult)
  with lt show ?thesis unfolding unsigned_ucast_eq unsigned_drop_bit_eq
    by (simp add: drop_bit_eq_div take_bit_nat_eq_self)
qed

lemma mem64_htonll: "mem64 be (htonll be x) = net64 x"
proof (cases be)
  case True
  then show ?thesis by (simp add: htonll_def htonl_one mem64_def net64_def)
next
  case False
  let ?lo = "ucast (x AND 0xFFFFFFFF) :: u32" and ?hi = "ucast (drop_bit 32 x) :: u32"
  have four: "unat (w :: u32) < 256 ^ 4" for w by (rule unat_lt_256_4)
  have rev4: "le_bytes 4 (unat (htonl False w)) = rev (le_bytes 4 (unat w))" for w
    using mem32_htonl [of False w] by (simp add: mem32_def net32_def)
  have "mem64 be (htonll be x) = le_bytes (4 + 4) (256 ^ 4 * unat (htonl False ?lo) + unat (htonl False ?hi))"
    using False by (simp add: mem64_def htonll_def htonl_one [simplified] unat_join_halves)
  also have "\<dots> = le_bytes 4 (unat (htonl False ?hi)) @ le_bytes 4 (unat (htonl False ?lo))"
    unfolding le_bytes_add
    using le_bytes_mod [of 4 "256 ^ 4 * unat (htonl False ?lo) + unat (htonl False ?hi)"]
      four [of "htonl False ?hi"] by (simp add: div_mult_self4)
  also have "\<dots> = rev (le_bytes 4 (unat ?lo) @ le_bytes 4 (unat ?hi))"
    by (simp add: rev4)
  also have "\<dots> = rev (le_bytes (4 + 4) (unat x))"
    unfolding le_bytes_add unat_low_half unat_high_half le_bytes_mod ..
  finally show ?thesis by (simp add: net64_def)
qed

section \<open>Sending and receiving the header\<close>

text \<open>The packed struct in memory, and the fields converted in place.\<close>

definition header_memory :: "bool \<Rightarrow> MessageHeader \<Rightarrow> bytes" where
  "header_memory be h =
     mem32 be (command h) @ mem32 be (status h) @ mem64 be (payload_length h)
     @ mem64 be (filename_length h) @ mem64 be (username_length h)"

definition header_load :: "bool \<Rightarrow> bytes \<Rightarrow> MessageHeader" where
  "header_load be bs =
     \<lparr>command = load32 be (take 4 bs), status = load32 be (take 4 (drop 4 bs)),
      payload_length = load64 be (take 8 (drop 8 bs)),
      filename_length = load64 be (take 8 (drop 16 bs)),
      username_length = load64 be (take 8 (drop 24 bs))\<rparr>"

definition swap_header :: "bool \<Rightarrow> MessageHeader \<Rightarrow> MessageHeader" where
  "swap_header be h =
     \<lparr>command = htonl be (command h), status = htonl be (status h),
      payload_length = htonll be (payload_length h),
      filename_length = htonll be (filename_length h),
      username_length = htonll be (username_length h)\<rparr>"

definition HEADER_SIZE :: nat where "HEADER_SIZE = 32"

definition send_header :: "bool \<Rightarrow> socket \<Rightarrow> MessageHeader \<Rightarrow> bool \<times> socket" where
  "send_header be s hdr = send_all s (header_memory be (swap_header be hdr)) HEADER_SIZE"

definition recv_header :: "bool \<Rightarrow> socket \<Rightarrow> MessageHeader option \<times> socket" where
  "recv_header be s =
     (case recv_all s HEADER_SIZE of
        (None, t) \<Rightarrow> (None, t)
      | (Some bs, t) \<Rightarrow> (Some (swap_header be (header_load be bs)), t))"

text \<open>What the header looks like on the wire: five big-endian numbers, 32 bytes.\<close>

definition header_wire :: "MessageHeader \<Rightarrow> bytes" where
  "header_wire h =
     net32 (command h) @ net32 (status h) @ net64 (payload_length h)
     @ net64 (filename_length h) @ net64 (username_length h)"

lemma length_net [simp]: "length (net32 w) = 4" "length (net64 v) = 8"
  by (simp_all add: net32_def net64_def)

lemma length_header_wire [simp]: "length (header_wire h) = 32"
  by (simp add: header_wire_def)

lemma length_header_memory [simp]: "length (header_memory be h) = 32"
  by (simp add: header_memory_def)

lemma header_memory_swap: "header_memory be (swap_header be h) = header_wire h"
  by (simp add: header_memory_def swap_header_def header_wire_def mem32_htonl mem64_htonll)

lemma htonll_htonll [simp]: "htonll be (htonll be x) = x"
proof (cases be)
  case True
  then show ?thesis by (simp add: htonll_def htonl_one)
next
  case False
  have "le_bytes 8 (unat (htonll False x)) = rev (le_bytes 8 (unat x))"
    using mem64_htonll [of False x] by (simp add: mem64_def net64_def)
  then have "mem64 False (htonll False (htonll False x)) = mem64 False x"
    unfolding mem64_htonll by (simp add: mem64_def net64_def)
  with False show ?thesis by (metis load64_mem64)
qed

lemma swap_header_swap [simp]: "swap_header be (swap_header be h) = h"
  by (simp add: swap_header_def)

lemma header_load_memory [simp]: "header_load be (header_memory be h) = h"
  by (simp add: header_load_def header_memory_def)

lemma header_memory_load:
  assumes "length bs = 32"
  shows "header_memory be (header_load be bs) = bs"
proof -
  have "take 4 bs @ take 4 (drop 4 bs) @ take 8 (drop 8 bs) @ take 8 (drop 16 bs) @ take 8 (drop 24 bs)
      = take (4 + (4 + (8 + (8 + 8)))) bs"
    by (simp only: take_add drop_drop append_assoc) simp
  with assms show ?thesis
    by (simp add: header_memory_def header_load_def mem32_load32 mem64_load64)
qed

lemma header_wire_parse: "length bs = 32 \<Longrightarrow> header_wire (swap_header be (header_load be bs)) = bs"
  using header_memory_swap [of be "swap_header be (header_load be bs)"]
  by (simp add: header_memory_load)

lemma header_parse_wire [simp]: "swap_header be (header_load be (header_wire h)) = h"
  by (simp flip: header_memory_swap [of be])

lemma send_header_wire: "send_header be s hdr = send_all s (header_wire hdr) 32"
  by (simp add: send_header_def header_memory_swap HEADER_SIZE_def)

lemma recv_header_some:
  assumes "recv_contract s" and "recv_header be s = (Some h, t)"
  shows "sk_rx s = header_wire h @ sk_rx t \<and> recv_contract t"
  using assms rx.rcv_exact [OF assms(1), of 32] rx.rcv_lawful
  by (auto simp: recv_header_def HEADER_SIZE_def header_wire_parse split: prod.splits option.splits)

lemma recv_header_reads: "recv_header be s = (r, t) \<Longrightarrow> only_reads s t"
  using recv_all_reads by (auto simp: recv_header_def split: prod.splits option.splits)

lemma recv_header_consumes: "recv_header be s = (Some h, t) \<Longrightarrow> 32 + length (sk_rx t) \<le> length (sk_rx s)"
  using recv_all_consumes [of s 32]
  by (auto simp: recv_header_def HEADER_SIZE_def split: prod.splits option.splits)

lemma recv_header_wire:
  assumes "recv_contract s" and "recv_reliable s" and "sk_rx s = header_wire h @ ys"
  obtains t where "recv_header be s = (Some h, t)" and "sk_rx t = ys" and "only_reads s t"
proof -
  obtain t where t: "recv_all s 32 = (Some (header_wire h), t)" "sk_rx t = ys" "only_reads s t"
    using recv_all_append [OF assms] by auto
  then have "recv_header be s = (Some h, t)" by (simp add: recv_header_def HEADER_SIZE_def)
  with t(2,3) show thesis by (rule that [rotated])
qed

section \<open>Sending messages\<close>

text \<open>\<open>if (!send...) return false;\<close> before the rest of the function.\<close>

fun send_then :: "bool \<times> socket \<Rightarrow> (socket \<Rightarrow> bool \<times> socket) \<Rightarrow> bool \<times> socket" where
  "send_then (False, s) k = (False, s)"
| "send_then (True, s) k = k s"

text \<open>
  The number of bytes sent for a field is the length announced in the header; callers pass a
  string of that length.
\<close>

definition send_field :: "socket \<Rightarrow> bytes \<Rightarrow> u64 \<Rightarrow> bool \<times> socket" where
  "send_field s d len = (if 0 < len then send_all s d (unat len) else (True, s))"

definition send_message_meta :: "bool \<Rightarrow> socket \<Rightarrow> MessageHeader \<Rightarrow> bytes \<Rightarrow> bytes \<Rightarrow> bool \<times> socket" where
  "send_message_meta be s hdr username filename =
     send_then (send_header be s hdr) (\<lambda>s.
     send_then (send_field s username (username_length hdr)) (\<lambda>s.
     send_field s filename (filename_length hdr)))"

text \<open>A payload pointer that may be null, and the size passed along with it.\<close>

definition send_message ::
    "bool \<Rightarrow> socket \<Rightarrow> MessageHeader \<Rightarrow> bytes \<Rightarrow> bytes \<Rightarrow> bytes option \<Rightarrow> nat \<Rightarrow> bool \<times> socket" where
  "send_message be s hdr username filename payload payload_size =
     send_then (send_header be s hdr) (\<lambda>s.
     send_then (send_field s username (username_length hdr)) (\<lambda>s.
     send_then (send_field s filename (filename_length hdr)) (\<lambda>s.
     case payload of
       Some d \<Rightarrow> if 0 < payload_length hdr then send_all s d payload_size else (True, s)
     | None \<Rightarrow> (True, s))))"

section \<open>Receiving messages\<close>

text \<open>
  A receiving function fills its output parameters and returns true, returns false, or throws:
  \<open>resize\<close> throws when the announced length cannot be allocated. Which lengths can is a
  parameter, \<open>alloc\<close>; \<open>std::string::resize\<close> and \<open>std::vector::resize\<close> document that they throw
  above \<open>max_size()\<close> and when memory runs out, and do not otherwise.
\<close>

datatype 'a received = Received 'a | Lost | Thrown

definition recv_field :: "(nat \<Rightarrow> bool) \<Rightarrow> socket \<Rightarrow> u64 \<Rightarrow> bytes received \<times> socket" where
  "recv_field alloc s len =
     (if 0 < len then
        (if alloc (unat len) then
           (case recv_all s (unat len) of (None, t) \<Rightarrow> (Lost, t) | (Some bs, t) \<Rightarrow> (Received bs, t))
         else (Thrown, s))
      else (Received [], s))"

definition recv_message_meta ::
    "(nat \<Rightarrow> bool) \<Rightarrow> bool \<Rightarrow> socket \<Rightarrow> (MessageHeader \<times> bytes \<times> bytes) received \<times> socket" where
  "recv_message_meta alloc be s =
     (case recv_header be s of
        (None, s) \<Rightarrow> (Lost, s)
      | (Some hdr, s) \<Rightarrow>
     (case recv_field alloc s (username_length hdr) of
        (Lost, s) \<Rightarrow> (Lost, s) | (Thrown, s) \<Rightarrow> (Thrown, s)
      | (Received username, s) \<Rightarrow>
     (case recv_field alloc s (filename_length hdr) of
        (Lost, s) \<Rightarrow> (Lost, s) | (Thrown, s) \<Rightarrow> (Thrown, s)
      | (Received filename, s) \<Rightarrow> (Received (hdr, username, filename), s))))"

definition recv_message ::
    "(nat \<Rightarrow> bool) \<Rightarrow> bool \<Rightarrow> socket \<Rightarrow> (MessageHeader \<times> bytes \<times> bytes \<times> bytes) received \<times> socket" where
  "recv_message alloc be s =
     (case recv_header be s of
        (None, s) \<Rightarrow> (Lost, s)
      | (Some hdr, s) \<Rightarrow>
     (case recv_field alloc s (username_length hdr) of
        (Lost, s) \<Rightarrow> (Lost, s) | (Thrown, s) \<Rightarrow> (Thrown, s)
      | (Received username, s) \<Rightarrow>
     (case recv_field alloc s (filename_length hdr) of
        (Lost, s) \<Rightarrow> (Lost, s) | (Thrown, s) \<Rightarrow> (Thrown, s)
      | (Received filename, s) \<Rightarrow>
     (case recv_field alloc s (payload_length hdr) of
        (Lost, s) \<Rightarrow> (Lost, s) | (Thrown, s) \<Rightarrow> (Thrown, s)
      | (Received payload, s) \<Rightarrow> (Received (hdr, username, filename, payload), s)))))"

lemma recv_message_via_meta:
  "recv_message alloc be s =
     (case recv_message_meta alloc be s of
        (Lost, s) \<Rightarrow> (Lost, s) | (Thrown, s) \<Rightarrow> (Thrown, s)
      | (Received (hdr, username, filename), s) \<Rightarrow>
     (case recv_field alloc s (payload_length hdr) of
        (Lost, s) \<Rightarrow> (Lost, s) | (Thrown, s) \<Rightarrow> (Thrown, s)
      | (Received payload, s) \<Rightarrow> (Received (hdr, username, filename, payload), s)))"
  by (simp add: recv_message_def recv_message_meta_def split: prod.splits option.splits received.splits)

section \<open>What a message does to the stream\<close>

text \<open>The fields a header announces, as they stand on the wire behind it.\<close>

definition meta_wire :: "MessageHeader \<Rightarrow> bytes \<Rightarrow> bytes \<Rightarrow> bytes" where
  "meta_wire h username filename = header_wire h @ username @ filename"

definition fits_meta :: "MessageHeader \<Rightarrow> bytes \<Rightarrow> bytes \<Rightarrow> bool" where
  "fits_meta h username filename \<longleftrightarrow>
     length username = unat (username_length h) \<and> length filename = unat (filename_length h)
     \<and> length username < 2 ^ 31 \<and> length filename < 2 ^ 31"

lemma recv_field_some:
  assumes "recv_contract s" and "recv_field alloc s len = (Received bs, t)"
  shows "sk_rx s = bs @ sk_rx t \<and> length bs = unat len \<and> recv_contract t"
  using assms rx.rcv_exact [OF assms(1)] rx.rcv_lawful [of s "unat len"]
  by (auto simp: recv_field_def word_gt_0 split: if_splits prod.splits option.splits)

lemma recv_field_shrinks:
  "recv_field alloc s len = (r, t) \<Longrightarrow> length (sk_rx t) \<le> length (sk_rx s)"
  using rx.rcv_shrinks by (auto simp: recv_field_def split: if_splits prod.splits option.splits)

lemma recv_field_reads: "recv_field alloc s len = (r, t) \<Longrightarrow> only_reads s t"
  using recv_all_reads by (auto simp: recv_field_def split: if_splits prod.splits option.splits)

lemma recv_field_wire:
  assumes "recv_contract s" and "recv_reliable s" and "sk_rx s = xs @ ys"
    and "length xs = unat len" and "length xs < 2 ^ 31" and "alloc (length xs)"
  obtains t where "recv_field alloc s len = (Received xs, t)" and "sk_rx t = ys" and "only_reads s t"
proof (cases "0 < len")
  case False
  with assms have "xs = []" by (simp add: word_gt_0)
  with False assms that [of s] show thesis by (simp add: recv_field_def)
next
  case True
  obtain t where t: "recv_all s (length xs) = (Some xs, t)" "sk_rx t = ys" "only_reads s t"
    using recv_all_append [OF assms(1,2,3,5)] .
  with True assms(4,6) have "recv_field alloc s len = (Received xs, t)" by (simp add: recv_field_def)
  with t(2,3) show thesis by (rule that [rotated])
qed

lemma recv_message_meta_reads: "recv_message_meta alloc be s = (r, t) \<Longrightarrow> only_reads s t"
  by (auto simp: recv_message_meta_def split: prod.splits option.splits received.splits
      dest!: recv_header_reads recv_field_reads elim: only_reads_trans)

lemma recv_message_meta_consumes:
  "recv_message_meta alloc be s = (Received m, t) \<Longrightarrow> 32 + length (sk_rx t) \<le> length (sk_rx s)"
  by (fastforce simp: recv_message_meta_def split: prod.splits option.splits received.splits
      dest!: recv_header_consumes recv_field_shrinks)

lemma recv_message_meta_some:
  assumes "recv_contract s" and "recv_message_meta alloc be s = (Received (h, u, f), t)"
  shows "sk_rx s = meta_wire h u f @ sk_rx t \<and> length u = unat (username_length h)
    \<and> length f = unat (filename_length h)"
proof -
  from assms(2) obtain a b where steps: "recv_header be s = (Some h, a)"
      "recv_field alloc a (username_length h) = (Received u, b)"
      "recv_field alloc b (filename_length h) = (Received f, t)"
    by (auto simp: recv_message_meta_def split: prod.splits option.splits received.splits)
  note 1 = recv_header_some [OF assms(1) steps(1)]
  note 2 = recv_field_some [OF conjunct2 [OF 1] steps(2)]
  note 3 = recv_field_some [OF conjunct2 [OF conjunct2 [OF 2]] steps(3)]
  from 1 2 3 show ?thesis by (simp add: meta_wire_def)
qed

lemma recv_message_meta_wire:
  assumes "recv_contract s" and "recv_reliable s" and "sk_rx s = meta_wire h u f @ ys"
    and "fits_meta h u f" and "alloc (length u)" and "alloc (length f)"
  obtains t where "recv_message_meta alloc be s = (Received (h, u, f), t)"
    and "sk_rx t = ys" and "only_reads s t"
proof -
  obtain a where a: "recv_header be s = (Some h, a)" "sk_rx a = u @ f @ ys" "only_reads s a"
    using recv_header_wire [OF assms(1,2), of h "u @ f @ ys"] assms(3) by (auto simp: meta_wire_def)
  obtain b where b: "recv_field alloc a (username_length h) = (Received u, b)" "sk_rx b = f @ ys" "only_reads a b"
    using recv_field_wire [of a u "f @ ys"] assms a only_reads_contracts [OF a(3)]
    by (auto simp: fits_meta_def)
  obtain c where c: "recv_field alloc b (filename_length h) = (Received f, c)" "sk_rx c = ys" "only_reads b c"
    using recv_field_wire [of b f ys] assms b only_reads_contracts [OF a(3)] only_reads_contracts [OF b(3)]
    by (auto simp: fits_meta_def)
  from a b c have "recv_message_meta alloc be s = (Received (h, u, f), c)"
    by (simp add: recv_message_meta_def)
  moreover have "only_reads s c" using a b c by (blast intro: only_reads_trans)
  ultimately show thesis using c(2) that by blast
qed

text \<open>The whole-message receiver, from the metadata receiver and one more field.\<close>

lemma recv_message_wire:
  assumes "recv_contract s" and "recv_reliable s" and "sk_rx s = meta_wire h u f @ p @ ys"
    and "fits_meta h u f" and "length p = unat (payload_length h)" and "length p < 2 ^ 31"
    and "alloc (length u)" and "alloc (length f)" and "alloc (length p)"
  obtains t where "recv_message alloc be s = (Received (h, u, f, p), t)"
    and "sk_rx t = ys" and "only_reads s t"
proof -
  obtain a where a: "recv_message_meta alloc be s = (Received (h, u, f), a)" "sk_rx a = p @ ys" "only_reads s a"
    using recv_message_meta_wire [OF assms(1-4,7,8)] .
  obtain b where b: "recv_field alloc a (payload_length h) = (Received p, b)" "sk_rx b = ys" "only_reads a b"
    using recv_field_wire [of a p ys] assms a only_reads_contracts [OF a(3)] by auto
  from a b have "recv_message alloc be s = (Received (h, u, f, p), b)"
    by (simp add: recv_message_via_meta)
  moreover have "only_reads s b" using a b by (blast intro: only_reads_trans)
  ultimately show thesis using b(2) that by blast
qed

lemma recv_message_reads: "recv_message alloc be s = (r, t) \<Longrightarrow> only_reads s t"
  by (auto simp: recv_message_via_meta split: prod.splits received.splits
      dest!: recv_message_meta_reads recv_field_reads elim: only_reads_trans)

section \<open>What a sender puts on the wire\<close>

lemma send_then_writes:
  assumes "only_writes s (snd r)" and "\<And>t. only_writes t (snd (k t))"
  shows "only_writes s (snd (send_then r k))"
  using assms by (cases r rule: prod.exhaust; cases "fst r") (auto intro: only_writes_trans)

lemma send_all_writes_snd: "only_writes s (snd (send_all s d n))"
  by (rule send_all_writes [OF surjective_pairing])

lemma send_field_writes: "only_writes s (snd (send_field s d len))"
  by (simp add: send_field_def send_all_writes_snd)

lemma send_header_writes: "only_writes s (snd (send_header be s h))"
  by (simp add: send_header_wire send_all_writes_snd)

lemma send_message_meta_writes: "only_writes s (snd (send_message_meta be s h u f))"
  unfolding send_message_meta_def
  by (intro send_then_writes send_header_writes send_field_writes)

lemma send_message_writes: "only_writes s (snd (send_message be s h u f p n))"
  unfolding send_message_def
  by (intro send_then_writes send_header_writes send_field_writes)
    (simp add: send_all_writes_snd split: option.split)

lemma send_field_wire:
  assumes "send_contract s" and "send_reliable s" and "length d = unat len" and "length d < 2 ^ 31"
  obtains t where "send_field s d len = (True, t)" and "sk_tx t = sk_tx s @ d" and "only_writes s t"
proof (cases "0 < len")
  case False
  with assms(3) that [of s] show thesis by (simp add: send_field_def word_gt_0)
next
  case True
  obtain t where "send_all s d (length d) = (True, t)" "sk_tx t = sk_tx s @ d" "only_writes s t"
    using send_all_complete [OF assms(1,2,4)] .
  with True assms(3) that show thesis by (simp add: send_field_def)
qed

lemma send_header_wire_ok:
  assumes "send_contract s" and "send_reliable s"
  obtains t where "send_header be s h = (True, t)" and "sk_tx t = sk_tx s @ header_wire h" and "only_writes s t"
  using send_all_complete [OF assms, of "header_wire h"] by (auto simp: send_header_wire)

lemma send_message_meta_wire:
  assumes "send_contract s" and "send_reliable s" and "fits_meta h u f"
  obtains t where "send_message_meta be s h u f = (True, t)"
    and "sk_tx t = sk_tx s @ meta_wire h u f" and "only_writes s t"
proof -
  obtain a where a: "send_header be s h = (True, a)" "sk_tx a = sk_tx s @ header_wire h" "only_writes s a"
    using send_header_wire_ok [OF assms(1,2)] .
  obtain b where b: "send_field a u (username_length h) = (True, b)" "sk_tx b = sk_tx a @ u" "only_writes a b"
    using send_field_wire [of a u] assms only_writes_contracts [OF a(3)] by (auto simp: fits_meta_def)
  obtain c where c: "send_field b f (filename_length h) = (True, c)" "sk_tx c = sk_tx b @ f" "only_writes b c"
    using send_field_wire [of b f] assms only_writes_contracts [OF a(3)] only_writes_contracts [OF b(3)]
    by (auto simp: fits_meta_def)
  from a b c have "send_message_meta be s h u f = (True, c)" by (simp add: send_message_meta_def)
  moreover have "only_writes s c" using a b c by (blast intro: only_writes_trans)
  moreover have "sk_tx c = sk_tx s @ meta_wire h u f" using a b c by (simp add: meta_wire_def)
  ultimately show thesis using that by blast
qed

lemma send_message_via_meta:
  "send_message be s h u f p n =
     send_then (send_message_meta be s h u f) (\<lambda>s. case p of
       Some d \<Rightarrow> if 0 < payload_length h then send_all s d n else (True, s)
     | None \<Rightarrow> (True, s))"
proof -
  have assoc: "send_then (send_then r k) j = send_then r (\<lambda>s. send_then (k s) j)" for r k j
    by (cases r rule: prod.exhaust; cases "fst r") auto
  show ?thesis by (simp add: send_message_def send_message_meta_def assoc)
qed

lemma send_message_wire:
  assumes "send_contract s" and "send_reliable s" and "fits_meta h u f"
    and "length d = unat (payload_length h)" and "length d < 2 ^ 31"
  obtains t where "send_message be s h u f (Some d) (length d) = (True, t)"
    and "sk_tx t = sk_tx s @ meta_wire h u f @ d" and "only_writes s t"
proof -
  obtain a where a: "send_message_meta be s h u f = (True, a)" "sk_tx a = sk_tx s @ meta_wire h u f" "only_writes s a"
    using send_message_meta_wire [OF assms(1-3)] .
  obtain b where b: "send_field a d (payload_length h) = (True, b)" "sk_tx b = sk_tx a @ d" "only_writes a b"
    using send_field_wire [of a d] assms only_writes_contracts [OF a(3)] by auto
  from a b assms(4) have "send_message be s h u f (Some d) (length d) = (True, b)"
    by (simp add: send_message_via_meta send_field_def)
  moreover have "only_writes s b" using a b by (blast intro: only_writes_trans)
  ultimately show thesis using a b that by simp
qed

section \<open>Properties\<close>

text \<open>C15: the header on the wire is 32 bytes, the five fields in order, each most significant
  byte first, on a little-endian and on a big-endian host alike: \<open>send_header\<close> transmits
  exactly the numbers' big-endian digits, and \<open>htonll\<close> reverses all eight bytes.\<close>

theorem header_network_byte_order:
  "send_header be s h = send_all s (header_wire h) 32
   \<and> header_wire h = rev (le_bytes 4 (unat (command h))) @ rev (le_bytes 4 (unat (status h)))
       @ rev (le_bytes 8 (unat (payload_length h))) @ rev (le_bytes 8 (unat (filename_length h)))
       @ rev (le_bytes 8 (unat (username_length h)))
   \<and> mem64 be (htonll be x) = rev (le_bytes 8 (unat x))"
  by (simp add: send_header_wire header_wire_def net32_def net64_def mem64_htonll)

text \<open>C10: a message sent by \<open>send_message\<close> on one host is received unchanged by
  \<open>recv_message\<close> on another, whatever the byte orders of the two hosts and however the
  network cuts the stream, and the receiver stops exactly at the end of the message.\<close>

theorem message_roundtrip:
  assumes "send_contract s" and "send_reliable s" and "recv_contract r" and "recv_reliable r"
    and "fits_meta h u f" and "length d = unat (payload_length h)" and "length d < 2 ^ 31"
    and "alloc (length u)" and "alloc (length f)" and "alloc (length d)"
    and "send_message be s h u f (Some d) (length d) = (ok, s')"
    and "sk_rx r = drop (length (sk_tx s)) (sk_tx s') @ ys"
  shows "ok \<and> (\<exists>r'. recv_message alloc be' r = (Received (h, u, f, d), r') \<and> sk_rx r' = ys)"
proof -
  obtain t where t: "send_message be s h u f (Some d) (length d) = (True, t)"
      "sk_tx t = sk_tx s @ meta_wire h u f @ d"
    using send_message_wire [OF assms(1,2,5-7)] .
  then have ok: "ok" and rx: "sk_rx r = meta_wire h u f @ d @ ys"
    using assms(11,12) by simp_all
  obtain r' where "recv_message alloc be' r = (Received (h, u, f, d), r')" "sk_rx r' = ys"
    using recv_message_wire [OF assms(3,4) rx assms(5-10)] .
  with ok show ?thesis by blast
qed

definition sample_header :: MessageHeader where
  "sample_header = make_request RENAME 3 5 2"

lemma sample_header_fits: "fits_meta sample_header ''me'' ''a.txt''"
  by (simp add: fits_meta_def sample_header_def make_request_def)

theorem message_roundtrip_witness:
  "let s' = snd (send_message False (trickle_socket []) sample_header ''me'' ''a.txt'' (Some ''b.c'') (length ''b.c''))
   in \<exists>r'. recv_message (\<lambda>n. True) True (trickle_socket (sk_tx s' @ ''next''))
        = (Received (sample_header, ''me'', ''a.txt'', ''b.c''), r') \<and> sk_rx r' = ''next''"
  using message_roundtrip [of "trickle_socket []" _ sample_header "''me''" "''a.txt''" "''b.c''"
      "\<lambda>n. True" False _ _ "''next''" True,
      OF trickle_socket_ok(2,4) trickle_socket_ok(1,3) sample_header_fits _ _ _ _ _ surjective_pairing]
  by (simp add: Let_def sample_header_def make_request_def)




end
