(* ===== verification/Server.thy ===== *)
theory Server
  imports Protocol Store_Sync
begin

text \<open>
  \<open>Server::handle_client\<close> of src/src/server/server.cpp: the session of one client, from its first
  request to the closing of its socket. The thread that runs it and the acceptor that hands it
  over are the subject of theories \<open>Task_Queue\<close> and \<open>Thread_Pool\<close>.
\<close>

section \<open>One request\<close>

text \<open>
  How the loop body ends: with the next turn of the loop, at the label \<open>session_end\<close> (by
  \<open>break\<close> or \<open>goto\<close>), or with an exception that leaves the function.
\<close>

datatype outcome = Again | Finished | Threw

text \<open>The response that follows most requests: a header with the text's length, and the text.\<close>

definition send_response :: "bool \<Rightarrow> socket \<Rightarrow> u32 \<Rightarrow> StatusCode \<Rightarrow> bytes \<Rightarrow> bool \<times> socket" where
  "send_response be s cmd st resp_payload =
     (let resp_hdr = (make_response cmd st 0 0)\<lparr>payload_length := word_of_nat (length resp_payload)\<rparr>
      in send_message be s resp_hdr [] [] (Some resp_payload) (length resp_payload))"

definition respond ::
    "u32 \<Rightarrow> StatusCode \<Rightarrow> bytes \<Rightarrow> bytes \<Rightarrow> world \<Rightarrow> socket \<Rightarrow> outcome \<times> bytes \<times> world \<times> socket" where
  "respond cmd st text session_user w s =
     (case send_response (w_be w) s cmd st text of
        (True, s) \<Rightarrow> (Again, session_user, w, s)
      | (False, s) \<Rightarrow> (Finished, session_user, w, s))"

definition must_login :: bytes where "must_login = ''Must LOGIN first''"

text \<open>A download answers on its own: header first, then the file, and no response after it.\<close>

definition send_file :: "u32 \<Rightarrow> bytes \<Rightarrow> bytes \<Rightarrow> u64 \<Rightarrow> world \<Rightarrow> socket \<Rightarrow> outcome \<times> bytes \<times> world \<times> socket" where
  "send_file cmd session_user filename file_size w s =
     (let resp_hdr = (make_response cmd OK 0 0)\<lparr>payload_length := file_size\<rparr>
      in case send_message_meta (w_be w) s resp_hdr [] [] of
           (False, s) \<Rightarrow> (Finished, session_user, w, s)
         | (True, s) \<Rightarrow>
             (case stream_file_to_socket session_user filename w s of
                (False, w, s) \<Rightarrow> (Finished, session_user, w, s)
              | (True, w, s) \<Rightarrow> (Again, session_user, w, s)))"

text \<open>The switch over the command.\<close>

definition dispatch ::
    "MessageHeader \<Rightarrow> bytes \<Rightarrow> bytes \<Rightarrow> bytes \<Rightarrow> bytes \<Rightarrow> world \<Rightarrow> socket \<Rightarrow> outcome \<times> bytes \<times> world \<times> socket" where
  "dispatch req_hdr username filename payload session_user w s =
     (let cmd = command req_hdr; logged_in = (session_user \<noteq> [])
      in case to_command cmd of
        Some LOGIN \<Rightarrow> respond cmd OK (''Welcome, '' @ username @ ''!'') username w s
      | Some UPLOAD \<Rightarrow>
          if \<not> logged_in
          then respond cmd BAD_REQUEST must_login session_user w (discard_data s (unat (payload_length req_hdr)))
          else (case save_file session_user filename (payload_length req_hdr) w s of
                  (True, w, s) \<Rightarrow> respond cmd CREATED ''File uploaded successfully.'' session_user w s
                | (False, w, s) \<Rightarrow> respond cmd INTERNAL_ERROR ''Failed to save file.'' session_user w s)
      | Some DOWNLOAD \<Rightarrow>
          if \<not> logged_in then respond cmd BAD_REQUEST must_login session_user w s
          else
            (let file_size = fm_get_file_size session_user filename w
             in if file_size = - 1 then respond cmd NOT_FOUND ''File not found.'' session_user w s
                else send_file cmd session_user filename file_size w s)
      | Some LIST \<Rightarrow>
          if \<not> logged_in then respond cmd BAD_REQUEST must_login session_user w s
          else respond cmd OK (list_files session_user w) session_user w s
      | Some DELETE_F \<Rightarrow>
          if \<not> logged_in then respond cmd BAD_REQUEST must_login session_user w s
          else (case delete_file session_user filename w of
                  (True, w) \<Rightarrow> respond cmd OK ''File deleted successfully.'' session_user w s
                | (False, w) \<Rightarrow> respond cmd NOT_FOUND ''File not found or cannot be deleted.'' session_user w s)
      | Some RENAME \<Rightarrow>
          if \<not> logged_in then respond cmd BAD_REQUEST must_login session_user w s
          else (case rename_file session_user filename payload w of
                  (True, w) \<Rightarrow> respond cmd OK ''Renamed successfully.'' session_user w s
                | (False, w) \<Rightarrow> respond cmd NOT_FOUND ''File not found or new name conflicts.'' session_user w s)
      | Some QUIT \<Rightarrow>
          (case send_response (w_be w) s cmd OK ''Goodbye!'' of (_, s) \<Rightarrow> (Finished, session_user, w, s))
      | None \<Rightarrow>
          respond cmd BAD_REQUEST (''Unknown or unsupported command: '' @ command_to_string cmd) session_user w s)"

text \<open>
  The loop body: the metadata, then the payload of every command but UPLOAD, then the switch.
  \<open>payload.resize\<close> throws when the announced size cannot be allocated.
\<close>

definition serve_request :: "bytes \<Rightarrow> world \<Rightarrow> socket \<Rightarrow> outcome \<times> bytes \<times> world \<times> socket" where
  "serve_request session_user w s =
     (case recv_message_meta (w_alloc w) (w_be w) s of
        (Lost, s) \<Rightarrow> (Finished, session_user, w, s)
      | (Thrown, s) \<Rightarrow> (Threw, session_user, w, s)
      | (Received (req_hdr, username, filename), s) \<Rightarrow>
          (case (if to_command (command req_hdr) \<noteq> Some UPLOAD
                 then recv_field (w_alloc w) s (payload_length req_hdr) else (Received [], s)) of
             (Lost, s) \<Rightarrow> (Finished, session_user, w, s)
           | (Thrown, s) \<Rightarrow> (Threw, session_user, w, s)
           | (Received payload, s) \<Rightarrow> dispatch req_hdr username filename payload session_user w s))"

section \<open>What one request does to the stream\<close>

text \<open>No part of the body puts bytes back, so every turn that goes on has used up a header.\<close>

lemma send_response_writes: "only_writes s (snd (send_response be s cmd st text))"
  by (simp add: send_response_def Let_def send_message_writes)

lemma respond_writes: "only_writes s (snd (snd (snd (respond cmd st text u w s))))"
  using send_response_writes [of s "w_be w" cmd st "text"]
  by (auto simp: respond_def split: prod.splits bool.splits)

lemma respond_rest: "respond cmd st text u w s = (r, u', w', t) \<Longrightarrow> u' = u \<and> w' = w \<and> r \<noteq> Threw"
  by (auto simp: respond_def split: prod.splits bool.splits)

lemma send_file_writes: "only_writes s (snd (snd (snd (send_file cmd u f sz w s))))"
proof -
  let ?h = "(make_response cmd OK 0 0)\<lparr>payload_length := sz\<rparr>"
  obtain b t where b: "send_message_meta (w_be w) s ?h [] [] = (b, t)" by fastforce
  have st: "only_writes s t" using send_message_meta_writes [of s "w_be w" ?h "[]" "[]"] b by simp
  obtain c w' t' where c: "stream_file_to_socket u f w t = (c, w', t')" by (metis prod_cases3)
  have "only_writes t t'" using stream_frame [OF c] by simp
  with st b c show ?thesis
    by (cases b; cases c) (auto simp: send_file_def Let_def intro: only_writes_trans)
qed

lemma sent_nothing_read: "only_writes s t \<Longrightarrow> sk_rx t = sk_rx s"
  by (simp add: only_writes_def)

lemma respond_rx [simp]: "sk_rx (snd (snd (snd (respond cmd st text u w s)))) = sk_rx s"
  using sent_nothing_read [OF respond_writes] .

lemma dispatch_rx: "length (sk_rx (snd (snd (snd (dispatch h u f p su w s))))) \<le> length (sk_rx s)"
proof -
  note discard = only_reads_shrinks [OF discard_data_reads [of s "unat (payload_length h)"]]
  note save = only_reads_shrinks [OF save_file_reads [of s su f "payload_length h" w]]
  note sent = sent_nothing_read [OF send_file_writes]
  note resp = sent_nothing_read [OF send_response_writes]
  show ?thesis
  proof (cases "to_command (command h)")
    case None
    then show ?thesis by (simp add: dispatch_def Let_def)
  next
    case (Some c)
    with discard save sent [of "command h" su f _ w s] resp [of "w_be w" s "command h" OK "''Goodbye!''"]
    show ?thesis
      by (cases c) (auto simp: dispatch_def Let_def split: prod.splits bool.splits)
  qed
qed

lemma dispatch_shrinks: "dispatch h u f p su w s = (r, su', v, t) \<Longrightarrow> length (sk_rx t) \<le> length (sk_rx s)"
  using dispatch_rx [of h u f p su w s] by simp

lemma serve_request_shrinks:
  assumes "serve_request su w s = (r, su', v, t)"
  shows "length (sk_rx t) \<le> length (sk_rx s)" and "r = Again \<Longrightarrow> 32 + length (sk_rx t) \<le> length (sk_rx s)"
proof -
  obtain m s1 where m: "recv_message_meta (w_alloc w) (w_be w) s = (m, s1)" by fastforce
  have le: "length (sk_rx s1) \<le> length (sk_rx s)" using only_reads_shrinks [OF recv_message_meta_reads [OF m]] .
  have "length (sk_rx t) \<le> length (sk_rx s1) \<and> (r = Again \<longrightarrow> (\<exists>x. m = Received x))"
  proof (cases m)
    case (Received x)
    obtain h u f where x: "x = (h, u, f)" by (metis prod_cases3)
    obtain p s2 where p: "(if to_command (command h) \<noteq> Some UPLOAD
        then recv_field (w_alloc w) s1 (payload_length h) else (Received [], s1)) = (p, s2)" by fastforce
    have "length (sk_rx s2) \<le> length (sk_rx s1)"
      using p recv_field_shrinks by (auto split: if_splits)
    moreover have "length (sk_rx t) \<le> length (sk_rx s2)"
      using assms m Received x p
      by (cases p) (auto simp: serve_request_def intro: dispatch_shrinks)
    ultimately show ?thesis using Received order_trans by blast
  qed (use assms m in \<open>auto simp: serve_request_def\<close>)
  then show "length (sk_rx t) \<le> length (sk_rx s)" "r = Again \<Longrightarrow> 32 + length (sk_rx t) \<le> length (sk_rx s)"
    using le recv_message_meta_consumes m by fastforce+
qed

text \<open>Nor does any part take back what has been sent.\<close>

lemma respond_sends: "prefix (sk_tx s) (sk_tx (snd (snd (snd (respond cmd st text u w s)))))"
  by (rule sent_stays(2) [OF respond_writes])

lemma dispatch_sends: "prefix (sk_tx s) (sk_tx (snd (snd (snd (dispatch h u f p su w s)))))"
proof -
  have discard: "sk_tx (discard_data s n) = sk_tx s" for n
    using only_reads_contracts(5) [OF discard_data_reads] .
  have save: "sk_tx (snd (snd (save_file su f sz w s))) = sk_tx s" for sz
    using only_reads_contracts(5) [OF save_file_reads] .
  note sends = respond_sends sent_stays(2) [OF send_file_writes] sent_stays(2) [OF send_response_writes]
  show ?thesis
  proof (cases "to_command (command h)")
    case None
    then show ?thesis using sends by (simp add: dispatch_def Let_def)
  next
    case (Some c)
    show ?thesis
    proof (cases c)
      case UPLOAD
      obtain b v t where r: "save_file su f (payload_length h) w s = (b, v, t)" by (metis prod_cases3)
      then have t: "sk_tx t = sk_tx s" using save [of "payload_length h"] by simp
      show ?thesis
        using Some UPLOAD r t respond_sends [of t] respond_sends [of "discard_data s (unat (payload_length h))"] discard
        by (cases b) (simp_all add: dispatch_def Let_def)
    next
      case QUIT
      then show ?thesis using Some sends(3) [of s "w_be w" "command h" OK "''Goodbye!''"]
        by (simp add: dispatch_def Let_def case_prod_beta)
    qed (use Some sends in \<open>auto simp: dispatch_def Let_def split: prod.split bool.split\<close>)
  qed
qed

lemma serve_request_sends:
  assumes "serve_request su w s = (r, su', v, t)"
  shows "prefix (sk_tx s) (sk_tx t)"
proof -
  obtain m s1 where m: "recv_message_meta (w_alloc w) (w_be w) s = (m, s1)" by fastforce
  have s1: "sk_tx s1 = sk_tx s" using only_reads_contracts(5) [OF recv_message_meta_reads [OF m]] .
  show ?thesis
  proof (cases m)
    case (Received x)
    obtain h u f where x: "x = (h, u, f)" by (metis prod_cases3)
    obtain p s2 where p: "(if to_command (command h) \<noteq> Some UPLOAD
        then recv_field (w_alloc w) s1 (payload_length h) else (Received [], s1)) = (p, s2)" by fastforce
    have s2: "sk_tx s2 = sk_tx s1"
      using p only_reads_contracts(5) [OF recv_field_reads] by (auto split: if_splits)
    show ?thesis
    proof (cases p)
      case (Received b)
      then have "serve_request su w s = dispatch h u f b su w s2"
        using m \<open>m = Received x\<close> x p by (simp add: serve_request_def)
      then have "dispatch h u f b su w s2 = (r, su', v, t)" using assms by simp
      then show ?thesis using dispatch_sends [of s2 h u f b su w] s1 s2 by simp
    qed (use assms m Received x p s1 s2 in \<open>auto simp: serve_request_def\<close>)
  qed (use assms m s1 in \<open>auto simp: serve_request_def\<close>)
qed

section \<open>The session\<close>

text \<open>
  The loop \<open>while (running_)\<close>. What the atomic flag reads at the k-th test is a choice of the
  environment, because another thread may call \<open>stop\<close> at any time.
\<close>

function session_loop :: "(nat \<Rightarrow> bool) \<Rightarrow> nat \<Rightarrow> bytes \<Rightarrow> world \<Rightarrow> socket \<Rightarrow> outcome \<times> bytes \<times> world \<times> socket" where
  "session_loop running k session_user w s =
     (if running k then
        (case serve_request session_user w s of
           (Again, session_user, w, s) \<Rightarrow> session_loop running (Suc k) session_user w s
         | (Finished, session_user, w, s) \<Rightarrow> (Finished, session_user, w, s)
         | (Threw, session_user, w, s) \<Rightarrow> (Threw, session_user, w, s))
      else (Finished, session_user, w, s))"
  by pat_completeness auto
termination
  by (relation "measure (\<lambda>(running, k, u, w, s). size s)") (auto simp: size_socket_ext_def dest!: serve_request_shrinks(2) [OF sym])

declare session_loop.simps [simp del]

lemma session_loop_sends: "session_loop running k su w s = (r, su', v, t) \<Longrightarrow> prefix (sk_tx s) (sk_tx t)"
proof (induction running k su w s rule: session_loop.induct)
  case (1 running k su w s)
  obtain oc su1 w1 s1 where turn: "serve_request su w s = (oc, su1, w1, s1)" by (metis prod_cases4)
  note first = serve_request_sends [OF turn]
  show ?case
  proof (cases "running k \<and> oc = Again")
    case True
    then have "session_loop running (Suc k) su1 w1 s1 = (r, su', v, t)"
      using "1.prems" turn by (subst (asm) session_loop.simps) simp
    then have "prefix (sk_tx s1) (sk_tx t)" using "1.IH" [OF _ turn [symmetric]] True by simp
    with first show ?thesis by (rule prefix_order.trans)
  next
    case False
    then show ?thesis using "1.prems" turn first
      by (subst (asm) session_loop.simps) (cases oc; auto split: if_splits)
  qed
qed

text \<open>
  The whole function, with the counter of active connections. An exception passes the label
  \<open>session_end\<close>: the socket stays open and the counter is not taken down.
\<close>

definition session_end :: "world \<Rightarrow> int \<Rightarrow> socket \<Rightarrow> unit result \<times> world \<times> int \<times> socket" where
  [simp]: "session_end w active_connections s = (Value (), w, active_connections - 1, closesocket s)"

definition handle_client :: "(nat \<Rightarrow> bool) \<Rightarrow> world \<Rightarrow> int \<Rightarrow> socket \<Rightarrow> unit result \<times> world \<times> int \<times> socket" where
  "handle_client running w active_connections s =
     (case session_loop running 0 [] w s of
        (Threw, session_user, w, s) \<Rightarrow> (Raised, w, active_connections + 1, s)
      | (_, session_user, w, s) \<Rightarrow> session_end w (active_connections + 1) s)"

end
