(* ===== verification/Server_Spec.thy ===== *)
theory Server_Spec
  imports Server
begin

text \<open>
  What a session of src/src/server/server.cpp promises to its client: an abstract server over a
  map from (user, file name) to contents, and the refinement that the session of theory
  \<open>Server\<close>, reading requests off the stream in whatever pieces they arrive, answers each
  with exactly the response of the abstract server and changes disk and index accordingly.
\<close>

section \<open>Requests and responses on the wire\<close>

datatype request = Req (rq_command: CommandType) (rq_user: bytes) (rq_file: bytes) (rq_body: bytes)

definition request_header :: "request \<Rightarrow> MessageHeader" where
  "request_header r = make_request (rq_command r) (word_of_nat (length (rq_body r)))
     (word_of_nat (length (rq_file r))) (word_of_nat (length (rq_user r)))"

definition request_wire :: "request \<Rightarrow> bytes" where
  "request_wire r = meta_wire (request_header r) (rq_user r) (rq_file r) @ rq_body r"

definition response_header :: "u32 \<Rightarrow> StatusCode \<Rightarrow> nat \<Rightarrow> MessageHeader" where
  "response_header cmd st n = (make_response cmd st 0 0)\<lparr>payload_length := word_of_nat n\<rparr>"

definition response_wire :: "u32 \<Rightarrow> StatusCode \<times> bytes \<Rightarrow> bytes" where
  "response_wire cmd = (\<lambda>(st, msg). header_wire (response_header cmd st (length msg)) @ msg)"

text \<open>
  Lengths the code handles: names below 1 GiB (the greeting adds a few bytes, and \<open>recv_all\<close>
  fails from 2 GiB on), the payload below 2 GiB, or below 2^64 - 1 for an upload, which is read
  in blocks.
\<close>

definition request_fits :: "request \<Rightarrow> bool" where
  "request_fits r \<longleftrightarrow> length (rq_user r) < 2 ^ 30 \<and> length (rq_file r) < 2 ^ 30
     \<and> (if rq_command r = UPLOAD then length (rq_body r) < 2 ^ 64 - 1 else length (rq_body r) < 2 ^ 31)"

section \<open>The abstract server\<close>

type_synonym store = "bytes \<times> bytes \<Rightarrow> bytes option"

text \<open>
  The response and the effect of one request. The listing's text is an argument: its order is
  the unspecified order of the index.
\<close>

fun spec_reply :: "bytes \<Rightarrow> request \<Rightarrow> bytes \<Rightarrow> store \<Rightarrow> (StatusCode \<times> bytes) \<times> bytes \<times> store" where
  "spec_reply listing (Req LOGIN u n b) su M = ((OK, ''Welcome, '' @ u @ ''!''), u, M)"
| "spec_reply listing (Req QUIT u n b) su M = ((OK, ''Goodbye!''), su, M)"
| "spec_reply listing (Req c u n b) su M =
     (if su = [] then ((BAD_REQUEST, must_login), su, M)
      else case c of
        UPLOAD \<Rightarrow> ((CREATED, ''File uploaded successfully.''), su, M((su, n) \<mapsto> b))
      | DOWNLOAD \<Rightarrow>
          (case M (su, n) of
             None \<Rightarrow> ((NOT_FOUND, ''File not found.''), su, M)
           | Some d \<Rightarrow> ((OK, d), su, M))
      | DELETE_F \<Rightarrow>
          if M (su, n) = None then ((NOT_FOUND, ''File not found or cannot be deleted.''), su, M)
          else ((OK, ''File deleted successfully.''), su, M((su, n) := None))
      | RENAME \<Rightarrow>
          if n = b then ((OK, ''Renamed successfully.''), su, M)
          else if M (su, n) = None \<or> M (su, b) \<noteq> None
               then ((NOT_FOUND, ''File not found or new name conflicts.''), su, M)
               else ((OK, ''Renamed successfully.''), su, M((su, n) := None, (su, b) := M (su, n)))
      | _ \<Rightarrow> ((OK, listing), su, M))"

section \<open>The store of a world\<close>

definition content_of :: "node option \<Rightarrow> bytes option" where
  "content_of x = (case x of Some (File c) \<Rightarrow> Some c | _ \<Rightarrow> None)"

definition store_of :: "(bytes \<times> bytes) set \<Rightarrow> world \<Rightarrow> store" where
  "store_of N w = (\<lambda>(u, n). if (u, n) \<in> N then content_of (fs_at (w_fs w) (file_at (w_fs w) u n)) else None)"

text \<open>
  A world that can serve m more requests for names in N: index and disk in step, room for m
  more references in every lock counter, no file too large for a 64-bit size, and a host that
  can allocate what is announced.
\<close>

definition room :: "nat \<Rightarrow> world \<Rightarrow> bool" where
  "room m w \<longleftrightarrow> table_ok (w_locks w) \<and> (\<forall>k. lock_count (w_locks w) k + m < 2 ^ 32)"

definition serving :: "(bytes \<times> bytes) set \<Rightarrow> nat \<Rightarrow> world \<Rightarrow> bool" where
  "serving N m w \<longleftrightarrow> in_step N w \<and> room m w \<and> (\<forall>(u, n)\<in>N. is_valid_filename n)
     \<and> (\<forall>k c. store_of N w k = Some c \<longrightarrow> length c < 2 ^ 64 - 1) \<and> (\<forall>n. w_alloc w n)"

lemma room_lockable: "room (Suc m) w \<Longrightarrow> lockable w k"
  unfolding room_def lockable_def by (auto dest!: spec [of _ k])

lemma room_kept: "room (Suc m) w \<Longrightarrow> locks_kept w v \<Longrightarrow> room m v"
  unfolding room_def locks_kept_def by (auto intro: Suc_lessD)

lemma room_leaked: "room (Suc m) w \<Longrightarrow> lock_leaked k w v \<Longrightarrow> room m v"
  unfolding room_def lock_leaked_def by (auto intro: Suc_lessD)

lemma room_same: "room (Suc m) w \<Longrightarrow> w_locks v = w_locks w \<Longrightarrow> room m v"
  unfolding room_def by (auto intro: Suc_lessD)

lemma store_of_change:
  assumes "(u, n) \<in> N" and "fs_env (w_fs v) = fs_env (w_fs w)"
    and "\<And>u' n'. (u', n') \<in> N \<Longrightarrow> fs_at (w_fs v) (file_at (w_fs w) u' n') =
           (if (u', n') = (u, n) then x else fs_at (w_fs w) (file_at (w_fs w) u' n'))"
  shows "store_of N v = (store_of N w)((u, n) := content_of x)"
  using assms(1,3) places_env [OF assms(2)] by (auto simp: store_of_def fun_eq_iff)

lemma store_of_same:
  "fs_env (w_fs v) = fs_env (w_fs w) \<Longrightarrow> fs_at (w_fs v) = fs_at (w_fs w) \<Longrightarrow> store_of N v = store_of N w"
  using places_env [of "w_fs v" "w_fs w"] by (auto simp: store_of_def fun_eq_iff)

lemma env_alloc: "env_of v = env_of w \<Longrightarrow> w_alloc v = w_alloc w \<and> w_be v = w_be w \<and> w_clock v = w_clock w"
  by (simp add: env_of_def)

lemma servingD:
  assumes "serving N (Suc m) w" and "(u, n) \<in> N"
  shows "is_valid_filename n" and "lockable w (file_path u n)" and "can_store (w_fs w) u n"
    and "store_of N w (u, n) = content_of (fs_at (w_fs w) (file_at (w_fs w) u n))"
    and "fs_at (w_fs w) (file_at (w_fs w) u n) = map_option File (store_of N w (u, n))"
    and "healthy (w_fs w)" and "disk_ok (w_fs w)" and "entry_of (w_fs w) u n" and "ordinary (w_fs w) N"
proof -
  have inv: "in_step N w" "room (Suc m) w" using assms(1) by (simp_all add: serving_def)
  note here = in_stepD [OF inv(1) assms(2)]
  show "is_valid_filename n" using assms by (auto simp: serving_def)
  show "lockable w (file_path u n)" using inv(2) by (rule room_lockable)
  show "can_store (w_fs w) u n" using here by (simp add: can_store_def)
  show c: "store_of N w (u, n) = content_of (fs_at (w_fs w) (file_at (w_fs w) u n))"
    using assms(2) by (simp add: store_of_def)
  show "fs_at (w_fs w) (file_at (w_fs w) u n) = map_option File (store_of N w (u, n))"
    unfolding c using here(6) by (auto simp: content_of_def split: option.split node.split)
  show "healthy (w_fs w)" "disk_ok (w_fs w)" "entry_of (w_fs w) u n" "ordinary (w_fs w) N" using here by simp_all
qed

section \<open>Each operation moves the store as the abstract server says\<close>

lemma servingI:
  assumes "serving N (Suc m) w" and "in_step N v" and "room m v" and "env_of v = env_of w"
    and "store_of N v = (store_of N w)((u, n) := x)" and "\<And>c. x = Some c \<Longrightarrow> length c < 2 ^ 64 - 1"
  shows "serving N m v"
  using assms env_alloc [OF assms(4)] unfolding serving_def by auto

lemma serving_same:
  assumes "serving N (Suc m) w" and "room m v" and "env_of v = env_of w"
    and "fs_env (w_fs v) = fs_env (w_fs w)" and "fs_at (w_fs v) = fs_at (w_fs w)" and "w_index v = w_index w"
  shows "serving N m v" and "store_of N v = store_of N w"
proof -
  show store: "store_of N v = store_of N w" by (rule store_of_same [OF assms(4,5)])
  have "in_step N v" using assms(1) by (intro in_step_same [OF _ assms(4-6)]) (simp add: serving_def)
  then show "serving N m v" using assms(1,2) store env_alloc [OF assms(3)] by (simp add: serving_def)
qed

lemma upload_store:
  assumes "serving N (Suc m) w" and "(u, n) \<in> N" and "recv_contract s" and "recv_reliable s"
    and "unat sz \<le> length (sk_rx s)" and "unat sz < 2 ^ 64 - 1"
  obtains v t where "save_file u n sz w s = (True, v, t)" and "serving N m v"
    and "store_of N v = (store_of N w)((u, n) \<mapsto> take (unat sz) (sk_rx s))"
    and "env_of v = env_of w" and "sk_rx t = drop (unat sz) (sk_rx s)" and "only_reads s t"
proof -
  note D = servingD [OF assms(1,2)]
  let ?c = "take (unat sz) (sk_rx s)"
  obtain v t where v: "save_file u n sz w s = (True, v, t)"
      "fs_at (w_fs v) = (with_dirs (fs_at (w_fs w)) (home_at (w_fs w) u))(file_at (w_fs w) u n \<mapsto> File ?c)"
      "locks_kept w v" "fs_env (w_fs v) = fs_env (w_fs w)" "env_of v = env_of w"
      "sk_rx t = drop (unat sz) (sk_rx s)" "only_reads s t"
    using save_file_complete [OF D(3,1,2) assms(3-5)] by metis
  have step: "in_step N v"
    using assms(1) by (intro in_step_upload [OF _ assms(2-5) D(2) v(1)]) (simp add: serving_def)
  have store: "store_of N v = (store_of N w)((u, n) := content_of (Some (File ?c)))"
  proof (rule store_of_change [OF assms(2) v(4)])
    show "fs_at (w_fs v) (file_at (w_fs w) u' n') =
        (if (u', n') = (u, n) then Some (File ?c) else fs_at (w_fs w) (file_at (w_fs w) u' n'))"
      if "(u', n') \<in> N" for u' n'
      using ordinary_same [OF D(9) that assms(2)] with_dirs_home [OF D(9) assms(2) that] v(2) by auto
  qed
  have "room m v" using assms(1) v(3) by (auto simp: serving_def intro: room_kept)
  then have "serving N m v"
    using assms(6) by (intro servingI [OF assms(1) step _ v(5) store]) (auto simp: content_of_def)
  with v store show thesis by (intro that [of v t]) (simp_all add: content_of_def)
qed

lemma delete_store:
  assumes "serving N (Suc m) w" and "(u, n) \<in> N"
  obtains v where "delete_file u n w = (store_of N w (u, n) \<noteq> None, v)" and "serving N m v"
    and "store_of N v = (store_of N w)((u, n) := None)" and "env_of v = env_of w"
proof -
  note D = servingD [OF assms]
  have inv: "in_step N w" "room (Suc m) w" using assms(1) by (simp_all add: serving_def)
  show thesis
  proof (cases "store_of N w (u, n)")
    case None
    then have "\<not> is_valid_filename n \<or> fs_at (w_fs w) (file_at (w_fs w) u n) = None" using D(5) by simp
    then obtain v where v: "delete_file u n w = (False, v)" "fs_at (w_fs v) = fs_at (w_fs w)"
        "w_index v = w_index w" "locks_kept w v" "fs_env (w_fs v) = fs_env (w_fs w)" "env_of v = env_of w"
      using delete_missing [OF D(2,6)] by metis
    note same = serving_same [OF assms(1) room_kept [OF inv(2) v(4)] v(6,5,2,3)]
    with v None show thesis by (intro that [of v]) (simp_all add: fun_upd_idem)
  next
    case (Some c)
    then have c: "fs_at (w_fs w) (file_at (w_fs w) u n) = Some (File c)" using D(5) by simp
    obtain v where v: "delete_file u n w = (True, v)"
        "fs_at (w_fs v) = (fs_at (w_fs w))(file_at (w_fs w) u n := None)" "locks_kept w v"
        "fs_env (w_fs v) = fs_env (w_fs w)" "env_of v = env_of w"
      using delete_complete [OF D(1,2,6) c] by metis
    have store: "store_of N v = (store_of N w)((u, n) := content_of None)"
      by (rule store_of_change [OF assms(2) v(4) change_at [OF D(9) assms(2) _ v(2)]])
    have step: "in_step N v" by (rule in_step_delete [OF inv(1) assms(2) D(2) v(1)])
    have "serving N m v"
      by (rule servingI [OF assms(1) step room_kept [OF inv(2) v(3)] v(5) store]) (simp add: content_of_def)
    with v store Some show thesis by (intro that [of v]) (simp_all add: content_of_def)
  qed
qed

lemma rename_store:
  assumes "serving N (Suc m) w" and "(u, a) \<in> N" and "(u, b) \<in> N" and "a \<noteq> b"
  obtains v where
    "rename_file u a b w = (store_of N w (u, a) \<noteq> None \<and> store_of N w (u, b) = None, v)" and "serving N m v"
    and "store_of N v = (if store_of N w (u, a) \<noteq> None \<and> store_of N w (u, b) = None
           then (store_of N w)((u, a) := None, (u, b) := store_of N w (u, a)) else store_of N w)"
    and "env_of v = env_of w"
proof -
  note A = servingD [OF assms(1,2)] and B = servingD [OF assms(1,3)]
  have inv: "in_step N w" "room (Suc m) w" using assms(1) by (simp_all add: serving_def)
  have places: "file_at (w_fs w) u a \<noteq> file_at (w_fs w) u b"
    using ordinary_same [OF A(9) assms(2,3)] assms(4) by simp
  then have ne: "file_path u a \<noteq> file_path u b" by (auto simp: file_at_def)
  show thesis
  proof (cases "store_of N w (u, a) \<noteq> None \<and> store_of N w (u, b) = None")
    case False
    then have "\<not> is_valid_filename a \<or> \<not> is_valid_filename b \<or> fs_at (w_fs w) (file_at (w_fs w) u a) = None
        \<or> fs_at (w_fs w) (file_at (w_fs w) u b) \<noteq> None" using A(5) B(5) by auto
    then obtain v where v: "rename_file u a b w = (False, v)" "fs_at (w_fs v) = fs_at (w_fs w)"
        "w_index v = w_index w" "locks_kept w v" "fs_env (w_fs v) = fs_env (w_fs w)" "env_of v = env_of w"
      using rename_refused [OF ne A(2) B(2) A(6)] by metis
    note same = serving_same [OF assms(1) room_kept [OF inv(2) v(4)] v(6,5,2,3)]
    with v False show thesis by (intro that [of v]) auto
  next
    case True
    then obtain c where c: "store_of N w (u, a) = Some c" "store_of N w (u, b) = None" by blast
    then have at: "fs_at (w_fs w) (file_at (w_fs w) u a) = Some (File c)" "fs_at (w_fs w) (file_at (w_fs w) u b) = None"
      using A(5) B(5) by simp_all
    obtain v where v: "rename_file u a b w = (True, v)"
        "fs_at (w_fs v) = (fs_at (w_fs w))(file_at (w_fs w) u a := None, file_at (w_fs w) u b \<mapsto> File c)"
        "locks_kept w v" "fs_env (w_fs v) = fs_env (w_fs w)" "env_of v = env_of w"
      using rename_complete [OF A(1) B(1) ne A(2) B(2) A(6,7,8) B(8) at] by metis
    have "fs_at (w_fs v) (file_at (w_fs w) u' n') = (if (u', n') = (u, b) then Some (File c)
        else if (u', n') = (u, a) then None else fs_at (w_fs w) (file_at (w_fs w) u' n'))"
      if "(u', n') \<in> N" for u' n'
      using ordinary_same [OF A(9) that assms(2)] ordinary_same [OF A(9) that assms(3)] places v(2) by auto
    then have store: "store_of N v = (store_of N w)((u, a) := None, (u, b) \<mapsto> c)"
      using assms(2,3) places_env [OF v(4)] by (auto simp: store_of_def fun_eq_iff content_of_def)
    have step: "in_step N v" by (rule in_step_rename [OF inv(1) assms(2,3) A(2) B(2) v(1)])
    have "length c < 2 ^ 64 - 1" using assms(1) c(1) unfolding serving_def by blast
    then have "serving N m v"
      using assms(1) step room_kept [OF inv(2) v(3)] env_alloc [OF v(5)] unfolding serving_def store by auto
    with v store c show thesis by (intro that [of v]) simp_all
  qed
qed

lemma download_store:
  assumes "serving N (Suc m) w" and "(u, n) \<in> N" and "store_of N w (u, n) = Some c"
    and "send_contract s" and "send_reliable s"
  obtains v t where "stream_file_to_socket u n w s = (True, v, t)" and "serving N m v"
    and "store_of N v = store_of N w" and "env_of v = env_of w" and "sk_tx t = sk_tx s @ c" and "only_writes s t"
proof -
  note D = servingD [OF assms(1,2)]
  have at: "fs_at (w_fs w) (file_at (w_fs w) u n) = Some (File c)" using D(5) assms(3) by simp
  have room: "room (Suc m) w" using assms(1) by (simp add: serving_def)
  obtain v t where v: "stream_file_to_socket u n w s = (True, v, t)" "sk_tx t = sk_tx s @ c" "only_writes s t"
      "fs_at (w_fs v) = fs_at (w_fs w)" "fs_env (w_fs v) = fs_env (w_fs w)" "w_index v = w_index w"
      "env_of v = env_of w" "lock_leaked (file_path u n) w v"
    using stream_complete [OF D(1,2,6) at assms(4,5)] by metis
  note same = serving_same [OF assms(1) room_leaked [OF room v(8)] v(7,5,4,6)]
  with v show thesis by (intro that [of v t]) simp_all
qed

text \<open>The size a download announces is the length of what it sends.\<close>

lemma size_store:
  assumes "serving N (Suc m) w" and "(u, n) \<in> N"
  shows "fm_get_file_size u n w = (case store_of N w (u, n) of None \<Rightarrow> - 1 | Some c \<Rightarrow> word_of_nat (length c))"
    and "store_of N w (u, n) = Some c \<Longrightarrow> (word_of_nat (length c) :: u64) \<noteq> - 1"
proof -
  have inv: "in_step N w" using assms(1) by (simp add: serving_def)
  note here = in_stepD [OF inv assms(2)]
  have "map_option fst (idx_look (w_index w) (user_dir u, n)) = size_on_disk (w_fs w) u n"
    using here(7) by (simp add: idx_size_def)
  then show "fm_get_file_size u n w = (case store_of N w (u, n) of None \<Rightarrow> - 1 | Some c \<Rightarrow> word_of_nat (length c))"
    unfolding servingD(4) [OF assms] using here(9)
    by (auto simp: fm_get_file_size_def Let_def file_exists_look get_file_size_look size_on_disk_def content_of_def
        split: option.splits node.splits)
  assume "store_of N w (u, n) = Some c"
  then have "length c < 2 ^ 64 - 1" using assms(1) unfolding serving_def by blast
  then have "unat (word_of_nat (length c) :: u64) \<noteq> 2 ^ 64 - 1" by (simp add: unat_of_nat)
  moreover have "unat (- 1 :: u64) = 2 ^ 64 - 1" by (simp add: unsigned_minus_1_eq_mask mask_eq_exp_minus_1)
  ultimately show "(word_of_nat (length c) :: u64) \<noteq> - 1" by metis
qed

section \<open>One request is answered as the abstract server says\<close>

lemma send_response_wire:
  assumes "send_contract s" and "send_reliable s" and "length msg < 2 ^ 31"
  obtains t where "send_response be s cmd st msg = (True, t)" and "sk_tx t = sk_tx s @ response_wire cmd (st, msg)"
    and "only_writes s t"
proof -
  let ?h = "response_header cmd st (length msg)"
  have fits: "fits_meta ?h [] []" "length msg = unat (payload_length ?h)"
    using assms(3) by (simp_all add: fits_meta_def response_header_def make_response_def unat_of_nat)
  obtain t where "send_message be s ?h [] [] (Some msg) (length msg) = (True, t)"
      "sk_tx t = sk_tx s @ meta_wire ?h [] [] @ msg" "only_writes s t"
    using send_message_wire [OF assms(1,2) fits assms(3)] by blast
  then show thesis
    by (intro that [of t]) (simp_all add: send_response_def response_header_def response_wire_def meta_wire_def Let_def)
qed

text \<open>
  The outcome of one turn of the loop against the abstract server's: the session goes on unless
  the client quit, the response is on the wire, the rest of the stream is untouched.
\<close>

definition meets ::
    "(bytes \<times> bytes) set \<Rightarrow> nat \<Rightarrow> world \<Rightarrow> socket \<Rightarrow> bytes \<Rightarrow> request
     \<Rightarrow> (StatusCode \<times> bytes) \<times> bytes \<times> store \<Rightarrow> outcome \<times> bytes \<times> world \<times> socket \<Rightarrow> bool" where
  "meets N m w s rest r = (\<lambda>(reply, su', M') (oc, su'', v, t).
     oc = (if rq_command r = QUIT then Finished else Again) \<and> su'' = su' \<and> serving N m v
     \<and> store_of N v = M' \<and> env_of v = env_of w \<and> sk_rx t = rest
     \<and> sk_tx t = sk_tx s @ response_wire (command_code (rq_command r)) reply
     \<and> wire_ok t \<and> sk_open t = sk_open s)"

lemma respond_meets:
  assumes "serving N m v" and "env_of v = env_of w" and "rq_command r \<noteq> QUIT" and "length msg < 2 ^ 31"
    and "sk_rx s1 = rest" and "sk_tx s1 = sk_tx s" and "wire_ok s1" and "sk_open s1 = sk_open s"
  shows "meets N m w s rest r ((st, msg), su, store_of N v) (respond (command_code (rq_command r)) st msg su v s1)"
proof -
  obtain t where "send_response (w_be v) s1 (command_code (rq_command r)) st msg = (True, t)"
      "sk_tx t = sk_tx s1 @ response_wire (command_code (rq_command r)) (st, msg)" "only_writes s1 t"
    using send_response_wire [of s1 msg] assms(4,7) by blast
  with assms only_writes_contracts [OF \<open>only_writes s1 t\<close>] show ?thesis
    by (simp add: meets_def respond_def)
qed

lemma serving_less:
  assumes "serving N n w" and "m \<le> n"
  shows "serving N m w"
proof -
  have "lock_count (w_locks w) k + m < 2 ^ 32" for k
    using assms by (intro le_less_trans [OF add_left_mono [OF assms(2)]]) (simp add: serving_def room_def)
  then show ?thesis using assms(1) by (simp add: serving_def room_def)
qed

text \<open>What makes a request answerable: its lengths, and that it speaks of names in N.\<close>

definition request_ok :: "(bytes \<times> bytes) set \<Rightarrow> bytes \<Rightarrow> request \<Rightarrow> bool" where
  "request_ok N su r \<longleftrightarrow> request_fits r \<and>
     (su \<noteq> [] \<and> rq_command r \<in> {UPLOAD, DOWNLOAD, DELETE_F, RENAME} \<longrightarrow> (su, rq_file r) \<in> N)
     \<and> (su \<noteq> [] \<and> rq_command r = RENAME \<longrightarrow> (su, rq_body r) \<in> N)"

lemma logged_out_keeps_world:
  assumes "serve_request [] w s = (r, su, v, t)"
  shows "v = w"
proof -
  have "v' = w" if "dispatch h u f p [] w a = (r', su', v', t')" for h u f p a r' su' v' t'
    using that by (auto simp: dispatch_def Let_def split: option.splits CommandType.splits prod.splits dest!: respond_rest)
  then show ?thesis
    using assms unfolding serve_request_def by (auto split: prod.splits received.splits if_splits)
qed

lemma short_texts: "length must_login < 2 ^ 31"
  by (simp add: must_login_def)

lemma command_of_request [simp]: "command (request_header r) = command_code (rq_command r)"
  by (simp add: request_header_def make_request_def)

lemma payload_of_request: "request_fits r \<Longrightarrow> unat (payload_length (request_header r)) = length (rq_body r)"
  by (auto simp: request_header_def make_request_def unat_of_nat request_fits_def split: if_splits)

lemma download_meets:
  assumes "serving N (Suc m) w" and "(su, n) \<in> N" and "rq_command r = DOWNLOAD" and "wire_ok s"
    and "store_of N w (su, n) = Some c"
  shows "meets N m w s (sk_rx s) r ((OK, c), su, store_of N w)
    (send_file (command_code DOWNLOAD) su n (word_of_nat (length c)) w s)"
proof -
  let ?h = "response_header (command_code DOWNLOAD) OK (length c)"
  have "fits_meta ?h [] []" by (simp add: fits_meta_def response_header_def make_response_def)
  then obtain a where a: "send_message_meta (w_be w) s ?h [] [] = (True, a)"
      "sk_tx a = sk_tx s @ meta_wire ?h [] []" "only_writes s a"
    using send_message_meta_wire [of s ?h "[]" "[]"] assms(4) by blast
  obtain v t where v: "stream_file_to_socket su n w a = (True, v, t)" "serving N m v"
      "store_of N v = store_of N w" "env_of v = env_of w" "sk_tx t = sk_tx a @ c" "only_writes a t"
    using download_store [OF assms(1,2,5), of a] only_writes_contracts [OF a(3)] assms(4) by metis
  have "send_file (command_code DOWNLOAD) su n (word_of_nat (length c)) w s = (Again, su, v, t)"
    using a(1) v(1) by (simp add: send_file_def response_header_def Let_def)
  then show ?thesis
    using v a only_writes_contracts [OF a(3)] only_writes_contracts [OF v(6)] assms(3,4)
    by (simp add: meets_def response_wire_def meta_wire_def)
qed

text \<open>The commands that need a user, with one.\<close>

lemma dispatch_user_meets:
  assumes "serving N (Suc m) w" and "request_ok N su (Req c u n b)" and "wire_ok s"
    and "sk_rx s = (if c = UPLOAD then b else []) @ rest" and "c \<noteq> UPLOAD \<Longrightarrow> p = b"
    and "c = LIST \<Longrightarrow> length (list_files su w) < 2 ^ 31" and "su \<noteq> []" and "c \<notin> {LOGIN, QUIT}"
  shows "meets N m w s rest (Req c u n b) (spec_reply (list_files su w) (Req c u n b) su (store_of N w))
    (dispatch (request_header (Req c u n b)) u n p su w s)"
proof -
  let ?r = "Req c u n b"
  have fits: "request_fits ?r" using assms(2) by (simp add: request_ok_def)
  have size: "unat (payload_length (request_header ?r)) = length b" using payload_of_request [OF fits] by simp
  note weak = serving_less [OF assms(1) le_SucI [OF order_refl]] and ok = assms(3)
  have nm: "(su, n) \<in> N" if "c \<noteq> LIST"
    using assms(2,7,8) that by (cases c) (simp_all add: request_ok_def)
  note dsimps = dispatch_def Let_def
  show ?thesis
  proof (cases c)
    case UPLOAD
    have "unat (payload_length (request_header ?r)) < 2 ^ 64 - 1" using size fits UPLOAD by (simp add: request_fits_def)
    then obtain v t where v: "save_file su n (payload_length (request_header ?r)) w s = (True, v, t)" "serving N m v"
        "store_of N v = (store_of N w)((su, n) \<mapsto> b)" "env_of v = env_of w" "sk_rx t = rest" "only_reads s t"
      using upload_store [OF assms(1) nm, of s "payload_length (request_header ?r)"] ok assms(4) UPLOAD size by auto
    note same = only_reads_contracts [OF v(6)]
    have "dispatch (request_header ?r) u n p su w s
        = respond (command_code UPLOAD) CREATED ''File uploaded successfully.'' su v t"
      using v(1) assms(7) UPLOAD by (simp add: dsimps del: command_code.simps)
    then show ?thesis
      using respond_meets [OF v(2,4) _ _ v(5), of ?r "''File uploaded successfully.''" s CREATED su] same ok v(3) assms(7) UPLOAD
      by simp
  next
    case DOWNLOAD
    have rx: "sk_rx s = rest" using assms(4) DOWNLOAD by simp
    note sz = size_store [OF assms(1) nm]
    show ?thesis
    proof (cases "store_of N w (su, n)")
      case None
      then have "dispatch (request_header ?r) u n p su w s
          = respond (command_code DOWNLOAD) NOT_FOUND ''File not found.'' su w s"
        using sz(1) assms(7) DOWNLOAD by (simp add: dsimps del: command_code.simps)
      then show ?thesis
        using respond_meets [OF weak refl _ _ rx refl ok refl, of ?r "''File not found.''" NOT_FOUND su] None assms(7) DOWNLOAD
        by simp
    next
      case (Some d)
      then have "dispatch (request_header ?r) u n p su w s
          = send_file (command_code DOWNLOAD) su n (word_of_nat (length d)) w s"
        using sz assms(7) DOWNLOAD by (simp add: dsimps del: command_code.simps)
      then show ?thesis
        using download_meets [OF assms(1) nm _ ok Some, of ?r] rx Some assms(7) DOWNLOAD by simp
    qed
  next
    case LIST
    have rx: "sk_rx s = rest" using assms(4) LIST by simp
    have "dispatch (request_header ?r) u n p su w s = respond (command_code LIST) OK (list_files su w) su w s"
      using assms(7) LIST by (simp add: dsimps del: command_code.simps)
    then show ?thesis
      using respond_meets [OF weak refl _ _ rx refl ok refl, of ?r "list_files su w" OK su] assms(6,7) LIST by simp
  next
    case DELETE_F
    have rx: "sk_rx s = rest" using assms(4) DELETE_F by simp
    obtain v where v: "delete_file su n w = (store_of N w (su, n) \<noteq> None, v)" "serving N m v"
        "store_of N v = (store_of N w)((su, n) := None)" "env_of v = env_of w"
      using delete_store [OF assms(1) nm] DELETE_F by auto
    let ?st = "if store_of N w (su, n) = None then NOT_FOUND else OK"
    let ?msg = "if store_of N w (su, n) = None then ''File not found or cannot be deleted.'' else ''File deleted successfully.''"
    have "dispatch (request_header ?r) u n p su w s = respond (command_code DELETE_F) ?st ?msg su v s"
      using v(1) assms(7) DELETE_F by (simp add: dsimps del: command_code.simps)
    moreover have "length ?msg < 2 ^ 31" by simp
    ultimately show ?thesis
      using respond_meets [OF v(2,4) _ _ rx refl ok refl, of ?r ?msg ?st su] v(3) assms(7) DELETE_F
      by (cases "store_of N w (su, n)") (simp_all add: fun_upd_idem)
  next
    case RENAME
    have rx: "sk_rx s = rest" and p: "p = b" using assms(4,5) RENAME by simp_all
    have nb: "(su, b) \<in> N" using assms(2,7) RENAME by (simp add: request_ok_def)
    show ?thesis
    proof (cases "n = b")
      case True
      have "is_valid_filename n" using servingD(1) [OF assms(1) nm] RENAME by simp
      then have "dispatch (request_header ?r) u n p su w s
          = respond (command_code RENAME) OK ''Renamed successfully.'' su w s"
        using rename_same_name True p assms(7) RENAME by (simp add: dsimps del: command_code.simps)
      then show ?thesis
        using respond_meets [OF weak refl _ _ rx refl ok refl, of ?r "''Renamed successfully.''" OK su] True assms(7) RENAME
        by simp
    next
      case False
      define go where "go \<longleftrightarrow> store_of N w (su, n) \<noteq> None \<and> store_of N w (su, b) = None"
      obtain v where v: "rename_file su n b w = (go, v)" "serving N m v"
          "store_of N v = (if go then (store_of N w)((su, n) := None, (su, b) := store_of N w (su, n)) else store_of N w)"
          "env_of v = env_of w"
        using rename_store [OF assms(1) nm nb False] RENAME unfolding go_def by auto
      let ?st = "if go then OK else NOT_FOUND"
      let ?msg = "if go then ''Renamed successfully.'' else ''File not found or new name conflicts.''"
      have "dispatch (request_header ?r) u n p su w s = respond (command_code RENAME) ?st ?msg su v s"
        using v(1) p assms(7) RENAME by (cases go) (simp_all add: dsimps del: command_code.simps)
      moreover have "spec_reply (list_files su w) ?r su (store_of N w) = ((?st, ?msg), su, store_of N v)"
        using False assms(7) RENAME v(3) by (cases go) (auto simp: go_def)
      moreover have "length ?msg < 2 ^ 31" by simp
      ultimately show ?thesis
        using respond_meets [OF v(2,4) _ _ rx refl ok refl, of ?r ?msg ?st su] RENAME by simp
    qed
  qed (use assms(8) in simp_all)
qed

lemma dispatch_meets:
  assumes "serving N (Suc m) w" and "request_ok N su r" and "wire_ok s"
    and "sk_rx s = (if rq_command r = UPLOAD then rq_body r else []) @ rest"
    and "rq_command r \<noteq> UPLOAD \<Longrightarrow> p = rq_body r"
    and "rq_command r = LIST \<Longrightarrow> length (list_files su w) < 2 ^ 31"
  shows "meets N m w s rest r (spec_reply (list_files su w) r su (store_of N w))
    (dispatch (request_header r) (rq_user r) (rq_file r) p su w s)"
proof -
  obtain c u n b where r: "r = Req c u n b" by (cases r)
  have fits: "request_fits r" using assms(2) by (simp add: request_ok_def)
  note size = payload_of_request [OF fits]
  note weak = serving_less [OF assms(1) le_SucI [OF order_refl]]
  note ok = assms(3)
  show ?thesis
  proof (cases "su = [] \<and> c \<notin> {LOGIN, QUIT}")
    case True
    show ?thesis
    proof (cases "c = UPLOAD")
      case False
      then have "dispatch (request_header r) u n p su w s = respond (command_code c) BAD_REQUEST must_login su w s"
        using True by (cases c) (simp_all add: dispatch_def Let_def r del: command_code.simps)
      moreover have "spec_reply (list_files su w) r su (store_of N w) = ((BAD_REQUEST, must_login), su, store_of N w)"
        using True by (cases c) (simp_all add: r)
      moreover have "sk_rx s = rest" using False assms(4) r by simp
      ultimately show ?thesis
        using respond_meets [OF weak refl _ short_texts _ refl ok refl, of r rest BAD_REQUEST su] True by (simp add: r)
    next
      case up: True
      let ?t = "discard_data s (length b)"
      have rx: "sk_rx ?t = rest" using discard_data_exact [of s "length b"] ok assms(4) up r by simp
      note same = only_reads_contracts [OF discard_data_reads [of s "length b"]]
      have "dispatch (request_header r) u n p su w s = respond (command_code c) BAD_REQUEST must_login su w ?t"
        using True up size by (simp add: dispatch_def Let_def r del: command_code.simps)
      moreover have "spec_reply (list_files su w) r su (store_of N w) = ((BAD_REQUEST, must_login), su, store_of N w)"
        using True up by (simp add: r)
      ultimately show ?thesis
        using respond_meets [OF weak refl _ short_texts rx, where r = r and s = s and su = su and st = BAD_REQUEST] same ok up
        by (simp add: r)
    qed
  next
    case False
    then consider "c = LOGIN" | "c = QUIT" | "su \<noteq> []" "c \<notin> {LOGIN, QUIT}" by blast
    then show ?thesis
    proof cases
      case 1
      have "length (''Welcome, '' @ u @ ''!'') < 2 ^ 31" using fits by (simp add: request_fits_def r)
      then show ?thesis
        using respond_meets [OF weak refl _ _ _ refl ok refl, of r "''Welcome, '' @ u @ ''!''" rest OK u] assms(4) 1
        by (simp add: dispatch_def Let_def r del: command_code.simps append_Cons)
    next
      case 2
      obtain t where "send_response (w_be w) s (command_code QUIT) OK ''Goodbye!'' = (True, t)"
          "sk_tx t = sk_tx s @ response_wire (command_code QUIT) (OK, ''Goodbye!'')" "only_writes s t"
        by (rule send_response_wire [of s "''Goodbye!''" "w_be w" "command_code QUIT" OK]) (use ok in simp_all)
      with 2 assms(4) ok weak only_writes_contracts [OF \<open>only_writes s t\<close>] show ?thesis
        by (simp add: dispatch_def Let_def r meets_def del: command_code.simps)
    next
      case 3
      with assms dispatch_user_meets [of N m w su c u n b s rest p] show ?thesis by (simp add: r)
    qed
  qed
qed

section \<open>A request read off the stream\<close>

lemma meets_reads:
  assumes "meets N m w a rest r x y" and "only_reads s a"
  shows "meets N m w s rest r x y"
  using assms(1) only_reads_contracts [OF assms(2)]
  by (cases x rule: prod_cases3; cases y rule: prod_cases4) (simp add: meets_def)

lemma request_fits_meta: "request_fits r \<Longrightarrow> fits_meta (request_header r) (rq_user r) (rq_file r)"
  by (auto simp: fits_meta_def request_header_def make_request_def unat_of_nat request_fits_def)

lemma request_read:
  assumes "request_fits r" and "wire_ok s" and "sk_rx s = request_wire r @ rest" and "\<And>n. w_alloc w n"
  obtains p a where "serve_request su w s = dispatch (request_header r) (rq_user r) (rq_file r) p su w a"
    and "sk_rx a = (if rq_command r = UPLOAD then rq_body r else []) @ rest" and "only_reads s a"
    and "rq_command r \<noteq> UPLOAD \<Longrightarrow> p = rq_body r"
proof -
  obtain a where a: "recv_message_meta (w_alloc w) (w_be w) s = (Received (request_header r, rq_user r, rq_file r), a)"
      "sk_rx a = rq_body r @ rest" "only_reads s a"
    using recv_message_meta_wire [of s "request_header r" "rq_user r" "rq_file r" "rq_body r @ rest" "w_alloc w" "w_be w"]
      assms request_fits_meta [OF assms(1)] by (auto simp: request_wire_def)
  have ok: "wire_ok a" using only_reads_contracts [OF a(3)] assms(2) by simp
  show thesis
  proof (cases "rq_command r = UPLOAD")
    case True
    then have "serve_request su w s = dispatch (request_header r) (rq_user r) (rq_file r) [] su w a"
      using a(1) by (simp add: serve_request_def del: command_code.simps)
    with a True show thesis by (intro that [of "[]" a]) simp_all
  next
    case False
    have len: "length (rq_body r) = unat (payload_length (request_header r))" "length (rq_body r) < 2 ^ 31"
      using payload_of_request [OF assms(1)] assms(1) False by (simp_all add: request_fits_def)
    obtain b where b: "recv_field (w_alloc w) a (payload_length (request_header r)) = (Received (rq_body r), b)"
        "sk_rx b = rest" "only_reads a b"
      using recv_field_wire [of a "rq_body r" rest "payload_length (request_header r)" "w_alloc w"] ok a(2) len assms(4) by auto
    then have "serve_request su w s = dispatch (request_header r) (rq_user r) (rq_file r) (rq_body r) su w b"
      using a(1) False by (simp add: serve_request_def del: command_code.simps)
    with b a(3) False show thesis by (intro that [of "rq_body r" b]) (auto intro: only_reads_trans)
  qed
qed

lemma serve_request_meets:
  assumes "serving N (Suc m) w" and "request_ok N su r" and "wire_ok s" and "sk_rx s = request_wire r @ rest"
    and "rq_command r = LIST \<Longrightarrow> length (list_files su w) < 2 ^ 31"
  shows "meets N m w s rest r (spec_reply (list_files su w) r su (store_of N w)) (serve_request su w s)"
proof -
  have fits: "request_fits r" and alloc: "w_alloc w n" for n using assms(1,2) by (simp_all add: request_ok_def serving_def)
  obtain p a where a: "serve_request su w s = dispatch (request_header r) (rq_user r) (rq_file r) p su w a"
      "sk_rx a = (if rq_command r = UPLOAD then rq_body r else []) @ rest" "only_reads s a" "rq_command r \<noteq> UPLOAD \<Longrightarrow> p = rq_body r"
    by (rule request_read [OF fits assms(3,4) alloc], rule that)
  have "wire_ok a" using only_reads_contracts [OF a(3)] assms(3) by simp
  from dispatch_meets [OF assms(1,2) this a(2,4) assms(5)] show ?thesis
    unfolding a(1) by (rule meets_reads [OF _ a(3)])
qed

section \<open>The whole session\<close>

definition next_user :: "bytes \<Rightarrow> request \<Rightarrow> bytes" where
  "next_user su r = (if rq_command r = LOGIN then rq_user r else su)"

fun session_ok :: "(bytes \<times> bytes) set \<Rightarrow> bytes \<Rightarrow> request list \<Rightarrow> bool" where
  "session_ok N su [] = True"
| "session_ok N su (r # rs) \<longleftrightarrow> request_ok N su r \<and> rq_command r \<noteq> QUIT \<and> session_ok N (next_user su r) rs"

text \<open>
  The responses of the abstract server to a sequence of requests, and its final store. The order
  of a listing is that of a hash map, so the texts of the listings are an argument: \<open>lst i\<close> is
  what a LIST at position i is answered.
\<close>

fun spec_session :: "(nat \<Rightarrow> bytes) \<Rightarrow> request list \<Rightarrow> bytes \<Rightarrow> store \<Rightarrow> bytes \<times> bytes \<times> store" where
  "spec_session lst [] su M = ([], su, M)"
| "spec_session lst (r # rs) su M =
     (case spec_reply (lst 0) r su M of
        (reply, su, M) \<Rightarrow>
          (case spec_session (\<lambda>i. lst (Suc i)) rs su M of
             (out, su, M) \<Rightarrow> (response_wire (command_code (rq_command r)) reply @ out, su, M)))"

text \<open>The listings a session of the server gives: what \<open>list_files\<close> returns at each turn.\<close>

fun listing_at :: "bytes \<Rightarrow> world \<Rightarrow> socket \<Rightarrow> nat \<Rightarrow> bytes" where
  "listing_at su w s 0 = list_files su w"
| "listing_at su w s (Suc i) = (case serve_request su w s of (oc, su, w, s) \<Rightarrow> listing_at su w s i)"

fun listings_short :: "(nat \<Rightarrow> bytes) \<Rightarrow> request list \<Rightarrow> bool" where
  "listings_short lst [] = True"
| "listings_short lst (r # rs) \<longleftrightarrow>
     (rq_command r = LIST \<longrightarrow> length (lst 0) < 2 ^ 31) \<and> listings_short (\<lambda>i. lst (Suc i)) rs"

text \<open>
  What a listing must say: each file once, one line per file, and for every name in N the truth:
  the name is listed exactly when the file is stored, with the length of its content.
\<close>

definition listing_of :: "(bytes \<times> bytes) set \<Rightarrow> bytes \<Rightarrow> store \<Rightarrow> bytes \<Rightarrow> bool" where
  "listing_of N su M msg \<longleftrightarrow> (\<exists>fs. msg = render_listing fs \<and> distinct (map fst fs)
     \<and> (\<forall>k sz. (su, k) \<in> N \<longrightarrow> (\<exists>time. (k, sz, time) \<in> set fs) =
          (\<exists>c. M (su, k) = Some c \<and> sz = word_of_nat (length c))))"

fun listings_true :: "(bytes \<times> bytes) set \<Rightarrow> (nat \<Rightarrow> bytes) \<Rightarrow> request list \<Rightarrow> bytes \<Rightarrow> store \<Rightarrow> bool" where
  "listings_true N lst [] su M = True"
| "listings_true N lst (r # rs) su M \<longleftrightarrow>
     (case spec_reply (lst 0) r su M of
        (reply, su', M') \<Rightarrow> listing_of N su M (lst 0) \<and> listings_true N (\<lambda>i. lst (Suc i)) rs su' M')"

lemma spec_reply_listing: "rq_command r \<noteq> LIST \<Longrightarrow> spec_reply l r su M = spec_reply [] r su M"
  by (cases r; cases "rq_command r") simp_all

lemma spec_reply_state: "snd (spec_reply l r su M) = snd (spec_reply [] r su M)"
  by (cases r; cases "rq_command r") simp_all

lemma spec_reply_user: "fst (snd (spec_reply l r su M)) = next_user su r"
  by (cases r; cases "rq_command r") (auto simp: next_user_def split: option.split)

lemma list_files_true:
  assumes "serving N m w"
  shows "listing_of N su (store_of N w) (list_files su w)"
proof -
  have inv: "in_step N w" using assms by (simp add: serving_def)
  then have "index_ok (w_index w)" by (simp add: in_step_def)
  from list_files_shape [OF this, of su] obtain fs where fs:
      "list_files su w = render_listing fs"
      "distinct (map fst fs)"
      "set fs = {(n, sz, time). idx_look (w_index w) (normalize_path (user_dir su), n) = Some (sz, time)}"
    by blast
  have "(\<exists>time. (k, sz, time) \<in> set fs) = (\<exists>c. store_of N w (su, k) = Some c \<and> sz = word_of_nat (length c))"
    if k: "(su, k) \<in> N" for k sz
  proof -
    note here = in_stepD [OF inv k]
    have "(\<exists>time. (k, sz, time) \<in> set fs) = (idx_size (w_index w) (user_dir su, k) = Some sz)"
      unfolding fs(3) here(9) idx_size_def by auto
    also have "\<dots> = (\<exists>c. store_of N w (su, k) = Some c \<and> sz = word_of_nat (length c))"
      using k unfolding here(7) by (auto simp: store_of_def size_on_disk_def content_of_def split: option.split node.split)
    finally show ?thesis .
  qed
  with fs(1,2) show ?thesis unfolding listing_of_def by blast
qed

lemma session_loop_serves:
  assumes "serving N (m + length rs) w" and "session_ok N su rs" and "wire_ok s"
    and "sk_rx s = concat (map request_wire rs) @ rest" and "\<And>j. running j"
    and "listings_short (listing_at su w s) rs"
    and "spec_session (listing_at su w s) rs su (store_of N w) = (out, su', M')"
  obtains v t where "session_loop running k su w s = session_loop running (k + length rs) su' v t"
    and "serving N m v" and "store_of N v = M'" and "env_of v = env_of w" and "sk_rx t = rest"
    and "sk_tx t = sk_tx s @ out" and "wire_ok t" and "sk_open t = sk_open s"
    and "listings_true N (listing_at su w s) rs su (store_of N w)"
  using assms
proof (induction rs arbitrary: su w s k out thesis)
  case Nil
  then show ?case by simp
next
  case (Cons r rs)
  let ?lst = "listing_at su w s"
  obtain reply su1 M1 where sp: "spec_reply (list_files su w) r su (store_of N w) = (reply, su1, M1)" by (metis prod_cases3)
  have rok: "request_ok N su r" "rq_command r \<noteq> QUIT" "session_ok N (next_user su r) rs"
    using Cons.prems(3) by simp_all
  have su1: "su1 = next_user su r" using spec_reply_user [of "list_files su w" r su "store_of N w"] sp by simp
  have "serving N (Suc (m + length rs)) w" using Cons.prems(2) by simp
  moreover have "sk_rx s = request_wire r @ concat (map request_wire rs) @ rest" using Cons.prems(5) by simp
  moreover have "rq_command r = LIST \<Longrightarrow> length (list_files su w) < 2 ^ 31" using Cons.prems(7) by simp
  ultimately have "meets N (m + length rs) w s (concat (map request_wire rs) @ rest) r (reply, su1, M1) (serve_request su w s)"
    using serve_request_meets [OF _ rok(1) Cons.prems(4), of "m + length rs" w] sp by auto
  then obtain v t where v: "serve_request su w s = (Again, su1, v, t)" "serving N (m + length rs) v" "store_of N v = M1"
      "env_of v = env_of w" "sk_rx t = concat (map request_wire rs) @ rest"
      "sk_tx t = sk_tx s @ response_wire (command_code (rq_command r)) reply" "wire_ok t" "sk_open t = sk_open s"
    using rok(2) by (cases "serve_request su w s" rule: prod_cases4) (auto simp: meets_def)
  have later: "(\<lambda>i. ?lst (Suc i)) = listing_at su1 v t" using v(1) by simp
  obtain out1 where out1: "spec_session (listing_at su1 v t) rs su1 M1 = (out1, su', M')"
      "out = response_wire (command_code (rq_command r)) reply @ out1"
    using Cons.prems(8) sp v(1) by (auto split: prod.splits)
  have turn: "session_loop running k su w s = session_loop running (Suc k) su1 v t"
    using v(1) Cons.prems(6) by (subst session_loop.simps) simp
  show ?case
  proof (rule Cons.IH [OF _ v(2) _ v(7,5) Cons.prems(6), where su = su1 and out = out1 and k = "Suc k"])
    show "session_ok N su1 rs" using rok(3) su1 by simp
    show "listings_short (listing_at su1 v t) rs" using Cons.prems(7) v(1) by simp
    show "spec_session (listing_at su1 v t) rs su1 (store_of N v) = (out1, su', M')" using out1(1) v(3) by simp
  next
    fix v' t'
    assume next_turns: "session_loop running (Suc k) su1 v t = session_loop running (Suc k + length rs) su' v' t'"
      "serving N m v'" "store_of N v' = M'" "env_of v' = env_of v" "sk_rx t' = rest" "sk_tx t' = sk_tx t @ out1"
      "wire_ok t'" "sk_open t' = sk_open t" "listings_true N (listing_at su1 v t) rs su1 (store_of N v)"
    have "listings_true N ?lst (r # rs) su (store_of N w)"
      using next_turns(9) v(1,3) sp list_files_true [OF Cons.prems(2), of su] by simp
    with next_turns turn v out1(2) show ?thesis by (intro Cons.prems(1) [of v' t']) simp_all
  qed
qed

lemma session_served:
  assumes "serving N (Suc (length rs)) w" and "session_ok N [] rs" and "request_fits (Req QUIT u n b)"
    and "wire_ok s" and "sk_rx s = concat (map request_wire rs) @ request_wire (Req QUIT u n b) @ rest"
    and "\<And>j. running j" and "listings_short (listing_at [] w s) rs"
    and "spec_session (listing_at [] w s) rs [] (store_of N w) = (out, su, M)"
    and "handle_client running w active s = (r, v, active', t)"
  shows "r = Value () \<and> sk_tx t = sk_tx s @ out @ response_wire 7 (OK, ''Goodbye!'') \<and> sk_rx t = rest
    \<and> store_of N v = M \<and> in_step N v \<and> \<not> sk_open t \<and> active' = active
    \<and> listings_true N (listing_at [] w s) rs [] (store_of N w)"
proof -
  let ?q = "Req QUIT u n b"
  have start: "serving N (1 + length rs) w" using assms(1) by simp
  obtain v1 t1 where v1: "session_loop running 0 [] w s = session_loop running (0 + length rs) su v1 t1"
      "serving N 1 v1" "store_of N v1 = M" "env_of v1 = env_of w" "sk_rx t1 = request_wire ?q @ rest"
      "sk_tx t1 = sk_tx s @ out" "wire_ok t1" "sk_open t1 = sk_open s" "listings_true N (listing_at [] w s) rs [] (store_of N w)"
    using session_loop_serves [OF start assms(2,4,5,6,7,8), where k = 0] .
  have "request_ok N su ?q" using assms(3) by (simp add: request_ok_def)
  then have "meets N 0 v1 t1 rest ?q (spec_reply (list_files su v1) ?q su M) (serve_request su v1 t1)"
    using serve_request_meets [of N 0 v1 su ?q t1 rest] v1 by simp
  then obtain v2 t2 where v2: "serve_request su v1 t1 = (Finished, su, v2, t2)" "serving N 0 v2" "store_of N v2 = M"
      "sk_rx t2 = rest" "sk_tx t2 = sk_tx t1 @ response_wire 7 (OK, ''Goodbye!'')"
    by (cases "serve_request su v1 t1" rule: prod_cases4) (auto simp: meets_def)
  then have "session_loop running (0 + length rs) su v1 t1 = (Finished, su, v2, t2)"
    using assms(6) by (subst session_loop.simps) simp
  then have "handle_client running w active s = (Value (), v2, active, closesocket t2)"
    using v1(1) by (simp add: handle_client_def)
  with assms(9) v1(6,9) v2 show ?thesis by (auto simp: closesocket_def serving_def)
qed

section \<open>Properties\<close>

text \<open>C2: on a connection without errors a session refines the abstract server: whatever requests
  the client sends (with names in N, then QUIT), in whatever pieces they arrive, \<open>handle_client\<close>
  sends exactly the abstract server's responses in order, each framed by its header, changes
  disk and index as the abstract store changes, leaves what follows on the stream unread, closes
  the socket and takes the connection counter back down. The text of a listing is the server's
  choice, but each tells the truth about the store at that moment.\<close>

theorem session_refines_store:
  assumes "serving N (Suc (length rs)) w" and "session_ok N [] rs" and "request_fits (Req QUIT u n b)"
    and "wire_ok s" and "sk_rx s = concat (map request_wire rs) @ request_wire (Req QUIT u n b) @ rest"
    and "\<And>j. running j" and "listings_short (listing_at [] w s) rs"
    and "spec_session (listing_at [] w s) rs [] (store_of N w) = (out, su, M)"
    and "handle_client running w active s = (r, v, active', t)"
  shows "r = Value () \<and> sk_tx t = sk_tx s @ out @ response_wire 7 (OK, ''Goodbye!'') \<and> sk_rx t = rest
    \<and> store_of N v = M \<and> in_step N v \<and> \<not> sk_open t \<and> active' = active
    \<and> listings_true N (listing_at [] w s) rs [] (store_of N w)"
  using session_served [OF assms] .

text \<open>A session that lists the files, uploads one, renames it, reads it back and quits.\<close>

definition demo_session :: "request list" where
  "demo_session = [Req LOGIN ''bob'' [] [], Req LIST [] [] [], Req UPLOAD ''bob'' ''new'' ''hello'',
     Req RENAME ''bob'' ''new'' ''b'', Req DOWNLOAD ''bob'' ''b'' []]"

definition bob_names :: "(bytes \<times> bytes) set" where
  "bob_names = {(''bob'', ''a''), (''bob'', ''b''), (''bob'', ''new'')}"

definition demo_world :: world where
  "demo_world = (sample_world home_nodes)\<lparr>w_index := add_file [] (user_dir ''bob'') ''a'' 3 ''noon''\<rparr>"

lemma demo_serving: "serving bob_names 9 demo_world"
proof -
  have clean: "clean_name ''bob''" by (simp add: clean_name_def)
  have fs: "w_fs demo_world = sample_disk home_nodes" by (simp add: demo_world_def)
  have ord: "ordinary (sample_disk home_nodes) bob_names"
    by (auto simp: ordinary_def bob_names_def clean)
  have nodes: "map_of home_nodes [''storage'', ''bob'', ''new''] = None" by (simp add: home_nodes_def)
  have "in_step bob_names demo_world"
    unfolding in_step_def fs using ord
    by (auto simp: bob_names_def size_on_disk_def demo_world_def idx_size_add normalize_user_dir [OF clean]
        index_ok_add_file nodes idx_size_def [of "[]"] idx_look_def)
  moreover have "room 9 demo_world" by (simp add: room_def demo_world_def sample_world_def)
  moreover have "length c < 2 ^ 64 - 1" if "store_of bob_names demo_world k = Some c" for k c
    using that by (cases k) (auto simp: store_of_def fs bob_names_def content_of_def nodes split: if_splits)
  ultimately show ?thesis
    unfolding serving_def by (auto simp: bob_names_def demo_world_def)
qed

lemma demo_store: "store_of bob_names demo_world (''bob'', ''new'') = None" "store_of bob_names demo_world (''bob'', ''b'') = None"
  by (simp_all add: store_of_def demo_world_def bob_names_def content_of_def home_nodes_def)

lemma demo_content: "store_of bob_names demo_world (''bob'', ''a'') = Some ''xyz''"
  by (simp add: store_of_def demo_world_def bob_names_def content_of_def home_nodes_def)

lemma demo_short: "length (list_files ''bob'' demo_world) < 2 ^ 31"
proof -
  have "map_of (w_index demo_world) (user_dir ''bob'') = Some [(''a'', \<lparr>md_filename = ''a'', md_size = 3, md_upload_time = ''noon''\<rparr>)]"
    by (simp add: demo_world_def add_file_def index_put_def inner_def normalize_user_dir clean_name_def)
  then have "list_files ''bob'' demo_world = ''a ('' @ to_string 3 @ '' bytes) - noon'' @ [CHR 0x0A]"
    by (simp add: list_files_def list_directory_def list_line_def normalize_user_dir clean_name_def Let_def)
  then show ?thesis by (simp add: to_string.simps)
qed

lemma demo_listing:
  assumes "wire_ok s" and "sk_rx s = request_wire (Req LOGIN ''bob'' [] []) @ rest"
  shows "listing_at [] demo_world s (Suc 0) = list_files ''bob'' demo_world"
proof -
  let ?r = "Req LOGIN ''bob'' [] []"
  have "serving bob_names (Suc 8) demo_world" using demo_serving by simp
  moreover have "request_ok bob_names [] ?r" by (simp add: request_ok_def request_fits_def)
  ultimately have "meets bob_names 8 demo_world s rest ?r (spec_reply (list_files [] demo_world) ?r [] (store_of bob_names demo_world))
      (serve_request [] demo_world s)"
    using assms by (intro serve_request_meets) simp_all
  then obtain v t where v: "serve_request [] demo_world s = (Again, ''bob'', v, t)"
    by (cases "serve_request [] demo_world s" rule: prod_cases4) (simp add: meets_def)
  with logged_out_keeps_world [OF v] show ?thesis by simp
qed

theorem session_refines_store_witness:
  "let s = trickle_socket (concat (map request_wire demo_session) @ request_wire (Req QUIT [] [] []) @ ''more'');
       (r, v, active, t) = handle_client (\<lambda>j. True) demo_world 3 s
   in r = Value () \<and> sk_rx t = ''more'' \<and> active = 3 \<and> \<not> sk_open t
      \<and> store_of bob_names v (''bob'', ''b'') = Some ''hello''
      \<and> (\<exists>pre. sk_tx t = pre @ response_wire 3 (OK, ''hello'') @ response_wire 7 (OK, ''Goodbye!''))"
proof -
  let ?s = "trickle_socket (concat (map request_wire demo_session) @ request_wire (Req QUIT [] [] []) @ ''more'')"
  obtain r v active t where run: "handle_client (\<lambda>j. True) demo_world 3 ?s = (r, v, active, t)" by (metis prod_cases4)
  obtain out su M where sp: "spec_session (listing_at [] demo_world ?s) demo_session [] (store_of bob_names demo_world) = (out, su, M)"
    by (metis prod_cases3)
  then have M: "M (''bob'', ''b'') = Some ''hello''"
      "\<exists>pre. out = pre @ response_wire 3 (OK, ''hello'')"
    by (auto simp: demo_session_def demo_store)
  have ok: "session_ok bob_names [] demo_session"
    by (simp add: demo_session_def request_ok_def request_fits_def next_user_def bob_names_def)
  have serving: "serving bob_names (Suc (length demo_session)) demo_world"
    using serving_less [OF demo_serving] by (simp add: demo_session_def)
  have short: "listings_short (listing_at [] demo_world ?s) demo_session"
    using demo_listing [of ?s] demo_short by (simp add: demo_session_def)
  have "request_fits (Req QUIT [] [] [])" by (simp add: request_fits_def)
  from session_refines_store [OF serving ok this _ _ _ short sp run] M run show ?thesis by auto
qed

text \<open>C23: without a login nothing is touched: as long as the session has no user, a turn of the
  loop leaves disk, index and locks as they are, only a LOGIN request can set the user, and
  the five file commands are answered with 400 and the fixed text (an upload's payload being
  thrown away first).\<close>

lemma dispatch_logged_out:
  assumes "to_command (command h) \<in> {Some UPLOAD, Some DOWNLOAD, Some LIST, Some DELETE_F, Some RENAME}"
  shows "dispatch h u f p [] w s = respond (command h) BAD_REQUEST must_login [] w
    (if to_command (command h) = Some UPLOAD then discard_data s (unat (payload_length h)) else s)"
  using assms by (auto simp: dispatch_def Let_def)

theorem no_access_before_login:
  assumes "serve_request [] w s = (r, su, v, t)"
  shows "v = w \<and> (su = [] \<or> (\<exists>h f a. recv_message_meta (w_alloc w) (w_be w) s = (Received (h, su, f), a)
        \<and> to_command (command h) = Some LOGIN))
    \<and> (to_command (command h) \<in> {Some UPLOAD, Some DOWNLOAD, Some LIST, Some DELETE_F, Some RENAME} \<longrightarrow>
         dispatch h u f p [] w a = respond (command h) BAD_REQUEST ''Must LOGIN first'' [] w
           (if to_command (command h) = Some UPLOAD then discard_data a (unat (payload_length h)) else a))"
proof -
  have step: "v' = w \<and> (su' = [] \<or> to_command (command h) = Some LOGIN \<and> su' = u)"
    if "dispatch h u f p [] w a = (r', su', v', t')" for h u f p a r' su' v' t'
    using that by (auto simp: dispatch_def Let_def split: option.splits CommandType.splits prod.splits dest!: respond_rest)
  have "v = w \<and> (su = [] \<or> (\<exists>h f a. recv_message_meta (w_alloc w) (w_be w) s = (Received (h, su, f), a)
        \<and> to_command (command h) = Some LOGIN))"
    using assms unfolding serve_request_def
    by (auto split: prod.splits received.splits if_splits dest!: step)
  then show ?thesis using dispatch_logged_out [of h u f p w a] by (simp add: must_login_def)
qed

theorem no_access_before_login_witness:
  "let (r, su, v, t) = serve_request [] demo_world (prompt_socket (request_wire (Req DELETE_F ''bob'' ''a'' [])))
   in v = demo_world"
  using no_access_before_login [of demo_world "prompt_socket (request_wire (Req DELETE_F ''bob'' ''a'' []))"]
  by (cases "serve_request [] demo_world (prompt_socket (request_wire (Req DELETE_F ''bob'' ''a'' [])))" rule: prod_cases4) simp

text \<open>C24: a client can make a session leak. A request that announces a payload (of any command
  but UPLOAD) which cannot be allocated makes \<open>resize\<close> throw; the exception leaves
  \<open>handle_client\<close> with the socket still open and the connection counted for good.\<close>

theorem announced_size_leaks_session:
  assumes "recv_contract s" and "recv_reliable s" and "sk_rx s = header_wire h @ rest"
    and "username_length h = 0" and "filename_length h = 0" and "to_command (command h) \<noteq> Some UPLOAD"
    and "payload_length h \<noteq> 0" and "\<not> w_alloc w (unat (payload_length h))" and "running 0" and "sk_open s"
    and "handle_client running w active s = (r, v, active', t)"
  shows "r = Raised \<and> v = w \<and> sk_open t \<and> active' = active + 1"
proof -
  obtain a where a: "recv_header (w_be w) s = (Some h, a)" "sk_rx a = rest" "only_reads s a"
    using recv_header_wire [OF assms(1-3)] .
  then have "recv_message_meta (w_alloc w) (w_be w) s = (Received (h, [], []), a)"
    using assms(4,5) by (simp add: recv_message_meta_def recv_field_def)
  then have "serve_request [] w s = (Threw, [], w, a)"
    using assms(6-8) by (simp add: serve_request_def recv_field_def word_gt_0)
  then have "session_loop running 0 [] w s = (Threw, [], w, a)"
    using assms(9) by (subst session_loop.simps) simp
  with assms(10,11) only_reads_contracts(6) [OF a(3)] show ?thesis by (auto simp: handle_client_def)
qed

theorem announced_size_leaks_session_witness:
  "let h = make_request LIST (2 ^ 62) 0 0; w = demo_world\<lparr>w_alloc := \<lambda>n. n < 2 ^ 40\<rparr>;
       (r, v, active, t) = handle_client (\<lambda>j. True) w 3 (prompt_socket (header_wire h))
   in r = Raised \<and> sk_open t \<and> active = 4"
  using announced_size_leaks_session [of "prompt_socket (header_wire (make_request LIST (2 ^ 62) 0 0))"
      "make_request LIST (2 ^ 62) 0 0" "[]" "demo_world\<lparr>w_alloc := \<lambda>n. n < 2 ^ 40\<rparr>" "\<lambda>j. True" 3]
  by (cases "handle_client (\<lambda>j. True) (demo_world\<lparr>w_alloc := \<lambda>n. n < 2 ^ 40\<rparr>) 3
      (prompt_socket (header_wire (make_request LIST (2 ^ 62) 0 0)))" rule: prod_cases4)
    (simp add: make_request_def to_command_def)

text \<open>A download announces the size in the index and sends the file's bytes. When the two
  differ (after a failed write, or when another session changes the file in between) the
  client's stream is out of step: the payload is not as long as its header says.\<close>

theorem download_size_from_index:
  assumes "su \<noteq> []" and "is_valid_filename n" and "lockable w (file_path su n)" and "healthy (w_fs w)"
    and "fs_at (w_fs w) (file_at (w_fs w) su n) = Some (File c)" and "fm_get_file_size su n w = sz" and "sz \<noteq> - 1"
    and "send_contract s" and "send_reliable s" and "to_command (command h) = Some DOWNLOAD"
    and "dispatch h u n p su w s = (r, su', v, t)"
  shows "r = Again \<and> sk_tx t = sk_tx s @ header_wire ((make_response (command h) OK 0 0)\<lparr>payload_length := sz\<rparr>) @ c"
proof -
  let ?h = "(make_response (command h) OK 0 0)\<lparr>payload_length := sz\<rparr>"
  have "fits_meta ?h [] []" by (simp add: fits_meta_def make_response_def)
  then obtain a where a: "send_message_meta (w_be w) s ?h [] [] = (True, a)"
      "sk_tx a = sk_tx s @ meta_wire ?h [] []" "only_writes s a"
    using send_message_meta_wire [of s ?h "[]" "[]"] assms(8,9) by blast
  obtain v' t' where "stream_file_to_socket su n w a = (True, v', t')" "sk_tx t' = sk_tx a @ c"
    using stream_complete [OF assms(2-5), of a] only_writes_contracts [OF a(3)] assms(8,9) by metis
  with a assms(1,6,7,10,11) show ?thesis by (simp add: dispatch_def send_file_def Let_def meta_wire_def)
qed

theorem download_size_from_index_witness:
  "let w = (sample_world home_nodes)\<lparr>w_index := add_file [] (user_dir ''bob'') ''a'' 5 ''noon''\<rparr>;
       (r, su, v, t) = dispatch (make_request DOWNLOAD 0 1 3) ''bob'' ''a'' [] ''bob'' w (prompt_socket [])
   in sk_tx t = header_wire ((make_response 3 OK 0 0)\<lparr>payload_length := 5\<rparr>) @ ''xyz''"
proof -
  let ?w = "(sample_world home_nodes)\<lparr>w_index := add_file [] (user_dir ''bob'') ''a'' 5 ''noon''\<rparr>"
  let ?d = "dispatch (make_request DOWNLOAD 0 1 3) ''bob'' ''a'' [] ''bob'' ?w (prompt_socket [])"
  have "fm_get_file_size ''bob'' ''a'' ?w = 5"
    by (simp add: fm_get_file_size_def file_exists_look get_file_size_look idx_look_add_file)
  moreover have "command (make_request DOWNLOAD 0 1 3) = 3" "lockable ?w (file_path ''bob'' ''a'')"
    by (simp_all add: make_request_def lockable_def sample_world_def)
  ultimately show ?thesis
    using download_size_from_index [of "''bob''" "''a''" ?w "''xyz''" 5 "prompt_socket []" "make_request DOWNLOAD 0 1 3" "''bob''" "[]"]
    by (cases ?d rule: prod_cases4) (simp add: to_command_def)
qed

text \<open>A LIST request is answered with one line per file of the user, each file once, and for
  every name in N the listing tells the truth: the name is listed exactly when the file is
  stored, with the length of its content.\<close>

theorem listing_tells_store:
  assumes "serving N (Suc m) w" and "request_ok N su (Req LIST u n b)" and "su \<noteq> []" and "wire_ok s"
    and "sk_rx s = request_wire (Req LIST u n b) @ rest" and "length (list_files su w) < 2 ^ 31"
    and "serve_request su w s = (r, su', v, t)"
  shows "r = Again \<and> su' = su \<and> sk_rx t = rest \<and> store_of N v = store_of N w
    \<and> sk_tx t = sk_tx s @ response_wire 4 (OK, list_files su w) \<and> listing_of N su (store_of N w) (list_files su w)"
proof -
  have "meets N m w s rest (Req LIST u n b) (spec_reply (list_files su w) (Req LIST u n b) su (store_of N w)) (serve_request su w s)"
    using assms by (intro serve_request_meets) simp_all
  with assms(3,7) list_files_true [OF assms(1)] show ?thesis by (simp add: meets_def)
qed

theorem listing_tells_store_witness:
  "let s = prompt_socket (request_wire (Req LIST [] [] []));
       (r, su, v, t) = serve_request ''bob'' demo_world s
   in r = Again \<and> sk_rx t = [] \<and> (\<exists>msg. sk_tx t = response_wire 4 (OK, msg))"
proof -
  let ?s = "prompt_socket (request_wire (Req LIST [] [] []))"
  have serving: "serving bob_names (Suc 8) demo_world" using demo_serving by simp
  have ok: "request_ok bob_names ''bob'' (Req LIST [] [] [])" by (simp add: request_ok_def request_fits_def)
  from demo_short show ?thesis
    using listing_tells_store [OF serving ok, of ?s "[]"]
    by (cases "serve_request ''bob'' demo_world ?s" rule: prod_cases4) auto
qed

text \<open>A request with a command number that is no command is read to its end and answered with
  400 and the name the server gives it; the session goes on at the next request.\<close>

theorem unknown_command_answered:
  assumes "wire_ok s" and "to_command (command h) = None" and "fits_meta h u f"
    and "length b = unat (payload_length h)" and "length b < 2 ^ 31" and "\<And>k. w_alloc w k"
    and "sk_rx s = header_wire h @ u @ f @ b @ rest" and "serve_request su w s = (r, su', v, t)"
  shows "r = Again \<and> su' = su \<and> v = w \<and> sk_rx t = rest
    \<and> sk_tx t = sk_tx s @ response_wire (command h) (BAD_REQUEST, ''Unknown or unsupported command: UNKNOWN'')"
proof -
  obtain a where a: "recv_message_meta (w_alloc w) (w_be w) s = (Received (h, u, f), a)" "sk_rx a = b @ rest" "only_reads s a"
    using recv_message_meta_wire [of s h u f "b @ rest" "w_alloc w" "w_be w"] assms(1,3,6,7) by (auto simp: meta_wire_def)
  note A = only_reads_contracts [OF a(3)]
  obtain c where c: "recv_field (w_alloc w) a (payload_length h) = (Received b, c)" "sk_rx c = rest" "only_reads a c"
    using recv_field_wire [of a b rest "payload_length h" "w_alloc w"] A assms(1,4,5,6) a(2) by auto
  note C = only_reads_contracts [OF c(3)]
  let ?msg = "''Unknown or unsupported command: UNKNOWN''"
  obtain e where e: "send_response (w_be w) c (command h) BAD_REQUEST ?msg = (True, e)"
      "sk_tx e = sk_tx c @ response_wire (command h) (BAD_REQUEST, ?msg)" "only_writes c e"
    by (rule send_response_wire [of c ?msg "w_be w" "command h" BAD_REQUEST]) (use A C assms(1) in simp_all)
  have "serve_request su w s = (Again, su, w, e)"
    using a(1) c(1) e(1) assms(2)
    by (simp add: serve_request_def dispatch_def Let_def command_to_string_def respond_def)
  with assms(8) e A C c(2) only_writes_contracts(5) [OF e(3)] show ?thesis by simp
qed

theorem unknown_command_answered_witness:
  "let h = (make_request QUIT 2 0 0)\<lparr>command := 99\<rparr>;
       (r, su, v, t) = serve_request [] demo_world (trickle_socket (header_wire h @ ''xyz''))
   in r = Again \<and> sk_rx t = ''z''"
proof -
  let ?h = "(make_request QUIT 2 0 0)\<lparr>command := 99\<rparr>"
  have "fits_meta ?h [] []" by (simp add: fits_meta_def make_request_def)
  moreover have "w_alloc demo_world k" for k by (simp add: demo_world_def)
  moreover have "to_command (command ?h) = None" by (simp add: to_command_def)
  ultimately show ?thesis
    using unknown_command_answered [of "trickle_socket (header_wire ?h @ ''xyz'')" ?h "[]" "[]" "''xy''" demo_world "''z''" "[]"]
    by (cases "serve_request [] demo_world (trickle_socket (header_wire ?h @ ''xyz''))" rule: prod_cases4)
      (simp add: make_request_def)
qed

section \<open>How long a session lasts\<close>

lemma session_loop_bounded:
  assumes "\<And>j. k \<le> j \<Longrightarrow> j \<le> k + length (sk_rx s) div 32 \<Longrightarrow> running j = running' j"
  shows "session_loop running k su w s = session_loop running' k su w s"
  using assms
proof (induction running k su w s rule: session_loop.induct)
  case (1 running k su w s)
  obtain r su1 w1 s1 where turn: "serve_request su w s = (r, su1, w1, s1)" by (metis prod_cases4)
  have now: "running k = running' k" using "1.prems" by simp
  have "session_loop running (Suc k) su1 w1 s1 = session_loop running' (Suc k) su1 w1 s1" if "running k" "r = Again"
  proof -
    have "Suc (length (sk_rx s1) div 32) \<le> length (sk_rx s) div 32"
      using serve_request_shrinks(2) [OF turn that(2)] by (simp add: div_le_mono flip: div_add_self1)
    then show ?thesis using "1.IH" [OF that(1) turn [symmetric]] that(2) "1.prems" by simp
  qed
  then show ?case
    using turn now session_loop.simps [of running k su w s] session_loop.simps [of running' k su w s]
    by (cases r) simp_all
qed

text \<open>A session ends. Whatever arrives on a connection that carries n bytes, broken requests
  included, \<open>handle_client\<close> returns after at most n/32 + 1 turns: it reads \<open>running_\<close> no later than that,
  so what the flag becomes afterwards makes no difference.\<close>

theorem session_turns_bounded:
  assumes "\<And>j. j \<le> length (sk_rx s) div 32 \<Longrightarrow> running j = running' j"
  shows "handle_client running w active s = handle_client running' w active s"
  using session_loop_bounded [of 0 s running running' "[]" w] assms by (simp add: handle_client_def)

theorem session_turns_bounded_witness:
  "handle_client (\<lambda>j. True) demo_world 3 (trickle_socket (request_wire (Req LIST [] [] [])))
     = handle_client (\<lambda>j. j < 2) demo_world 3 (trickle_socket (request_wire (Req LIST [] [] [])))"
proof (rule session_turns_bounded)
  fix j
  assume j: "j \<le> length (sk_rx (trickle_socket (request_wire (Req LIST [] [] [])))) div 32"
  have "length (request_wire (Req LIST [] [] [])) = 32" by (simp add: request_wire_def meta_wire_def)
  with j show "True = (j < 2)" by simp
qed

end
