(* ===== verification/Client.thy ===== *)
theory Client
  imports Server_Spec
begin

text \<open>
  src/src/client/client.cpp: the client's connection and its operations, with the text it shows
  to its user, and what they put on the wire. Messages on the error stream are left out.
\<close>

section \<open>State\<close>

text \<open>
  \<open>socket_\<close> is \<open>INVALID_SOCKET\<close> or an open socket. \<open>c_closed\<close> keeps the sockets that were
  closed, so that what was sent on them can be spoken of; \<open>c_shown\<close> is what went to \<open>std::cout\<close>.
\<close>

record client =
  c_host :: bytes
  c_port :: u16
  c_socket :: "socket option"
  c_username :: bytes
  c_fs :: filesys
  c_shown :: bytes
  c_closed :: "socket list"
  c_alloc :: "nat \<Rightarrow> bool"
  c_be :: bool

definition new_client :: "bytes \<Rightarrow> u16 \<Rightarrow> filesys \<Rightarrow> (nat \<Rightarrow> bool) \<Rightarrow> bool \<Rightarrow> client" where
  "new_client host port f alloc be =
     \<lparr>c_host = host, c_port = port, c_socket = None, c_username = [], c_fs = f, c_shown = [],
      c_closed = [], c_alloc = alloc, c_be = be\<rparr>"

definition endl :: bytes where "endl = [CHR 0x0A]"

definition say :: "bytes \<Rightarrow> client \<Rightarrow> client" where
  "say msg c = c\<lparr>c_shown := c_shown c @ msg @ endl\<rparr>"

definition is_connected :: "client \<Rightarrow> bool" where
  "is_connected c \<longleftrightarrow> c_socket c \<noteq> None"

text \<open>A call on \<open>INVALID_SOCKET\<close> fails with \<open>WSAENOTSOCK\<close>.\<close>

definition invalid_socket :: socket where
  "invalid_socket =
     \<lparr>sk_rx = [], sk_rx_answer = (\<lambda>i n av. OS_error 10038), sk_rx_calls = 0,
      sk_tx = [], sk_tx_answer = (\<lambda>i n. OS_error 10038), sk_tx_calls = 0, sk_open = False\<rparr>"

definition sock :: "client \<Rightarrow> socket" where
  "sock c = (case c_socket c of None \<Rightarrow> invalid_socket | Some s \<Rightarrow> s)"

definition put_sock :: "socket \<Rightarrow> client \<Rightarrow> client" where
  "put_sock s c = (case c_socket c of None \<Rightarrow> c | Some _ \<Rightarrow> c\<lparr>c_socket := Some s\<rparr>)"

definition put_fs :: "filesys \<Rightarrow> client \<Rightarrow> client" where
  "put_fs f c = c\<lparr>c_fs := f\<rparr>"

section \<open>The connection\<close>

text \<open>What \<open>getaddrinfo\<close>, \<open>socket\<close> and \<open>connect\<close> answer is the environment's choice.\<close>

datatype connect_answer = Unresolved int | No_Socket int | Refused int | Connected_To socket

definition connect_to_server :: "connect_answer \<Rightarrow> client \<Rightarrow> bool \<times> client" where
  "connect_to_server answer c =
     (case answer of
        Unresolved e \<Rightarrow> (False, c)
      | No_Socket e \<Rightarrow> (False, c\<lparr>c_socket := None\<rparr>)
      | Refused e \<Rightarrow> (False, c\<lparr>c_socket := None\<rparr>)
      | Connected_To s \<Rightarrow>
          (True, say (''[Client] Connected to '' @ c_host c @ '':'' @ to_string (unat (c_port c)))
                   (c\<lparr>c_socket := Some s\<rparr>)))"

definition disconnect :: "client \<Rightarrow> client" where
  "disconnect c =
     (case c_socket c of
        None \<Rightarrow> c
      | Some s \<Rightarrow> say ''[Client] Disconnected''
                   (c\<lparr>c_socket := None, c_username := [], c_closed := c_closed c @ [closesocket s]\<rparr>))"

section \<open>Commands that are one message and one response\<close>

definition receive_response :: "client \<Rightarrow> bool result \<times> client" where
  "receive_response c =
     (case recv_message (c_alloc c) (c_be c) (sock c) of
        (Lost, s) \<Rightarrow> (Value False, disconnect (put_sock s c))
      | (Thrown, s) \<Rightarrow> (Raised, put_sock s c)
      | (Received (resp_hdr, resp_user, resp_filename, resp_payload), s) \<Rightarrow>
          (Value (status resp_hdr = status_code OK \<or> status resp_hdr = status_code CREATED),
           say (''[Server '' @ status_to_string (status resp_hdr) @ ''] '' @ resp_payload) (put_sock s c)))"

text \<open>The callers pass enumerators only, so the number \<open>cmd\<close> is kept as the command it stands for.\<close>

definition send_command :: "CommandType \<Rightarrow> bytes \<Rightarrow> bytes option \<Rightarrow> nat \<Rightarrow> client \<Rightarrow> bool result \<times> client" where
  "send_command cmd filename payload payload_size c =
     (let hdr = make_request cmd (word_of_nat payload_size) (word_of_nat (length filename))
                  (word_of_nat (length (c_username c)))
      in case send_message (c_be c) (sock c) hdr (c_username c) filename payload payload_size of
           (False, s) \<Rightarrow> (Value False, disconnect (put_sock s c))
         | (True, s) \<Rightarrow> receive_response (put_sock s c))"

definition login :: "bytes \<Rightarrow> client \<Rightarrow> bool result \<times> client" where
  "login username c =
     (if \<not> is_connected c then (Value False, c)
      else send_command LOGIN [] None 0 (c\<lparr>c_username := username\<rparr>))"

definition client_list_files :: "client \<Rightarrow> bool result \<times> client" where
  "client_list_files c =
     (if \<not> is_connected c then (Value False, c) else send_command LIST [] None 0 c)"

definition client_delete_file :: "bytes \<Rightarrow> client \<Rightarrow> bool result \<times> client" where
  "client_delete_file filename c =
     (if \<not> is_connected c then (Value False, c) else send_command DELETE_F filename None 0 c)"

definition client_rename_file :: "bytes \<Rightarrow> bytes \<Rightarrow> client \<Rightarrow> bool result \<times> client" where
  "client_rename_file old_name new_name c =
     (if \<not> is_connected c then (Value False, c)
      else send_command RENAME old_name (Some new_name) (length new_name) c)"

text \<open>\<open>quit\<close> ignores what the response says; it does not ask whether there is a connection.\<close>

definition quit :: "client \<Rightarrow> bool result \<times> client" where
  "quit c =
     (case send_message (c_be c) (sock c) (make_request QUIT 0 0 0) [] [] None 0 of
        (False, s) \<Rightarrow> (Value False, disconnect (put_sock s c))
      | (True, s) \<Rightarrow>
          (case receive_response (put_sock s c) of
             (Raised, c) \<Rightarrow> (Raised, c)
           | (Value _, c) \<Rightarrow> (Value True, disconnect c)))"

section \<open>Uploading\<close>

text \<open>Queries of \<open>std::filesystem\<close> that only the client uses.\<close>

definition fs_is_regular :: "filesys \<Rightarrow> bytes \<Rightarrow> bool result \<times> filesys" where
  "fs_is_regular f p =
     (let (bad, f) = fs_tick f
      in if bad then (Raised, f) else (Value (case fs_find f p of Some (File c) \<Rightarrow> True | _ \<Rightarrow> False), f))"

definition fs_file_size :: "filesys \<Rightarrow> bytes \<Rightarrow> u64 result \<times> filesys" where
  "fs_file_size f p =
     (let (bad, f) = fs_tick f
      in if bad then (Raised, f)
         else (case fs_find f p of Some (File c) \<Rightarrow> (Value (word_of_nat (length c)), f) | _ \<Rightarrow> (Raised, f)))"

definition path_filename :: "bytes \<Rightarrow> bytes" where
  "path_filename p = rev (takeWhile (\<lambda>c. \<not> is_sep c) (rev (after_root p)))"

text \<open>\<open>!exists(p) || !is_regular_file(p)\<close>, the second call only when the first finds something.\<close>

definition no_such_file :: "filesys \<Rightarrow> bytes \<Rightarrow> bool result \<times> filesys" where
  "no_such_file f p =
     (case fs_exists f p of
        (Raised, f) \<Rightarrow> (Raised, f)
      | (Value False, f) \<Rightarrow> (Value True, f)
      | (Value True, f) \<Rightarrow>
          (case fs_is_regular f p of (Raised, f) \<Rightarrow> (Raised, f) | (Value r, f) \<Rightarrow> (Value (\<not> r), f)))"

text \<open>The transfer loop: False when sending failed. A read that gives nothing ends it.\<close>

function upload_loop :: "bytes \<Rightarrow> nat \<Rightarrow> nat \<Rightarrow> filesys \<Rightarrow> socket \<Rightarrow> bool \<times> filesys \<times> socket" where
  "upload_loop infile bytes_sent file_size f s =
     (if bytes_sent < file_size then
        (case ifstream_read f infile TRANSFER_BUFFER_SIZE of
           (buffer, infile', good, f) \<Rightarrow>
             if 0 < length buffer then
               (case send_all s buffer (length buffer) of
                  (False, s) \<Rightarrow> (False, f, s)
                | (True, s) \<Rightarrow> upload_loop infile' (bytes_sent + length buffer) file_size f s)
             else (True, f, s))
      else (True, f, s))"
  by pat_completeness auto
termination
  by (relation "measure (\<lambda>(c, b, n, f, s). n - b)") (auto intro!: diff_less_mono2)

declare upload_loop.simps [simp del]

definition upload_open_file :: "bytes \<Rightarrow> u64 \<Rightarrow> bytes \<Rightarrow> client \<Rightarrow> bool result \<times> client" where
  "upload_open_file filename file_size infile c =
     (let hdr = make_request UPLOAD file_size (word_of_nat (length filename)) (word_of_nat (length (c_username c)));
          c = say (''[Client] Uploading '' @ filename @ '' ('' @ to_string (unat file_size) @ '' bytes)...'') c
      in case send_message_meta (c_be c) (sock c) hdr (c_username c) filename of
           (False, s) \<Rightarrow> (Value False, disconnect (put_sock s c))
         | (True, s) \<Rightarrow>
             (case upload_loop infile 0 (unat file_size) (c_fs c) s of
                (False, f, s) \<Rightarrow> (Value False, disconnect (put_sock s (put_fs f c)))
              | (True, f, s) \<Rightarrow> receive_response (put_sock s (put_fs f c))))"

definition upload_file :: "bytes \<Rightarrow> client \<Rightarrow> bool result \<times> client" where
  "upload_file filepath c =
     (if \<not> is_connected c then (Value False, c)
      else if c_username c = [] then (Value False, c)
      else
        (case no_such_file (c_fs c) filepath of
           (Raised, f) \<Rightarrow> (Raised, put_fs f c)
         | (Value True, f) \<Rightarrow> (Value False, put_fs f c)
         | (Value False, f) \<Rightarrow>
        (case fs_file_size f filepath of
           (Raised, f) \<Rightarrow> (Raised, put_fs f c)
         | (Value file_size, f) \<Rightarrow>
        (case ifstream_open f filepath of
           (None, f) \<Rightarrow> (Value False, put_fs f c)
         | (Some infile, f) \<Rightarrow>
             upload_open_file (path_filename filepath) file_size infile (put_fs f c)))))"

section \<open>Downloading\<close>

text \<open>What \<open>download_file\<close> does with a response that is not OK. A failed read is not reported.\<close>

definition download_refused :: "MessageHeader \<Rightarrow> client \<Rightarrow> bool result \<times> client" where
  "download_refused resp_hdr c =
     (if 0 < payload_length resp_hdr then
        (if \<not> c_alloc c (unat (payload_length resp_hdr)) then (Raised, c)
         else
           (case recv_all (sock c) (unat (payload_length resp_hdr)) of
              (None, s) \<Rightarrow> (Value False, put_sock s c)
            | (Some err_str, s) \<Rightarrow>
                (Value False, say (''[Server '' @ status_to_string (status resp_hdr) @ ''] '' @ err_str) (put_sock s c))))
      else (Value False, say (''[Server '' @ status_to_string (status resp_hdr) @ '']'') c))"

text \<open>The loop that reads the payload away when the local file cannot be written.\<close>

function drain :: "nat \<Rightarrow> socket \<Rightarrow> bool \<times> socket" where
  "drain bytes_remaining s =
     (if 0 < bytes_remaining then
        (let chunk_size = min TRANSFER_BUFFER_SIZE bytes_remaining
         in case recv_all s chunk_size of
              (None, s) \<Rightarrow> (False, s)
            | (Some _, s) \<Rightarrow> drain (bytes_remaining - chunk_size) s)
      else (True, s))"
  by pat_completeness auto
termination
  by (relation "measure fst") (auto simp: TRANSFER_BUFFER_SIZE_def)

declare drain.simps [simp del]

definition dl_path :: "bytes \<Rightarrow> bytes" where
  "dl_path filename = path_append ''downloads'' filename"

text \<open>
  The receive loop is the one of the server's \<open>save_file\<close>, statement by statement, and is
  modelled by the same function.
\<close>

definition download_open_file :: "bytes \<Rightarrow> nat \<Rightarrow> ofstream \<Rightarrow> client \<Rightarrow> bool result \<times> client" where
  "download_open_file filename n outfile c =
     (case save_loop outfile n (c_fs c) (sock c) of
        (False, f, s) \<Rightarrow>
          (case fs_remove f (dl_path filename) of
             (Raised, f) \<Rightarrow> (Raised, put_sock s (put_fs f c))
           | (Value _, f) \<Rightarrow> (Value False, disconnect (put_sock s (put_fs f c))))
      | (True, f, s) \<Rightarrow>
          (Value True, say (''[Client] Download complete: '' @ dl_path filename) (put_sock s (put_fs f c))))"

definition download_body :: "bytes \<Rightarrow> MessageHeader \<Rightarrow> client \<Rightarrow> bool result \<times> client" where
  "download_body filename resp_hdr c =
     (let c = say (''[Client] Downloading '' @ filename @ '' ('' @ to_string (unat (payload_length resp_hdr)) @ '' bytes)...'') c
      in case fs_exists (c_fs c) ''downloads'' of
           (Raised, f) \<Rightarrow> (Raised, put_fs f c)
         | (Value there, f) \<Rightarrow>
        (case (if there then (Value (), f) else fs_create_directories f ''downloads'') of
           (Raised, f) \<Rightarrow> (Raised, put_fs f c)
         | (Value _, f) \<Rightarrow>
        (case ofstream_open f (dl_path filename) of
           (None, f) \<Rightarrow>
             (case drain (unat (payload_length resp_hdr)) (sock c) of
                (False, s) \<Rightarrow> (Value False, disconnect (put_sock s (put_fs f c)))
              | (True, s) \<Rightarrow> (Value False, put_sock s (put_fs f c)))
         | (Some outfile, f) \<Rightarrow>
             download_open_file filename (unat (payload_length resp_hdr)) outfile (put_fs f c))))"

definition download_file :: "bytes \<Rightarrow> client \<Rightarrow> bool result \<times> client" where
  "download_file filename c =
     (if \<not> is_connected c then (Value False, c)
      else if c_username c = [] then (Value False, c)
      else
        (let hdr = make_request DOWNLOAD 0 (word_of_nat (length filename)) (word_of_nat (length (c_username c)))
         in case send_message_meta (c_be c) (sock c) hdr (c_username c) filename of
              (False, s) \<Rightarrow> (Value False, disconnect (put_sock s c))
            | (True, s) \<Rightarrow>
           (case recv_message_meta (c_alloc c) (c_be c) s of
              (Lost, s) \<Rightarrow> (Value False, disconnect (put_sock s c))
            | (Thrown, s) \<Rightarrow> (Raised, put_sock s c)
            | (Received (resp_hdr, resp_user, resp_filename), s) \<Rightarrow>
                if status resp_hdr \<noteq> status_code OK then download_refused resp_hdr (put_sock s c)
                else download_body filename resp_hdr (put_sock s c))))"

end
