(* ===== verification/Client_Spec.thy ===== *)
theory Client_Spec
  imports Client
begin

text \<open>
  What the client of src/src/client/client.cpp promises: each operation sends one request of
  theory \<open>Server_Spec\<close>, takes exactly the response off the stream, and tells its user whether
  the server accepted.
\<close>

section \<open>Bookkeeping\<close>

lemmas client_defs = say_def put_sock_def put_fs_def sock_def is_connected_def

lemma say_simps [simp]:
  "c_socket (say m c) = c_socket c" "c_username (say m c) = c_username c" "c_fs (say m c) = c_fs c"
  "c_closed (say m c) = c_closed c" "c_alloc (say m c) = c_alloc c" "c_be (say m c) = c_be c"
  "c_shown (say m c) = c_shown c @ m @ endl" "sock (say m c) = sock c"
  by (simp_all add: client_defs)

lemma put_fs_simps [simp]:
  "c_socket (put_fs f c) = c_socket c" "c_username (put_fs f c) = c_username c" "c_fs (put_fs f c) = f"
  "c_closed (put_fs f c) = c_closed c" "c_alloc (put_fs f c) = c_alloc c" "c_be (put_fs f c) = c_be c"
  "c_shown (put_fs f c) = c_shown c" "sock (put_fs f c) = sock c"
  by (simp_all add: client_defs)

lemma put_sock_simps [simp]:
  "c_username (put_sock s c) = c_username c" "c_fs (put_sock s c) = c_fs c"
  "c_closed (put_sock s c) = c_closed c" "c_alloc (put_sock s c) = c_alloc c" "c_be (put_sock s c) = c_be c"
  "c_shown (put_sock s c) = c_shown c" "c_socket c = Some t \<Longrightarrow> c_socket (put_sock s c) = Some s"
  "c_socket c = Some t \<Longrightarrow> sock (put_sock s c) = s" "c_socket c = None \<Longrightarrow> put_sock s c = c"
  by (simp_all add: client_defs split: option.split)

lemma disconnect_simps [simp]:
  "c_socket (disconnect c) = None" "c_fs (disconnect c) = c_fs c"
  "c_socket c = Some s \<Longrightarrow> c_closed (disconnect c) = c_closed c @ [closesocket s]"
  "c_socket c = Some s \<Longrightarrow> c_username (disconnect c) = []"
  by (simp_all add: disconnect_def split: option.split)

lemma connected_sock [simp]: "c_socket c = Some s \<Longrightarrow> sock c = s"
  by (simp add: sock_def)

section \<open>Responses\<close>

text \<open>The line a response shows, and whether it counts as success.\<close>

definition response_line :: "StatusCode \<times> bytes \<Rightarrow> bytes" where
  "response_line = (\<lambda>(st, msg). ''[Server '' @ status_to_string (status_code st) @ ''] '' @ msg)"

definition accepted :: "StatusCode \<times> bytes \<Rightarrow> bool" where
  "accepted reply \<longleftrightarrow> fst reply = OK \<or> fst reply = CREATED"

lemma status_of_accepted [simp]:
  "(status_code st = 200 \<or> status_code st = 201) = accepted (st, msg)"
  by (cases st) (simp_all add: accepted_def)

lemma receive_response_wire:
  assumes "c_socket c = Some s" and "recv_contract s" and "recv_reliable s" and "\<And>n. c_alloc c n"
    and "sk_rx s = response_wire cmd reply @ rest" and "length (snd reply) < 2 ^ 31"
  obtains t where "receive_response c = (Value (accepted reply), say (response_line reply) (put_sock t c))"
    and "sk_rx t = rest" and "only_reads s t"
proof -
  obtain st msg where reply: "reply = (st, msg)" by fastforce
  let ?h = "response_header cmd st (length msg)"
  have "fits_meta ?h [] []" "length msg = unat (payload_length ?h)"
    using assms(6) by (simp_all add: fits_meta_def response_header_def make_response_def unat_of_nat reply)
  moreover have "sk_rx s = meta_wire ?h [] [] @ msg @ rest"
    using assms(5) by (simp add: response_wire_def meta_wire_def reply)
  ultimately obtain t where t: "recv_message (c_alloc c) (c_be c) s = (Received (?h, [], [], msg), t)"
      "sk_rx t = rest" "only_reads s t"
    using recv_message_wire [OF assms(2,3), of ?h "[]" "[]" msg rest "c_alloc c" "c_be c"] assms(4,6) reply by auto
  have "status ?h = status_code st" by (simp add: response_header_def make_response_def)
  with t assms(1) show thesis
    by (intro that [of t]) (simp_all add: receive_response_def reply response_line_def)
qed

section \<open>Requests\<close>

lemma request_meta:
  assumes "request_fits r"
  shows "fits_meta (request_header r) (rq_user r) (rq_file r)"
  using assms by (auto simp: fits_meta_def request_header_def make_request_def request_fits_def unat_of_nat)

text \<open>A command with a payload, or without one.\<close>

lemma send_message_request:
  assumes "send_contract s" and "send_reliable s" and "request_fits r" and "rq_command r \<noteq> UPLOAD"
    and "p = Some (rq_body r) \<or> p = None \<and> rq_body r = []"
  obtains t where "send_message be s (request_header r) (rq_user r) (rq_file r) p (length (rq_body r)) = (True, t)"
    and "sk_tx t = sk_tx s @ request_wire r" and "only_writes s t"
proof -
  note fits = request_meta [OF assms(3)]
  show thesis
  proof (cases p)
    case None
    obtain t where "send_message_meta be s (request_header r) (rq_user r) (rq_file r) = (True, t)"
        "sk_tx t = sk_tx s @ meta_wire (request_header r) (rq_user r) (rq_file r)" "only_writes s t"
      using send_message_meta_wire [OF assms(1,2) fits] .
    with None assms(5) show thesis by (intro that [of t]) (simp_all add: send_message_via_meta request_wire_def)
  next
    case (Some d)
    have "length (rq_body r) = unat (payload_length (request_header r))" "length (rq_body r) < 2 ^ 31"
      using assms(3,4) payload_of_request by (simp_all add: request_fits_def)
    then show thesis
      using send_message_wire [OF assms(1,2) fits, of "rq_body r" be] Some assms(5) that
      by (auto simp: request_wire_def)
  qed
qed

lemma send_command_wire:
  assumes "c_socket c = Some s" and "wire_ok s" and "\<And>n. c_alloc c n" and "request_fits (Req cmd (c_username c) n b)"
    and "cmd \<noteq> UPLOAD" and "p = Some b \<or> p = None \<and> b = []"
    and "sk_rx s = response_wire k reply @ rest" and "length (snd reply) < 2 ^ 31"
  obtains t where "send_command cmd n p (length b) c = (Value (accepted reply), say (response_line reply) (put_sock t c))"
    and "sk_tx t = sk_tx s @ request_wire (Req cmd (c_username c) n b)" and "sk_rx t = rest" and "wire_ok t"
proof -
  let ?r = "Req cmd (c_username c) n b"
  obtain a where a: "send_message (c_be c) s (request_header ?r) (c_username c) n p (length b) = (True, a)"
      "sk_tx a = sk_tx s @ request_wire ?r" "only_writes s a"
    using send_message_request [of s ?r p "c_be c"] assms(2,4-6) by auto
  note A = only_writes_contracts [OF a(3)]
  obtain t where t: "receive_response (put_sock a c) = (Value (accepted reply), say (response_line reply) (put_sock t (put_sock a c)))"
      "sk_rx t = rest" "only_reads a t"
    using receive_response_wire [of "put_sock a c" a k reply rest] assms(1-3,7,8) A by auto
  have "put_sock t (put_sock a c) = put_sock t c" using assms(1) by (simp add: put_sock_def)
  with a t A only_reads_contracts [OF t(3)] assms(1,2) show thesis
    by (intro that [of t]) (simp_all add: send_command_def request_header_def Let_def)
qed

section \<open>Uploads\<close>

lemma upload_loop_complete:
  "send_contract s \<Longrightarrow> send_reliable s \<Longrightarrow> healthy f \<Longrightarrow>
   \<exists>g t. upload_loop infile k (k + length infile) f s = (True, g, t) \<and> sk_tx t = sk_tx s @ infile
     \<and> only_writes s t \<and> fs_env g = fs_env f \<and> fs_at g = fs_at f"
proof (induction "length infile" arbitrary: infile k f s rule: less_induct)
  case less
  show ?case
  proof (cases "infile = []")
    case True
    then show ?thesis by (subst upload_loop.simps) simp
  next
    case False
    let ?b = "take TRANSFER_BUFFER_SIZE infile" and ?i = "drop TRANSFER_BUFFER_SIZE infile"
    let ?f = "f\<lparr>fs_calls := Suc (fs_calls f)\<rparr>"
    have read: "ifstream_read f infile TRANSFER_BUFFER_SIZE = (?b, ?i, TRANSFER_BUFFER_SIZE \<le> length infile, ?f)"
      using less.prems(3) by (simp add: ifstream_read_def)
    have "length ?b < 2 ^ 31" using TRANSFER_BUFFER_SIZE_int by simp
    then obtain a where a: "send_all s ?b (length ?b) = (True, a)" "sk_tx a = sk_tx s @ ?b" "only_writes s a"
      using send_all_complete [OF less.prems(1,2)] by blast
    note A = only_writes_contracts [OF a(3)]
    have shorter: "length ?i < length infile" using False TRANSFER_BUFFER_SIZE_pos by simp
    obtain g t where t: "upload_loop ?i (k + length ?b) (k + length ?b + length ?i) ?f a = (True, g, t)"
        "sk_tx t = sk_tx a @ ?i" "only_writes a t" "fs_env g = fs_env ?f" "fs_at g = fs_at ?f"
      using less.hyps [OF shorter, of a ?f "k + length ?b"] less.prems A by auto
    have sum: "k + length ?b + length ?i = k + length infile"
      by (metis add.assoc append_take_drop_id length_append)
    have "?b \<noteq> []" using False TRANSFER_BUFFER_SIZE_pos by simp
    then have "upload_loop infile k (k + length infile) f s = (True, g, t)"
      using False read a(1) t(1) [unfolded sum]
      by (subst upload_loop.simps) (simp del: length_take length_drop take_eq_Nil take_eq_Nil2)
    with t a show ?thesis by (auto intro: only_writes_trans)
  qed
qed

text \<open>The file opened and the header sent; what follows is the transfer loop.\<close>

definition upload_rest :: "bytes \<Rightarrow> client \<Rightarrow> bool \<times> filesys \<times> socket \<Rightarrow> bool result \<times> client" where
  "upload_rest told c = (\<lambda>(ok, f, s). let e = put_sock s (put_fs f (say told c))
     in if ok then receive_response e else (Value False, disconnect e))"

lemma upload_file_opened:
  assumes "c_socket c = Some s" and "send_contract s" and "send_reliable s" and "c_username c \<noteq> []"
    and "\<And>j. j < 4 \<Longrightarrow> \<not> fs_fault (c_fs c) (fs_calls (c_fs c) + j)" and "fs_find (c_fs c) p = Some (File d)"
    and "request_fits (Req UPLOAD (c_username c) (path_filename p) d)"
  obtains a told where "upload_file p c = upload_rest told c
      (upload_loop d 0 (length d) ((c_fs c)\<lparr>fs_calls := Suc (Suc (Suc (Suc (fs_calls (c_fs c)))))\<rparr>) a)"
    and "sk_tx a = sk_tx s @ meta_wire (request_header (Req UPLOAD (c_username c) (path_filename p) d)) (c_username c) (path_filename p)"
    and "only_writes s a"
proof -
  let ?r = "Req UPLOAD (c_username c) (path_filename p) d" and ?sz = "word_of_nat (length d) :: u64"
  let ?f = "(c_fs c)\<lparr>fs_calls := Suc (Suc (Suc (Suc (fs_calls (c_fs c)))))\<rparr>"
  let ?c = "put_fs ?f c"
  let ?told = "''[Client] Uploading '' @ path_filename p @ '' ('' @ to_string (unat ?sz) @ '' bytes)...''"
  have sz: "unat ?sz = length d" using payload_of_request [OF assms(7)] by (simp add: request_header_def make_request_def)
  have works: "\<not> fs_fault (c_fs c) (fs_calls (c_fs c))" "\<not> fs_fault (c_fs c) (Suc (fs_calls (c_fs c)))"
      "\<not> fs_fault (c_fs c) (Suc (Suc (fs_calls (c_fs c))))" "\<not> fs_fault (c_fs c) (Suc (Suc (Suc (fs_calls (c_fs c)))))"
    using assms(5) [of 0] assms(5) [of 1] assms(5) [of 2] assms(5) [of 3] by (simp_all add: eval_nat_numeral)
  have open_file: "upload_file p c = upload_open_file (path_filename p) ?sz d ?c"
    using assms(1,4,6) works
    by (simp add: upload_file_def is_connected_def no_such_file_def fs_exists_def fs_is_regular_def fs_file_size_def
        ifstream_open_def fs_tick_def Let_def)
  have fits: "fits_meta (request_header ?r) (c_username c) (path_filename p)" using request_meta [OF assms(7)] by simp
  obtain a where a: "send_message_meta (c_be c) s (request_header ?r) (c_username c) (path_filename p) = (True, a)"
      "sk_tx a = sk_tx s @ meta_wire (request_header ?r) (c_username c) (path_filename p)" "only_writes s a"
    using send_message_meta_wire [OF assms(2,3) fits] by blast
  have same: "put_fs f (say ?told ?c) = put_fs f (say ?told c)" for f by (simp add: put_fs_def say_def)
  have "upload_file p c = upload_rest ?told c (upload_loop d 0 (length d) ?f a)"
    using open_file a(1) assms(1) sz same
    by (simp add: upload_open_file_def upload_rest_def Let_def request_header_def split: prod.split bool.split)
  with a(2,3) show thesis by (intro that)
qed

text \<open>An upload up to the point where its response is awaited.\<close>

lemma upload_file_sent:
  assumes "c_socket c = Some s" and "send_contract s" and "send_reliable s" and "c_username c \<noteq> []"
    and "healthy (c_fs c)" and "fs_find (c_fs c) p = Some (File d)"
    and "request_fits (Req UPLOAD (c_username c) (path_filename p) d)"
  obtains e told b where "upload_file p c = receive_response e"
    and "c_socket e = Some b" and "sk_tx b = sk_tx s @ request_wire (Req UPLOAD (c_username c) (path_filename p) d)"
    and "only_writes s b" and "c_username e = c_username c" and "c_alloc e = c_alloc c" and "c_closed e = c_closed c"
    and "fs_env (c_fs e) = fs_env (c_fs c)" and "fs_at (c_fs e) = fs_at (c_fs c)"
    and "c_shown e = c_shown c @ told"
proof -
  let ?f = "(c_fs c)\<lparr>fs_calls := Suc (Suc (Suc (Suc (fs_calls (c_fs c)))))\<rparr>"
  have works: "\<And>j. j < 4 \<Longrightarrow> \<not> fs_fault (c_fs c) (fs_calls (c_fs c) + j)" using assms(5) by (simp add: healthy_def)
  obtain a told where a: "upload_file p c = upload_rest told c (upload_loop d 0 (length d) ?f a)"
      "sk_tx a = sk_tx s @ meta_wire (request_header (Req UPLOAD (c_username c) (path_filename p) d)) (c_username c) (path_filename p)"
      "only_writes s a"
    by (rule upload_file_opened [OF assms(1-4) works assms(6,7)])
  note A = only_writes_contracts [OF a(3)]
  obtain g b where b: "upload_loop d 0 (0 + length d) ?f a = (True, g, b)" "sk_tx b = sk_tx a @ d"
      "only_writes a b" "fs_env g = fs_env ?f" "fs_at g = fs_at ?f"
    using upload_loop_complete [of a ?f d 0] assms(2,3,5) A by auto
  let ?e = "put_sock b (put_fs g (say told c))"
  have "upload_file p c = receive_response ?e" using a(1) b(1) by (simp add: upload_rest_def)
  moreover have "only_writes s b" using a(3) b(3) by (rule only_writes_trans)
  ultimately show thesis using a b assms(1) by (intro that [of ?e b "told @ endl"]) (simp_all add: request_wire_def)
qed

text \<open>When the k-th read fails the loop ends as if the file were at its end.\<close>

lemma upload_loop_stops:
  "send_contract s \<Longrightarrow> send_reliable s \<Longrightarrow> (\<And>j. j < k \<Longrightarrow> \<not> fs_fault f (fs_calls f + j)) \<Longrightarrow> fs_fault f (fs_calls f + k) \<Longrightarrow>
   k * TRANSFER_BUFFER_SIZE < length infile \<Longrightarrow>
   \<exists>g t. upload_loop infile m (m + length infile) f s = (True, g, t) \<and> sk_tx t = sk_tx s @ take (k * TRANSFER_BUFFER_SIZE) infile
     \<and> only_writes s t"
proof (induction k arbitrary: infile m f s)
  case 0
  then show ?case
    by (subst upload_loop.simps) (auto simp: ifstream_read_def fs_tick_def only_writes_refl)
next
  case (Suc k)
  let ?b = "take TRANSFER_BUFFER_SIZE infile" and ?i = "drop TRANSFER_BUFFER_SIZE infile"
  let ?f = "f\<lparr>fs_calls := Suc (fs_calls f)\<rparr>"
  have read: "ifstream_read f infile TRANSFER_BUFFER_SIZE = (?b, ?i, TRANSFER_BUFFER_SIZE \<le> length infile, ?f)"
    using Suc.prems(3) [of 0] by (simp add: ifstream_read_def fs_tick_def)
  have "length ?b < 2 ^ 31" using TRANSFER_BUFFER_SIZE_int by simp
  then obtain a where a: "send_all s ?b (length ?b) = (True, a)" "sk_tx a = sk_tx s @ ?b" "only_writes s a"
    using send_all_complete [OF Suc.prems(1,2)] by blast
  note A = only_writes_contracts [OF a(3)]
  have later: "\<And>j. j < k \<Longrightarrow> \<not> fs_fault ?f (fs_calls ?f + j)" "fs_fault ?f (fs_calls ?f + k)"
      "k * TRANSFER_BUFFER_SIZE < length ?i"
    using Suc.prems(3) [of "Suc _"] Suc.prems(4,5) by simp_all
  obtain g t where t: "upload_loop ?i (m + length ?b) (m + length ?b + length ?i) ?f a = (True, g, t)"
      "sk_tx t = sk_tx a @ take (k * TRANSFER_BUFFER_SIZE) ?i" "only_writes a t"
    using Suc.IH [OF _ _ later, of a "m + length ?b"] Suc.prems(1,2) A by auto
  have sum: "m + length ?b + length ?i = m + length infile"
    by (metis add.assoc append_take_drop_id length_append)
  have "infile \<noteq> []" using Suc.prems(5) by auto
  then have "?b \<noteq> []" using TRANSFER_BUFFER_SIZE_pos by simp
  then have "upload_loop infile m (m + length infile) f s = (True, g, t)"
    using \<open>infile \<noteq> []\<close> read a(1) t(1) [unfolded sum]
    by (subst upload_loop.simps) (simp del: length_take length_drop take_eq_Nil take_eq_Nil2)
  moreover have "?b @ take (k * TRANSFER_BUFFER_SIZE) ?i = take (Suc k * TRANSFER_BUFFER_SIZE) infile"
    by (simp add: take_add)
  ultimately show ?case using t a by (auto intro: only_writes_trans)
qed

lemma upload_file_wire:
  assumes "c_socket c = Some s" and "wire_ok s" and "\<And>n. c_alloc c n" and "c_username c \<noteq> []"
    and "healthy (c_fs c)" and "fs_find (c_fs c) p = Some (File d)"
    and "request_fits (Req UPLOAD (c_username c) (path_filename p) d)"
    and "sk_rx s = response_wire k reply @ rest" and "length (snd reply) < 2 ^ 31"
  obtains v t where "upload_file p c = (Value (accepted reply), v)"
    and "c_socket v = Some t" and "sk_tx t = sk_tx s @ request_wire (Req UPLOAD (c_username c) (path_filename p) d)"
    and "sk_rx t = rest" and "wire_ok t" and "c_username v = c_username c" and "c_alloc v = c_alloc c"
    and "fs_env (c_fs v) = fs_env (c_fs c)" and "fs_at (c_fs v) = fs_at (c_fs c)" and "c_closed v = c_closed c"
    and "\<exists>told. c_shown v = c_shown c @ told @ response_line reply @ endl"
proof -
  from assms(2) have wire: "send_contract s" "send_reliable s" by simp_all
  obtain e told b where e: "upload_file p c = receive_response e"
      "c_socket e = Some b" "sk_tx b = sk_tx s @ request_wire (Req UPLOAD (c_username c) (path_filename p) d)"
      "only_writes s b" "c_username e = c_username c" "c_alloc e = c_alloc c" "c_closed e = c_closed c"
      "fs_env (c_fs e) = fs_env (c_fs c)" "fs_at (c_fs e) = fs_at (c_fs c)" "c_shown e = c_shown c @ told"
    by (rule upload_file_sent [OF assms(1) wire assms(4-7)])
  note B = only_writes_contracts [OF e(4)]
  obtain t where t: "receive_response e = (Value (accepted reply), say (response_line reply) (put_sock t e))"
      "sk_rx t = rest" "only_reads b t"
    using receive_response_wire [OF e(2), of k reply rest] assms(2,3,8,9) B e(6) by auto
  with e B only_reads_contracts [OF t(3)] assms(2) show thesis
    by (intro that [of "say (response_line reply) (put_sock t e)" t]) (auto intro: exI [of _ told])
qed

section \<open>Downloads\<close>

text \<open>The local disk can take the file: no errors, and nothing in the way of the path.\<close>

definition dl_at :: "filesys \<Rightarrow> bytes \<Rightarrow> loc" where
  "dl_at f n = fs_resolve f (dl_path n)"

definition dl_dir :: "filesys \<Rightarrow> loc" where
  "dl_dir f = fs_resolve f ''downloads''"

definition can_keep :: "filesys \<Rightarrow> bytes \<Rightarrow> bool" where
  "can_keep f n \<longleftrightarrow> healthy f \<and> disk_ok f \<and> way_clear f (dl_dir f) \<and> dl_at f n \<noteq> []
     \<and> butlast (dl_at f n) = dl_dir f \<and> fs_at f (dl_at f n) \<noteq> Some Dir"

lemma downloads_there:
  assumes "healthy f" and "disk_ok f" and "way_clear f (dl_dir f)"
  obtains g where "(case fs_exists f ''downloads'' of
        (Raised, f) \<Rightarrow> (Raised, f)
      | (Value there, f) \<Rightarrow> if there then (Value (), f) else fs_create_directories f ''downloads'') = (Value (), g)"
    and "fs_env g = fs_env f" and "fs_at g = with_dirs (fs_at f) (dl_dir f)"
proof (cases "fs_find f ''downloads''")
  case None
  let ?f = "f\<lparr>fs_calls := Suc (fs_calls f)\<rparr>"
  obtain g where "fs_create_directories ?f ''downloads'' = (Value (), g)" "fs_env g = fs_env ?f"
      "fs_at g = with_dirs (fs_at f) (dl_dir f)"
    using create_directories_clear [of ?f "''downloads''"] assms by (auto simp: dl_dir_def way_clear_def)
  with None assms show thesis by (intro that [of g]) (auto simp: fs_exists_def Let_def)
next
  case (Some nd)
  then have "nd = Dir" using assms(3) by (cases nd) (auto simp: way_clear_def fs_find_def dl_dir_def)
  with Some have "with_dirs (fs_at f) (dl_dir f) = fs_at f"
    using with_dirs_present [OF assms(2)] by (simp add: fs_find_def dl_dir_def)
  with Some assms show thesis
    by (intro that [of "f\<lparr>fs_calls := Suc (fs_calls f)\<rparr>"]) (auto simp: fs_exists_def Let_def)
qed

lemma download_body_opened:
  assumes "can_keep (c_fs c) n"
  obtains g told where "fs_env g = fs_env (c_fs c)" and "healthy g"
    and "fs_at g = (with_dirs (fs_at (c_fs c)) (dl_dir (c_fs c)))(dl_at (c_fs c) n \<mapsto> File [])"
    and "download_body n h c = download_open_file n (unat (payload_length h))
           \<lparr>of_loc = dl_at (c_fs c) n, of_good = True\<rparr> (put_fs g (say told c))"
proof -
  let ?f = "c_fs c"
  from assms have f: "healthy ?f" "disk_ok ?f" "way_clear ?f (dl_dir ?f)" "dl_at ?f n \<noteq> []"
      "butlast (dl_at ?f n) = dl_dir ?f" "fs_at ?f (dl_at ?f n) \<noteq> Some Dir" by (simp_all add: can_keep_def)
  obtain g where g: "(case fs_exists ?f ''downloads'' of
        (Raised, f) \<Rightarrow> (Raised, f)
      | (Value there, f) \<Rightarrow> if there then (Value (), f) else fs_create_directories f ''downloads'') = (Value (), g)"
      "fs_env g = fs_env ?f" "fs_at g = with_dirs (fs_at ?f) (dl_dir ?f)"
    using downloads_there [OF f(1-3)] .
  have "\<not> prefix (dl_at ?f n) (dl_dir ?f)"
    using f(4,5) by (metis length_append_singleton append_butlast_last_id not_less_eq_eq prefix_length_le order_refl)
  then have place: "fs_resolve g (dl_path n) = dl_at ?f n" "fs_at g (dl_at ?f n) \<noteq> Some Dir" "fs_is_dir g (dl_dir ?f)"
    using f(6) g(2,3) by (auto simp: dl_at_def fs_env_def with_dirs_def fs_is_dir_def)
  obtain g1 where g1: "ofstream_open g (dl_path n) = (Some \<lparr>of_loc = dl_at ?f n, of_good = True\<rparr>, g1)"
      "fs_env g1 = fs_env g" "fs_at g1 = (fs_at g)(dl_at ?f n \<mapsto> File [])"
    using open_for_writing [of g "dl_path n"] healthy_env [OF g(2)] f place by auto
  have "healthy g1" using healthy_env [OF g1(2)] healthy_env [OF g(2)] f(1) by simp
  then show thesis
    using g g1
    by (intro that [of g1 "''[Client] Downloading '' @ n @ '' ('' @ to_string (unat (payload_length h)) @ '' bytes)...''"])
      (auto simp: download_body_def Let_def split: prod.splits result.splits)
qed

lemma download_file_reply:
  assumes "c_socket c = Some s" and "wire_ok s" and "\<And>n. c_alloc c n" and "c_username c \<noteq> []"
    and "request_fits (Req DOWNLOAD (c_username c) n [])"
    and "sk_rx s = header_wire (response_header k st m) @ rest"
  obtains t where "download_file n c =
      (if st \<noteq> OK then download_refused (response_header k st m) (put_sock t c)
       else download_body n (response_header k st m) (put_sock t c))"
    and "sk_tx t = sk_tx s @ request_wire (Req DOWNLOAD (c_username c) n [])" and "sk_rx t = rest" and "wire_ok t"
proof -
  let ?r = "Req DOWNLOAD (c_username c) n []" and ?h = "response_header k st m"
  have fits: "fits_meta (request_header ?r) (c_username c) n" using request_meta [OF assms(5)] by simp
  obtain a where a: "send_message_meta (c_be c) s (request_header ?r) (c_username c) n = (True, a)"
      "sk_tx a = sk_tx s @ meta_wire (request_header ?r) (c_username c) n" "only_writes s a"
    using send_message_meta_wire [OF _ _ fits, of s] assms(2) by blast
  note A = only_writes_contracts [OF a(3)]
  have h: "fits_meta ?h [] []" "sk_rx a = meta_wire ?h [] [] @ rest"
    using assms(6) A by (simp_all add: fits_meta_def response_header_def make_response_def meta_wire_def)
  obtain t where t: "recv_message_meta (c_alloc c) (c_be c) a = (Received (?h, [], []), t)" "sk_rx t = rest" "only_reads a t"
    using recv_message_meta_wire [OF _ _ h(2,1), of "c_alloc c" "c_be c"] assms(2,3) A by auto
  have "status ?h = status_code st" by (simp add: response_header_def make_response_def)
  moreover have "status_code st = 200 \<longleftrightarrow> st = OK" by (cases st) simp_all
  ultimately show thesis
    using t a A only_reads_contracts [OF t(3)] assms(1,2,4)
    by (intro that [of t])
      (simp_all add: download_file_def is_connected_def Let_def request_header_def request_wire_def)
qed

lemma unat_payload [simp]: "m < 2 ^ 64 \<Longrightarrow> unat (payload_length (response_header k st m)) = m"
  by (simp add: response_header_def make_response_def unat_of_nat)

lemma payload_zero: "m < 2 ^ 64 \<Longrightarrow> 0 < payload_length (response_header k st m) \<longleftrightarrow> 0 < m"
  by (simp add: response_header_def make_response_def word_less_nat_alt unat_of_nat)

text \<open>A file that is there: it arrives in the downloads directory, byte for byte.\<close>

lemma download_file_wire:
  assumes "c_socket c = Some s" and "wire_ok s" and "\<And>n. c_alloc c n" and "c_username c \<noteq> []"
    and "request_fits (Req DOWNLOAD (c_username c) n [])" and "can_keep (c_fs c) n"
    and "sk_rx s = response_wire k (OK, d) @ rest" and "length d < 2 ^ 64"
  obtains v t where "download_file n c = (Value True, v)"
    and "c_socket v = Some t" and "sk_tx t = sk_tx s @ request_wire (Req DOWNLOAD (c_username c) n [])"
    and "sk_rx t = rest" and "wire_ok t" and "c_username v = c_username c" and "c_alloc v = c_alloc c"
    and "fs_env (c_fs v) = fs_env (c_fs c)"
    and "fs_at (c_fs v) = (with_dirs (fs_at (c_fs c)) (dl_dir (c_fs c)))(dl_at (c_fs c) n \<mapsto> File d)"
    and "c_closed v = c_closed c"
    and "\<exists>told. c_shown v = c_shown c @ told @ (''[Client] Download complete: '' @ dl_path n) @ endl"
proof -
  have rx: "sk_rx s = header_wire (response_header k OK (length d)) @ d @ rest"
    using assms(7) by (simp add: response_wire_def)
  obtain a where a: "download_file n c = download_body n (response_header k OK (length d)) (put_sock a c)"
      "sk_tx a = sk_tx s @ request_wire (Req DOWNLOAD (c_username c) n [])" "sk_rx a = d @ rest" "wire_ok a"
    using download_file_reply [OF assms(1-5) rx] by auto
  let ?c = "put_sock a c" and ?h = "\<lparr>of_loc = dl_at (c_fs c) n, of_good = True\<rparr>"
  have fs: "c_fs ?c = c_fs c" by simp
  obtain g told where g: "fs_env g = fs_env (c_fs c)" "healthy g"
      "fs_at g = (with_dirs (fs_at (c_fs c)) (dl_dir (c_fs c)))(dl_at (c_fs c) n \<mapsto> File [])"
      "download_body n (response_header k OK (length d)) ?c
         = download_open_file n (length d) ?h (put_fs g (say told ?c))"
    using download_body_opened [of ?c n "response_header k OK (length d)"] assms(6,8) fs by auto
  obtain g2 t where t: "save_loop ?h (length d) g a = (True, g2, t)" "fs_env g2 = fs_env g"
      "fs_at g2 = (fs_at g)(dl_at (c_fs c) n \<mapsto> File (take (length d) (sk_rx a)))"
      "sk_rx t = drop (length d) (sk_rx a)" "only_reads a t"
    using save_loop_complete [OF _ _ _ g(2), of a "length d" ?h "[]"] a(3,4) g(3) by auto
  note T = only_reads_contracts [OF t(5)]
  let ?v = "say (''[Client] Download complete: '' @ dl_path n) (put_sock t (put_fs g2 (put_fs g (say told ?c))))"
  have "download_file n c = (Value True, ?v)"
    using a(1) g(4) t(1) assms(1) by (simp add: download_open_file_def)
  with a g t T assms(1) show thesis by (intro that [of ?v t]) (simp_all add: exI [of _ "told @ endl"])
qed

text \<open>A refusal: nothing on the local disk changes, and the server's text is shown.\<close>

lemma download_refused_wire:
  assumes "c_socket c = Some s" and "wire_ok s" and "\<And>n. c_alloc c n" and "c_username c \<noteq> []"
    and "request_fits (Req DOWNLOAD (c_username c) n [])" and "st \<noteq> OK"
    and "sk_rx s = response_wire k (st, msg) @ rest" and "length msg < 2 ^ 31" and "msg \<noteq> []"
  obtains t where "download_file n c = (Value False, say (response_line (st, msg)) (put_sock t c))"
    and "sk_tx t = sk_tx s @ request_wire (Req DOWNLOAD (c_username c) n [])" and "sk_rx t = rest" and "wire_ok t"
proof -
  let ?h = "response_header k st (length msg)"
  have rx: "sk_rx s = header_wire ?h @ msg @ rest" using assms(7) by (simp add: response_wire_def)
  obtain a where a: "download_file n c = download_refused ?h (put_sock a c)"
      "sk_tx a = sk_tx s @ request_wire (Req DOWNLOAD (c_username c) n [])" "sk_rx a = msg @ rest" "wire_ok a"
    using download_file_reply [OF assms(1-5) rx] assms(6) by auto
  have len: "length msg < 2 ^ 64" using assms(8) by simp
  obtain t where t: "recv_all a (length msg) = (Some msg, t)" "sk_rx t = rest" "only_reads a t"
    using recv_all_append [OF _ _ a(3) assms(8)] a(4) by blast
  have "status ?h = status_code st" by (simp add: response_header_def make_response_def)
  then have "download_refused ?h (put_sock a c) = (Value False, say (response_line (st, msg)) (put_sock t (put_sock a c)))"
    using t(1) assms(1,3,9) len by (simp add: download_refused_def payload_zero response_line_def)
  moreover have "put_sock t (put_sock a c) = put_sock t c" using assms(1) by (simp add: put_sock_def)
  ultimately show thesis using a t only_reads_contracts [OF t(3)] by (intro that [of t]) simp_all
qed

section \<open>Operations and what they exchange\<close>

text \<open>The operations of a logged-in user, and the one request each of them is on the wire.\<close>

datatype op = Op_Login bytes | Op_List | Op_Upload bytes | Op_Download bytes | Op_Delete bytes | Op_Rename bytes bytes

fun perform :: "op \<Rightarrow> client \<Rightarrow> bool result \<times> client" where
  "perform (Op_Login u) c = login u c"
| "perform Op_List c = client_list_files c"
| "perform (Op_Upload p) c = upload_file p c"
| "perform (Op_Download n) c = download_file n c"
| "perform (Op_Delete n) c = client_delete_file n c"
| "perform (Op_Rename a b) c = client_rename_file a b c"

fun op_request :: "(bytes \<Rightarrow> bytes) \<Rightarrow> bytes \<Rightarrow> op \<Rightarrow> request" where
  "op_request src u (Op_Login v) = Req LOGIN v [] []"
| "op_request src u Op_List = Req LIST u [] []"
| "op_request src u (Op_Upload p) = Req UPLOAD u (path_filename p) (src p)"
| "op_request src u (Op_Download n) = Req DOWNLOAD u n []"
| "op_request src u (Op_Delete n) = Req DELETE_F u n []"
| "op_request src u (Op_Rename a b) = Req RENAME u a b"

fun op_user :: "bytes \<Rightarrow> op \<Rightarrow> bytes" where
  "op_user u (Op_Login v) = v"
| "op_user u _ = u"

text \<open>
  What the local disk must offer: the files to upload (\<open>src\<close> gives their contents), and room for
  the files to download, apart from those to upload.
\<close>

definition desk :: "(bytes \<Rightarrow> bytes) \<Rightarrow> bytes set \<Rightarrow> bytes set \<Rightarrow> filesys \<Rightarrow> bool" where
  "desk src P D f \<longleftrightarrow> (\<forall>p\<in>P. fs_find f p = Some (File (src p)) \<and> (\<forall>n\<in>D. fs_resolve f p \<noteq> dl_at f n))
     \<and> (\<forall>n\<in>D. can_keep f n) \<and> healthy f"

fun op_fits :: "(bytes \<Rightarrow> bytes) \<Rightarrow> bytes set \<Rightarrow> bytes set \<Rightarrow> bytes \<Rightarrow> op \<Rightarrow> bool" where
  "op_fits src P D u (Op_Upload p) \<longleftrightarrow> p \<in> P \<and> u \<noteq> [] \<and> request_fits (op_request src u (Op_Upload p))"
| "op_fits src P D u (Op_Download n) \<longleftrightarrow> n \<in> D \<and> u \<noteq> [] \<and> request_fits (op_request src u (Op_Download n))"
| "op_fits src P D u x \<longleftrightarrow> request_fits (op_request src u x)"

text \<open>The local disk after an operation that was answered with \<open>reply\<close>.\<close>

fun disk_after :: "filesys \<Rightarrow> op \<Rightarrow> StatusCode \<times> bytes \<Rightarrow> (loc \<Rightarrow> node option) \<Rightarrow> loc \<Rightarrow> node option" where
  "disk_after f (Op_Download n) (OK, d) m = (with_dirs m (dl_dir f))(dl_at f n \<mapsto> File d)"
| "disk_after f _ _ m = m"

fun reply_fits :: "op \<Rightarrow> StatusCode \<times> bytes \<Rightarrow> bool" where
  "reply_fits (Op_Download n) (st, msg) = (if st = OK then length msg < 2 ^ 64 else length msg < 2 ^ 31 \<and> msg \<noteq> [])"
| "reply_fits _ reply = (length (snd reply) < 2 ^ 31)"

lemma disk_ok_new_file:
  assumes "disk_ok f" and "healthy f" and "way_clear f (fs_resolve f p)" and "q \<noteq> []" and "butlast q = fs_resolve f p"
    and "fs_at f q \<noteq> Some Dir" and "fs_at g = (with_dirs (fs_at f) (fs_resolve f p))(q \<mapsto> File c)"
  shows "disk_ok g"
proof -
  obtain h where h: "fs_at h = with_dirs (fs_at f) (fs_resolve f p)"
    using create_directories_clear [OF assms(2,3)] by blast
  have ok: "disk_ok h" by (rule disk_ok_with_dirs [OF assms(1,3) h])
  have "\<not> prefix q (fs_resolve f p)"
    using assms(4,5) by (metis length_append_singleton append_butlast_last_id not_less_eq_eq prefix_length_le order_refl)
  then have "disk_ok (fs_put h q (File c))"
    using assms(4,5,6) by (intro disk_ok_put_file [OF ok]) (auto simp: h with_dirs_def fs_is_dir_def)
  then show ?thesis by (simp add: disk_ok_def assms(7) h)
qed

lemma desk_download:
  assumes "desk src P D f" and "n \<in> D" and "fs_env g = fs_env f"
    and "fs_at g = (with_dirs (fs_at f) (dl_dir f))(dl_at f n \<mapsto> File c)"
  shows "desk src P D g"
proof -
  have res: "fs_resolve g = fs_resolve f" and hg: "healthy g = healthy f"
    using assms(3) healthy_env by (simp_all add: fs_env_def healthy_def)
  have places: "dl_at g = dl_at f" "dl_dir g = dl_dir f" by (simp_all add: dl_at_def dl_dir_def res fun_eq_iff)
  have keep: "healthy f" "disk_ok f" "way_clear f (dl_dir f)" "dl_at f k \<noteq> []" "butlast (dl_at f k) = dl_dir f"
      "fs_at f (dl_at f k) \<noteq> Some Dir" if "k \<in> D" for k
    using assms(1) that by (simp_all add: desk_def can_keep_def)
  have apart: "\<not> prefix (dl_at f k) (dl_dir f)" if "k \<in> D" for k
    using keep(4,5) [OF that] by (metis length_append_singleton append_butlast_last_id not_less_eq_eq prefix_length_le order_refl)
  note k = keep [OF assms(2)]
  have ok: "disk_ok g"
    by (rule disk_ok_new_file [OF k(2,1) k(3) [unfolded dl_dir_def] k(4) k(5) [unfolded dl_dir_def] k(6)
        assms(4) [unfolded dl_dir_def]])
  have "fs_at f [] = None" using keep(2) [OF assms(2)] by (simp add: disk_ok_def)
  then have clear: "way_clear g (dl_dir f)"
    using apart [OF assms(2)] by (auto simp: way_clear_def assms(4) with_dirs_def)
  have "can_keep g k" if "k \<in> D" for k
  proof -
    have "fs_at g (dl_at f k) \<noteq> Some Dir"
      unfolding assms(4) with_dirs_def using keep(6) [OF that] apart [OF that] by simp
    then show ?thesis using keep(1,4,5) [OF that] ok clear hg by (simp add: can_keep_def places)
  qed
  moreover have "fs_find g p = Some (File (src p)) \<and> (\<forall>k\<in>D. fs_resolve g p \<noteq> dl_at g k)" if "p \<in> P" for p
  proof -
    have p: "fs_find f p = Some (File (src p))" "\<forall>k\<in>D. fs_resolve f p \<noteq> dl_at f k" using assms(1) that by (simp_all add: desk_def)
    then have "\<not> prefix (fs_resolve f p) (dl_dir f)" using keep(3) [OF assms(2)] by (auto simp: way_clear_def fs_find_def)
    with p assms(2) show ?thesis by (auto simp: fs_find_def res places assms(4) with_dirs_def)
  qed
  ultimately show ?thesis using hg assms(1) by (simp add: desk_def)
qed

text \<open>What the operation returns, and the last line it shows.\<close>

fun op_accepted :: "op \<Rightarrow> StatusCode \<times> bytes \<Rightarrow> bool" where
  "op_accepted (Op_Download n) reply = (fst reply = OK)"
| "op_accepted _ reply = accepted reply"

fun op_line :: "op \<Rightarrow> StatusCode \<times> bytes \<Rightarrow> bytes" where
  "op_line (Op_Download n) (OK, d) = ''[Client] Download complete: '' @ dl_path n"
| "op_line _ reply = response_line reply"

text \<open>
  One operation against one response: the shape in which every later fact uses the lemmas above.
\<close>

definition exchanged :: "(bytes \<Rightarrow> bytes) \<Rightarrow> client \<Rightarrow> op \<Rightarrow> StatusCode \<times> bytes \<Rightarrow> bytes \<Rightarrow> bool result \<times> client \<Rightarrow> bool" where
  "exchanged src c x reply rest = (\<lambda>(r, v).
     r = Value (op_accepted x reply)
     \<and> (\<exists>t. c_socket v = Some t \<and> sk_tx t = sk_tx (sock c) @ request_wire (op_request src (c_username c) x)
          \<and> sk_rx t = rest \<and> wire_ok t)
     \<and> c_username v = op_user (c_username c) x \<and> c_alloc v = c_alloc c \<and> c_closed v = c_closed c
     \<and> fs_env (c_fs v) = fs_env (c_fs c) \<and> fs_at (c_fs v) = disk_after (c_fs c) x reply (fs_at (c_fs c))
     \<and> (\<exists>told. c_shown v = c_shown c @ told @ op_line x reply @ endl))"

lemma simple_exchange:
  assumes "c_socket c = Some s" and "wire_ok s" and "\<And>n. c_alloc c n"
    and "request_fits (Req cmd (c_username c) n b)" and "cmd \<noteq> UPLOAD" and "p = Some b \<or> p = None \<and> b = []"
    and "sk_rx s = response_wire k reply @ rest" and "length (snd reply) < 2 ^ 31"
    and "op_request src (c_username c) x = Req cmd (c_username c) n b" and "\<And>m. disk_after (c_fs c) x reply m = m"
    and "op_accepted x reply = accepted reply" and "op_line x reply = response_line reply"
    and "op_user (c_username c) x = c_username c"
  shows "exchanged src c x reply rest (send_command cmd n p (length b) c)"
proof -
  obtain t where t: "send_command cmd n p (length b) c = (Value (accepted reply), say (response_line reply) (put_sock t c))"
      "sk_tx t = sk_tx s @ request_wire (Req cmd (c_username c) n b)" "sk_rx t = rest" "wire_ok t"
    using send_command_wire [OF assms(1-8)] .
  then show ?thesis using assms(1,9-13) by (simp add: exchanged_def exI [of _ "[]"])
qed

lemma refused_or_ok: "fst reply \<noteq> OK \<Longrightarrow> disk_after f x reply m = m \<and> op_line x reply = response_line reply"
  by (cases reply; cases "fst reply"; cases x) auto

lemma perform_exchange:
  assumes "c_socket c = Some s" and "wire_ok s" and "\<And>n. c_alloc c n" and "desk src P D (c_fs c)"
    and "op_fits src P D (c_username c) x" and "sk_rx s = response_wire k reply @ rest" and "reply_fits x reply"
  shows "exchanged src c x reply rest (perform x c)"
proof (cases x)
  case (Op_Login u)
  let ?c = "c\<lparr>c_username := u\<rparr>"
  have "exchanged src ?c x reply rest (send_command LOGIN [] None (length ([] :: bytes)) ?c)"
    using assms Op_Login by (intro simple_exchange) auto
  then show ?thesis using assms(1) Op_Login
    by (simp add: exchanged_def login_def is_connected_def split: prod.splits)
next
  case Op_List
  then have "exchanged src c x reply rest (send_command LIST [] None (length ([] :: bytes)) c)"
    using assms by (intro simple_exchange) auto
  then show ?thesis using assms(1) Op_List by (simp add: client_list_files_def is_connected_def)
next
  case (Op_Delete n)
  then have "exchanged src c x reply rest (send_command DELETE_F n None (length ([] :: bytes)) c)"
    using assms by (intro simple_exchange) auto
  then show ?thesis using assms(1) Op_Delete by (simp add: client_delete_file_def is_connected_def)
next
  case (Op_Rename a b)
  then have "exchanged src c x reply rest (send_command RENAME a (Some b) (length b) c)"
    using assms by (intro simple_exchange) auto
  then show ?thesis using assms(1) Op_Rename by (simp add: client_rename_file_def is_connected_def)
next
  case (Op_Upload p)
  with assms have up: "c_username c \<noteq> []" "healthy (c_fs c)" "fs_find (c_fs c) p = Some (File (src p))"
      "request_fits (Req UPLOAD (c_username c) (path_filename p) (src p))" "length (snd reply) < 2 ^ 31"
    by (auto simp: desk_def)
  show ?thesis using upload_file_wire [OF assms(1-3) up(1-4) assms(6) up(5)] assms(1) Op_Upload
    by (fastforce simp: exchanged_def)
next
  case (Op_Download n)
  obtain st msg where reply: "reply = (st, msg)" by fastforce
  from Op_Download assms(4,5) have down: "c_username c \<noteq> []" "request_fits (Req DOWNLOAD (c_username c) n [])"
      "can_keep (c_fs c) n" by (auto simp: desk_def)
  show ?thesis
  proof (cases "st = OK")
    case True
    then have "sk_rx s = response_wire k (OK, msg) @ rest" "length msg < 2 ^ 64"
      using assms(6,7) Op_Download reply by auto
    then show ?thesis using download_file_wire [OF assms(1-3) down] assms(1) Op_Download reply True
      by (fastforce simp: exchanged_def)
  next
    case False
    then have "sk_rx s = response_wire k (st, msg) @ rest" "length msg < 2 ^ 31" "msg \<noteq> []"
      using assms(6,7) Op_Download reply by auto
    then obtain t where t: "download_file n c = (Value False, say (response_line (st, msg)) (put_sock t c))"
        "sk_tx t = sk_tx s @ request_wire (Req DOWNLOAD (c_username c) n [])" "sk_rx t = rest" "wire_ok t"
      using download_refused_wire [OF assms(1-3) down(1,2) False] by blast
    then show ?thesis using assms(1) Op_Download reply False refused_or_ok [of reply]
      by (simp add: exchanged_def exI [of _ "[]"])
  qed
qed

section \<open>Properties\<close>

text \<open>C22: one operation is one request and one response. On a connection without errors each
  operation of the client sends exactly the request that stands for it (an upload with the
  local file's bytes as payload), takes exactly the response off the stream, returns whether the
  server accepted, shows the response as its last line, and changes the local disk only when a
  download succeeds, which stores the received bytes under the downloads directory.\<close>

theorem operations_exchange_messages:
  assumes "c_socket c = Some s" and "wire_ok s" and "\<And>n. c_alloc c n" and "desk src P D (c_fs c)"
    and "op_fits src P D (c_username c) x" and "sk_rx s = response_wire k reply @ rest" and "reply_fits x reply"
    and "perform x c = (r, v)"
  shows "r = Value (op_accepted x reply)
    \<and> (\<exists>t. c_socket v = Some t \<and> sk_rx t = rest \<and> sk_tx t = sk_tx s @ request_wire (op_request src (c_username c) x))
    \<and> c_username v = op_user (c_username c) x
    \<and> fs_at (c_fs v) = disk_after (c_fs c) x reply (fs_at (c_fs c))
    \<and> (\<exists>told. c_shown v = c_shown c @ told @ op_line x reply @ endl)"
  using perform_exchange [OF assms(1-7)] assms(1,8) by (auto simp: exchanged_def)

text \<open>A client that has logged in, with a file to send and room for one to receive.\<close>

definition demo_client :: "bytes \<Rightarrow> client" where
  "demo_client incoming =
     (new_client ''localhost'' 9090 (sample_disk [([''note.txt''], File ''hello'')]) (\<lambda>n. True) False)
       \<lparr>c_socket := Some (trickle_socket incoming), c_username := ''bob''\<rparr>"

lemma lexical_downloads [simp]: "lexical_resolve ''downloads'' = [''downloads'']"
  by (simp add: lexical_resolve_def after_root_def collapse_def is_sep_def is_letter_def)

lemma demo_places [simp]:
  "dl_at (sample_disk ns) ''b'' = [''downloads'', ''b'']" "dl_dir (sample_disk ns) = [''downloads'']"
  "lexical_resolve ''note.txt'' = [''note.txt'']" "path_filename ''note.txt'' = ''note.txt''"
  by (simp_all add: dl_at_def dl_dir_def dl_path_def path_append_def lexical_resolve_def after_root_def collapse_def
      is_sep_def is_letter_def is_absolute_def has_root_directory_def has_filename_def path_filename_def)

lemma demo_disk_ok: "disk_ok (sample_disk [([''note.txt''], File ''hello'')])"
  by (auto simp: disk_ok_def strict_prefix_def prefix_def Cons_eq_append_conv split: if_splits)

lemma demo_desk: "desk (\<lambda>p. ''hello'') {''note.txt''} {''b''} (c_fs (demo_client incoming))"
proof -
  have "way_clear (sample_disk [([''note.txt''], File ''hello'')]) [''downloads'']"
    by (auto simp: way_clear_def prefix_Cons)
  then have "can_keep (sample_disk [([''note.txt''], File ''hello'')]) ''b''"
    by (simp add: can_keep_def demo_disk_ok)
  then show ?thesis by (simp add: desk_def demo_client_def new_client_def fs_find_def)
qed

lemma demo_client_simps [simp]:
  "c_socket (demo_client i) = Some (trickle_socket i)" "c_username (demo_client i) = ''bob''" "c_alloc (demo_client i) n"
  "c_fs (demo_client i) = sample_disk [([''note.txt''], File ''hello'')]" "c_closed (demo_client i) = []"
  by (simp_all add: demo_client_def new_client_def)

theorem operations_exchange_messages_witness:
  "let c = demo_client (response_wire 3 (OK, ''abc'') @ ''later''); (r, v) = perform (Op_Download ''b'') c
   in r = Value True \<and> fs_at (c_fs v) [''downloads'', ''b''] = Some (File ''abc'')
      \<and> fs_at (c_fs v) [''note.txt''] = Some (File ''hello'')"
proof -
  let ?c = "demo_client (response_wire 3 (OK, ''abc'') @ ''later'')"
  have "op_fits (\<lambda>p. ''hello'') {''note.txt''} {''b''} ''bob'' (Op_Download ''b'')" by (simp add: request_fits_def)
  then show ?thesis
    using operations_exchange_messages [of ?c _ "\<lambda>p. ''hello''" "{''note.txt''}" "{''b''}" "Op_Download ''b''" 3 "(OK, ''abc'')" "''later''"]
      demo_desk [of "response_wire 3 (OK, ''abc'') @ ''later''"]
    by (cases "perform (Op_Download ''b'') ?c") (simp add: with_dirs_def prefix_Cons)
qed

text \<open>C34: a download that is cut short takes away the local file it was writing, also the one
  an earlier download had left under that name, closes the connection and returns false.\<close>

theorem download_cut_short:
  assumes "c_socket c = Some s" and "wire_ok s" and "\<And>n. c_alloc c n" and "c_username c \<noteq> []"
    and "request_fits (Req DOWNLOAD (c_username c) n [])" and "can_keep (c_fs c) n"
    and "sk_rx s = header_wire (response_header k OK m) @ rest" and "length rest < m" and "m < 2 ^ 64"
    and "download_file n c = (r, v)"
  shows "r = Value False \<and> \<not> is_connected v
    \<and> fs_at (c_fs v) = (with_dirs (fs_at (c_fs c)) (dl_dir (c_fs c)))(dl_at (c_fs c) n := None)"
proof -
  obtain a where a: "download_file n c = download_body n (response_header k OK m) (put_sock a c)"
      "sk_rx a = rest" "wire_ok a"
    using download_file_reply [OF assms(1-5,7)] by auto
  let ?c = "put_sock a c" and ?h = "\<lparr>of_loc = dl_at (c_fs c) n, of_good = True\<rparr>"
  obtain g told where g: "fs_env g = fs_env (c_fs c)" "healthy g"
      "fs_at g = (with_dirs (fs_at (c_fs c)) (dl_dir (c_fs c)))(dl_at (c_fs c) n \<mapsto> File [])"
      "download_body n (response_header k OK m) ?c = download_open_file n m ?h (put_fs g (say told ?c))"
    using download_body_opened [of ?c n "response_header k OK m"] assms(6,9) by auto
  obtain g2 t d where t: "save_loop ?h m g a = (False, g2, t)" "fs_env g2 = fs_env g"
      "fs_at g2 = (fs_at g)(dl_at (c_fs c) n \<mapsto> File d)"
    using save_loop_short [of a m g ?h "[]"] a(2,3) assms(8) g(2,3) by auto
  have "fs_resolve g2 (dl_path n) = dl_at (c_fs c) n" using g(1) t(2) by (simp add: fs_env_def dl_at_def)
  then obtain g3 where "fs_remove g2 (dl_path n) = (Value True, g3)"
      "fs_at g3 = (fs_at g2)(dl_at (c_fs c) n := None)"
    using remove_a_file [of g2 "dl_path n" d] healthy_env [OF t(2)] g(2) t(3) by auto
  with a(1) g(3,4) t(1,3) assms(1,10) show ?thesis by (auto simp: download_open_file_def is_connected_def)
qed

theorem download_cut_short_witness:
  "let (r, v) = download_file ''b'' (demo_client (header_wire (response_header 3 OK 10) @ ''abc''))
   in r = Value False \<and> \<not> is_connected v \<and> fs_at (c_fs v) [''downloads'', ''b''] = None"
proof -
  let ?c = "demo_client (header_wire (response_header 3 OK 10) @ ''abc'')"
  have "can_keep (c_fs ?c) ''b''" using demo_desk [of "[]"] by (simp add: desk_def)
  then show ?thesis
    using download_cut_short [of ?c _ "''b''" 3 10 "''abc''"]
    by (cases "download_file ''b'' ?c") (simp add: request_fits_def)
qed

text \<open>C39: an upload whose file cannot be read to its end does not end the exchange. When the k-th
  read fails, the client stops sending as if the file were at its end, short of the length its
  header announced, keeps the connection and waits for a response to a request it has
  never completed, while the server waits for the rest of the payload.\<close>

theorem upload_read_fails:
  assumes "c_socket c = Some s" and "send_contract s" and "send_reliable s" and "c_username c \<noteq> []"
    and "fs_find (c_fs c) p = Some (File d)" and "request_fits (Req UPLOAD (c_username c) (path_filename p) d)"
    and "\<And>j. j < 4 + k \<Longrightarrow> \<not> fs_fault (c_fs c) (fs_calls (c_fs c) + j)"
    and "fs_fault (c_fs c) (fs_calls (c_fs c) + (4 + k))" and "k * TRANSFER_BUFFER_SIZE < length d"
  shows "\<exists>e b. upload_file p c = receive_response e \<and> c_socket e = Some b \<and> c_closed e = c_closed c \<and> sk_rx b = sk_rx s
    \<and> sk_tx b = sk_tx s @ meta_wire (request_header (Req UPLOAD (c_username c) (path_filename p) d)) (c_username c) (path_filename p)
        @ take (k * TRANSFER_BUFFER_SIZE) d
    \<and> k * TRANSFER_BUFFER_SIZE < unat (payload_length (request_header (Req UPLOAD (c_username c) (path_filename p) d)))"
proof -
  let ?f = "(c_fs c)\<lparr>fs_calls := Suc (Suc (Suc (Suc (fs_calls (c_fs c)))))\<rparr>"
  have works: "\<And>j. j < 4 \<Longrightarrow> \<not> fs_fault (c_fs c) (fs_calls (c_fs c) + j)" using assms(7) by simp
  obtain a told where a: "upload_file p c = upload_rest told c (upload_loop d 0 (length d) ?f a)"
      "sk_tx a = sk_tx s @ meta_wire (request_header (Req UPLOAD (c_username c) (path_filename p) d)) (c_username c) (path_filename p)"
      "only_writes s a"
    by (rule upload_file_opened [OF assms(1-4) works assms(5,6)])
  note A = only_writes_contracts [OF a(3)]
  have "\<And>j. j < k \<Longrightarrow> \<not> fs_fault ?f (fs_calls ?f + j)" "fs_fault ?f (fs_calls ?f + k)"
    using assms(7) [of "4 + _"] assms(8) by (simp_all add: eval_nat_numeral)
  then obtain g b where b: "upload_loop d 0 (0 + length d) ?f a = (True, g, b)"
      "sk_tx b = sk_tx a @ take (k * TRANSFER_BUFFER_SIZE) d" "only_writes a b"
    using upload_loop_stops [of a k ?f d 0] assms(2,3,9) A by auto
  let ?e = "put_sock b (put_fs g (say told c))"
  have "upload_file p c = receive_response ?e" using a(1) b(1) by (simp add: upload_rest_def)
  moreover have "sk_rx b = sk_rx s" using only_writes_trans [OF a(3) b(3)] by (simp add: only_writes_def)
  ultimately show ?thesis
    using a(2) b(2) assms(1,9) payload_of_request [OF assms(6)] by (intro exI [of _ ?e] exI [of _ b]) simp
qed

theorem upload_read_fails_witness:
  "let c = (demo_client [])\<lparr>c_fs := (sample_disk [([''note.txt''], File ''hello'')])\<lparr>fs_fault := \<lambda>i. i = 4\<rparr>\<rparr>
   in \<exists>e b. upload_file ''note.txt'' c = receive_response e \<and> c_socket e = Some b
        \<and> sk_tx b = header_wire (make_request UPLOAD 5 8 3) @ ''bobnote.txt''"
proof -
  let ?c = "(demo_client [])\<lparr>c_fs := (sample_disk [([''note.txt''], File ''hello'')])\<lparr>fs_fault := \<lambda>i. i = 4\<rparr>\<rparr>"
  have found: "fs_find (c_fs ?c) ''note.txt'' = Some (File ''hello'')"
    using demo_desk [of "[]"] by (simp add: desk_def fs_find_def fs_at_def)
  have name: "path_filename ''note.txt'' = ''note.txt''" by code_simp
  have calls: "fs_calls (sample_disk ns) = 0" for ns by (simp add: sample_disk_def)
  show ?thesis
    using upload_read_fails [of ?c "trickle_socket []" "''note.txt''" "''hello''" 0] found
    by (auto simp: name calls request_fits_def request_header_def meta_wire_def)
qed

end
