(* ===== verification/Cli.thy ===== *)
theory Cli
  imports Client_Spec
begin

text \<open>
  src/src/client/cli.cpp: the command line of the client. The lines \<open>std::getline\<close> delivers from
  the keyboard are a list; after the last one the input is at its end.
\<close>

section \<open>Text\<close>

definition is_blank :: "byte \<Rightarrow> bool" where
  "is_blank ch \<longleftrightarrow> ch = CHR '' '' \<or> ch = CHR 0x09 \<or> ch = CHR 0x0D \<or> ch = CHR 0x0A"

text \<open>\<open>std::isspace\<close> and \<open>::tolower\<close> in the C locale.\<close>

definition is_space :: "byte \<Rightarrow> bool" where
  "is_space ch \<longleftrightarrow> is_blank ch \<or> ch = CHR 0x0B \<or> ch = CHR 0x0C"

definition to_lower :: "byte \<Rightarrow> byte" where
  "to_lower ch = (let n = (of_char ch :: nat) in if 65 \<le> n \<and> n \<le> 90 then char_of (n + 32) else ch)"

text \<open>The trimmed line, or None when there is nothing but blanks.\<close>

definition trim :: "bytes \<Rightarrow> bytes option" where
  "trim line =
     (let line = dropWhile is_blank line
      in if line = [] then None else Some (rev (dropWhile is_blank (rev line))))"

text \<open>\<open>iss >> command\<close> and \<open>std::getline(iss >> std::ws, argument)\<close>.\<close>

definition read_word :: "bytes \<Rightarrow> bytes \<times> bytes" where
  "read_word iss =
     (let iss = dropWhile is_space iss
      in (takeWhile (\<lambda>ch. \<not> is_space ch) iss, dropWhile (\<lambda>ch. \<not> is_space ch) iss))"

definition read_argument :: "bytes \<Rightarrow> bytes" where
  "read_argument iss = takeWhile (\<lambda>ch. ch \<noteq> CHR 0x0A) (dropWhile is_space iss)"

section \<open>Commands\<close>

definition print_help :: "client \<Rightarrow> client" where
  "print_help c =
     say [] (say ''  quit / exit         - Disconnect and exit''
     (say ''  rename <old> <new>  - Rename a file''
     (say ''  delete <filename>   - Delete a file''
     (say ''  download <filename> - Download a file''
     (say ''  upload <filepath>   - Upload a file''
     (say ''  list / ls           - List your files''
     (say ''  login <username>    - Set your username (required first)''
     (say (endl @ ''Available commands:'') c))))))))"

text \<open>A call whose result is not looked at; an exception leaves \<open>process_command\<close>.\<close>

definition call :: "bool \<Rightarrow> bool result \<times> client \<Rightarrow> unit result \<times> client \<times> bool" where
  "call running r = (case r of (Raised, c) \<Rightarrow> (Raised, c, running) | (Value _, c) \<Rightarrow> (Value (), c, running))"

definition with_argument ::
    "bytes \<Rightarrow> bytes \<Rightarrow> (bytes \<Rightarrow> client \<Rightarrow> bool result \<times> client) \<Rightarrow> client \<Rightarrow> bool \<Rightarrow> unit result \<times> client \<times> bool" where
  "with_argument usage argument f c running =
     (if argument = [] then (Value (), say usage c, running) else call running (f argument c))"

text \<open>The two names of a rename: up to the first space, and after the blanks that follow it.\<close>

definition rename_names :: "bytes \<Rightarrow> (bytes \<times> bytes) option" where
  "rename_names argument =
     (if CHR '' '' \<notin> set argument then None
      else
        (let old_name = takeWhile (\<lambda>ch. ch \<noteq> CHR '' '') argument;
             new_name = drop (Suc (length old_name)) argument;
             shorter = dropWhile (\<lambda>ch. ch = CHR '' '' \<or> ch = CHR 0x09) new_name;
             new_name = (if shorter \<noteq> [] then shorter else new_name)
         in if old_name = [] \<or> new_name = [] then None else Some (old_name, new_name)))"

text \<open>The chain of tests on the command word, and the function around it.\<close>

definition run_command :: "bytes \<Rightarrow> bytes \<Rightarrow> client \<Rightarrow> bool \<Rightarrow> unit result \<times> client \<times> bool" where
  "run_command cmd argument c running =
     (if cmd = ''help'' then (Value (), print_help c, running)
      else if cmd = ''login'' then with_argument ''Usage: login <username>'' argument login c running
      else if cmd = ''list'' \<or> cmd = ''ls'' then call running (client_list_files c)
      else if cmd = ''upload'' then with_argument ''Usage: upload <filepath>'' argument upload_file c running
      else if cmd = ''download'' then with_argument ''Usage: download <filename>'' argument download_file c running
      else if cmd = ''delete'' \<or> cmd = ''rm''
      then with_argument ''Usage: delete <filename>'' argument client_delete_file c running
      else if cmd = ''rename'' \<or> cmd = ''mv''
      then (case rename_names argument of
              None \<Rightarrow> (Value (), say ''Usage: rename <old> <new>'' c, running)
            | Some (old_name, new_name) \<Rightarrow> call running (client_rename_file old_name new_name c))
      else if cmd = ''quit'' \<or> cmd = ''exit''
      then (case quit c of (Raised, c) \<Rightarrow> (Raised, c, running) | (Value _, c) \<Rightarrow> (Value (), c, False))
      else (Value (), say ''Type 'help' for available commands.'' (say (''Unknown command: '' @ cmd) c), running))"

definition process_command :: "bytes \<Rightarrow> client \<Rightarrow> bool \<Rightarrow> unit result \<times> client \<times> bool" where
  "process_command line c running =
     (case read_word line of
        (word, iss) \<Rightarrow> run_command (map to_lower word) (read_argument iss) c running)"

section \<open>The loop\<close>

definition prompt :: "client \<Rightarrow> client" where
  "prompt c = c\<lparr>c_shown := c_shown c @ ''mtfss> ''\<rparr>"

fun run_lines :: "bytes list \<Rightarrow> client \<Rightarrow> bool \<Rightarrow> unit result \<times> client \<times> bool" where
  "run_lines [] c running =
     (if running \<and> is_connected c then (Value (), prompt c, running) else (Value (), c, running))"
| "run_lines (line # rest) c running =
     (if running \<and> is_connected c then
        (case trim line of
           None \<Rightarrow> run_lines rest (prompt c) running
         | Some line \<Rightarrow>
             (case process_command line (prompt c) running of
                (Raised, c, running) \<Rightarrow> (Raised, c, running)
              | (Value _, c, running) \<Rightarrow> run_lines rest c running))
      else (Value (), c, running))"

definition cli_run :: "bytes list \<Rightarrow> client \<Rightarrow> unit result \<times> client \<times> bool" where
  "cli_run lines c =
     run_lines lines (say (''Type 'help' for available commands.'' @ endl) (say (endl @ ''=== MTFSS Client ==='') c)) True"

section \<open>What the command line understands\<close>

lemma prompt_simps [simp]:
  "c_socket (prompt c) = c_socket c" "c_username (prompt c) = c_username c" "c_fs (prompt c) = c_fs c"
  "c_closed (prompt c) = c_closed c" "c_alloc (prompt c) = c_alloc c" "c_be (prompt c) = c_be c"
  "sock (prompt c) = sock c"
  by (simp_all add: prompt_def sock_def)

text \<open>A word the user may type for a command, in any mix of cases.\<close>

definition word_for :: "bytes \<Rightarrow> bytes \<Rightarrow> bool" where
  "word_for name w \<longleftrightarrow> map to_lower w = name"

text \<open>An argument as a user types it: it starts with no blank and is one line.\<close>

definition typed_argument :: "bytes \<Rightarrow> bool" where
  "typed_argument a \<longleftrightarrow> a \<noteq> [] \<and> \<not> is_space (hd a) \<and> CHR 0x0A \<notin> set a"

lemma to_lower_space: "is_space ch \<Longrightarrow> to_lower ch = ch"
  by (auto simp: is_space_def is_blank_def to_lower_def)

lemma word_has_no_space:
  assumes "word_for name w" and "\<forall>ch\<in>set name. \<not> is_space ch"
  shows "\<forall>ch\<in>set w. \<not> is_space ch"
proof
  fix ch assume "ch \<in> set w"
  then have "to_lower ch \<in> set name" using assms(1) by (auto simp: word_for_def)
  then show "\<not> is_space ch" using assms(2) to_lower_space [of ch] by auto
qed

lemma read_word_typed:
  assumes "\<forall>ch\<in>set w. \<not> is_space ch" and "w \<noteq> []" and "sp = [] \<or> is_space (hd sp)"
  shows "read_word (w @ sp) = (w, sp)"
proof -
  have "dropWhile is_space (w @ sp) = w @ sp" using assms(1,2) by (cases w) auto
  moreover have "takeWhile (\<lambda>ch. \<not> is_space ch) sp = []" "dropWhile (\<lambda>ch. \<not> is_space ch) sp = sp"
    using assms(3) by (cases sp; auto)+
  ultimately show ?thesis using assms(1) by (simp add: read_word_def takeWhile_append2 dropWhile_append2)
qed

lemma read_argument_typed:
  assumes "\<forall>ch\<in>set sp. is_space ch" and "typed_argument a"
  shows "read_argument (sp @ a) = a"
proof -
  have "dropWhile is_space (sp @ a) = a"
    using assms by (cases a) (simp_all add: dropWhile_append2 typed_argument_def)
  then show ?thesis using assms(2) by (simp add: read_argument_def typed_argument_def takeWhile_eq_all_conv) blast
qed

lemma process_typed:
  assumes "word_for name w" and "\<forall>ch\<in>set name. \<not> is_space ch" and "name \<noteq> []"
    and "\<forall>ch\<in>set sp. is_space ch" and "sp \<noteq> []" and "typed_argument a"
  shows "read_word (w @ sp @ a) = (w, sp @ a)" and "read_argument (sp @ a) = a" and "map to_lower w = name"
    and "a \<noteq> []"
proof -
  have "w \<noteq> []" using assms(1,3) by (auto simp: word_for_def)
  moreover have "is_space (hd (sp @ a))" using assms(4,5) by (cases sp) auto
  ultimately show "read_word (w @ sp @ a) = (w, sp @ a)"
    using read_word_typed [OF word_has_no_space [OF assms(1,2)], of "sp @ a"] by simp
  show "read_argument (sp @ a) = a" by (rule read_argument_typed [OF assms(4,6)])
  show "map to_lower w = name" "a \<noteq> []" using assms(1,6) by (simp_all add: word_for_def typed_argument_def)
qed

lemma process_bare:
  assumes "word_for name w" and "\<forall>ch\<in>set name. \<not> is_space ch" and "name \<noteq> []"
  shows "read_word w = (w, [])" and "read_argument [] = []" and "map to_lower w = name"
proof -
  have "w \<noteq> []" using assms(1,3) by (auto simp: word_for_def)
  then show "read_word w = (w, [])" using read_word_typed [OF word_has_no_space [OF assms(1,2)], of "[]"] by simp
  show "read_argument [] = []" "map to_lower w = name" using assms(1) by (simp_all add: read_argument_def word_for_def)
qed

text \<open>The two names of a rename: the old one has no space; the new one may have some inside.\<close>

lemma rename_names_typed:
  assumes "CHR '' '' \<notin> set a" and "a \<noteq> []" and "\<forall>ch\<in>set sp. ch = CHR '' '' \<or> ch = CHR 0x09"
    and "b \<noteq> []" and "\<not> is_space (hd b)"
  shows "rename_names (a @ CHR '' '' # sp @ b) = Some (a, b)"
proof -
  have old: "takeWhile (\<lambda>ch. ch \<noteq> CHR '' '') (a @ CHR '' '' # sp @ b) = a"
    using assms(1) by (subst takeWhile_append2) auto
  have new: "dropWhile (\<lambda>ch. ch = CHR '' '' \<or> ch = CHR 0x09) (sp @ b) = b"
    using assms(3-5) by (cases b) (auto simp: dropWhile_append2 is_space_def is_blank_def)
  show ?thesis unfolding rename_names_def using assms(2,4) by (simp add: old new Let_def)
qed

lemmas command_names = is_space_def is_blank_def

section \<open>Typed operations\<close>

text \<open>How a user types an operation, and when the line means what it says.\<close>

fun typed :: "op \<Rightarrow> bytes" where
  "typed (Op_Login u) = ''login '' @ u"
| "typed Op_List = ''list''"
| "typed (Op_Upload p) = ''upload '' @ p"
| "typed (Op_Download n) = ''download '' @ n"
| "typed (Op_Delete n) = ''delete '' @ n"
| "typed (Op_Rename a b) = ''rename '' @ a @ '' '' @ b"

definition typable :: "bytes \<Rightarrow> bool" where
  "typable a \<longleftrightarrow> typed_argument a \<and> \<not> is_blank (last a)"

fun op_typable :: "op \<Rightarrow> bool" where
  "op_typable (Op_Login u) \<longleftrightarrow> typable u"
| "op_typable Op_List \<longleftrightarrow> True"
| "op_typable (Op_Upload p) \<longleftrightarrow> typable p"
| "op_typable (Op_Download n) \<longleftrightarrow> typable n"
| "op_typable (Op_Delete n) \<longleftrightarrow> typable n"
| "op_typable (Op_Rename a b) \<longleftrightarrow> typable a \<and> CHR '' '' \<notin> set a \<and> typable b"

lemma trim_plain:
  assumes "line \<noteq> []" and "\<not> is_blank (hd line)" and "\<not> is_blank (last line)"
  shows "trim line = Some line"
proof -
  have "dropWhile is_blank line = line" using assms(1,2) by (cases line) auto
  moreover have "dropWhile is_blank (rev line) = rev line"
    using assms(1,3) by (cases line rule: rev_cases) auto
  ultimately show ?thesis using assms(1) by (simp add: trim_def)
qed

lemma typable_last: "typable a \<Longrightarrow> a \<noteq> [] \<and> \<not> is_blank (last a)"
  by (simp add: typable_def typed_argument_def)

lemma trim_typed: "op_typable x \<Longrightarrow> trim (typed x) = Some (typed x)"
  by (cases x) (auto intro!: trim_plain simp: is_blank_def dest!: typable_last)

lemma lower_words [simp]:
  "word_for ''login'' ''login''" "word_for ''list'' ''list''" "word_for ''upload'' ''upload''"
  "word_for ''download'' ''download''" "word_for ''delete'' ''delete''" "word_for ''rename'' ''rename''"
  "word_for ''quit'' ''quit''"
  by (simp_all add: word_for_def to_lower_def)

lemma word_command:
  assumes "word_for name w" and "name \<in> {''login'', ''upload'', ''download'', ''delete'', ''rm''}"
    and "\<forall>ch\<in>set sp. is_space ch" and "sp \<noteq> []" and "typed_argument a"
  shows "process_command (w @ sp @ a) c k = call k
    ((if name = ''login'' then login else if name = ''upload'' then upload_file
      else if name = ''download'' then download_file else client_delete_file) a c)"
proof -
  have "\<forall>ch\<in>set name. \<not> is_space ch" "name \<noteq> []" using assms(2) by (auto simp: command_names)
  note t = process_typed [OF assms(1) this assms(3-5)]
  have "process_command (w @ sp @ a) c k = run_command name a c k" by (simp only: process_command_def t prod.case)
  moreover have "run_command name a c k = call k
    ((if name = ''login'' then login else if name = ''upload'' then upload_file
      else if name = ''download'' then download_file else client_delete_file) a c)"
    using assms(2) t(4) by (elim insertE emptyE) (simp_all add: run_command_def with_argument_def)
  ultimately show ?thesis by simp
qed

lemma rename_command:
  assumes "word_for name w" and "name = ''rename'' \<or> name = ''mv''" and "\<forall>ch\<in>set sp. is_space ch" and "sp \<noteq> []"
    and "typed_argument a" and "CHR '' '' \<notin> set a" and "typed_argument b"
    and "\<forall>ch\<in>set bl. ch = CHR '' '' \<or> ch = CHR 0x09"
  shows "process_command (w @ sp @ a @ CHR '' '' # bl @ b) c k = call k (client_rename_file a b c)"
proof -
  have names: "\<forall>ch\<in>set name. \<not> is_space ch" "name \<noteq> []" using assms(2) by (auto simp: command_names)
  have "CHR 0x0A \<notin> set bl" by (rule notI, drule bspec [OF assms(8)]) simp
  then have arg: "typed_argument (a @ CHR '' '' # bl @ b)" using assms(5,7) by (simp add: typed_argument_def)
  note t = process_typed [OF assms(1) names assms(3,4) arg]
  have split: "rename_names (a @ CHR '' '' # bl @ b) = Some (a, b)"
    using rename_names_typed [OF assms(6) _ assms(8)] assms(5,7) by (simp add: typed_argument_def)
  have "process_command (w @ sp @ a @ CHR '' '' # bl @ b) c k = run_command name (a @ CHR '' '' # bl @ b) c k"
    by (simp only: process_command_def t prod.case)
  also have "\<dots> = call k (client_rename_file a b c)"
    using assms(2) split by (elim disjE) (simp_all add: run_command_def)
  finally show ?thesis .
qed

lemma bare_command:
  assumes "word_for name w"
  shows "name = ''list'' \<or> name = ''ls'' \<Longrightarrow> process_command w c k = call k (client_list_files c)"
    and "name = ''quit'' \<or> name = ''exit'' \<Longrightarrow> process_command w c k =
      (case quit c of (Raised, c) \<Rightarrow> (Raised, c, k) | (Value _, c) \<Rightarrow> (Value (), c, False))"
    and "name \<in> {''login'', ''upload'', ''download'', ''delete'', ''rm'', ''rename'', ''mv''} \<Longrightarrow>
      \<exists>usage. process_command w c k = (Value (), say usage c, k)"
    and "name = ''help'' \<Longrightarrow> process_command w c k = (Value (), print_help c, k)"
proof -
  have bare: "process_command w c k = run_command name [] c k"
    if n: "name \<in> {''help'', ''list'', ''ls'', ''quit'', ''exit'', ''login'', ''upload'', ''download'', ''delete'', ''rm'', ''rename'', ''mv''}"
  proof -
    have "\<forall>ch\<in>set name. \<not> is_space ch" "name \<noteq> []" using n by (auto simp: command_names)
    note t = process_bare [OF assms this]
    show ?thesis by (simp only: process_command_def t prod.case)
  qed
  show "process_command w c k = call k (client_list_files c)" if n: "name = ''list'' \<or> name = ''ls''"
    using n bare by (elim disjE) (simp_all add: run_command_def)
  show "process_command w c k = (case quit c of (Raised, c) \<Rightarrow> (Raised, c, k) | (Value _, c) \<Rightarrow> (Value (), c, False))"
    if n: "name = ''quit'' \<or> name = ''exit''"
    using n bare by (elim disjE) (simp_all add: run_command_def)
  show "\<exists>usage. process_command w c k = (Value (), say usage c, k)"
    if n: "name \<in> {''login'', ''upload'', ''download'', ''delete'', ''rm'', ''rename'', ''mv''}"
    using n bare by (elim insertE emptyE) (auto simp: run_command_def with_argument_def rename_names_def)
  show "process_command w c k = (Value (), print_help c, k)" if n: "name = ''help''"
    using n bare by (simp add: run_command_def)
qed

text \<open>Quitting ends the connection, whatever comes back, and with it the loop.\<close>

lemma quit_disconnects: "quit c = (r, d) \<Longrightarrow> r = Raised \<or> r = Value True \<and> \<not> is_connected d \<or> r = Value False \<and> \<not> is_connected d"
  by (auto simp: quit_def is_connected_def disconnect_def split: prod.splits result.splits bool.splits option.splits)

lemma process_op:
  assumes "op_typable x"
  shows "process_command (typed x) c k = call k (perform x c)"
proof -
  have sp: "\<forall>ch\<in>set '' ''. is_space ch" "'' '' \<noteq> []" by (simp_all add: command_names)
  have arg: "typable a \<Longrightarrow> typed_argument a" for a by (simp add: typable_def)
  note one = word_command [OF _ _ sp arg]
  show ?thesis
  proof (cases x)
    case (Op_Login u)
    then show ?thesis using assms one [of "''login''" "''login''" u c k] by simp
  next
    case Op_List
    then show ?thesis using bare_command(1) [of "''list''" "''list''" c k] by simp
  next
    case (Op_Upload p)
    then show ?thesis using assms one [of "''upload''" "''upload''" p c k] by simp
  next
    case (Op_Download n)
    then show ?thesis using assms one [of "''download''" "''download''" n c k] by simp
  next
    case (Op_Delete n)
    then show ?thesis using assms one [of "''delete''" "''delete''" n c k] by simp
  next
    case (Op_Rename a b)
    then show ?thesis
      using assms rename_command [of "''rename''" "''rename''" "'' ''" a b "[]" c k] sp arg by simp
  qed
qed

section \<open>Properties\<close>

text \<open>C35: the command line understands what its help text promises: a command word in any mix of
  cases, or its alias, then blanks, then one line of argument, calls the client's operation with
  exactly that argument; the two names of a rename are separated by a space and blanks, and the
  second may have spaces inside; without an argument only the usage is shown. \<open>quit\<close> and \<open>exit\<close> call \<open>quit\<close>, after
  which, unless it throws, the client is disconnected and the loop is told to end; \<open>help\<close> shows the help text.\<close>

theorem commands_understood:
  assumes "word_for name w" and "\<forall>ch\<in>set sp. is_space ch" and "sp \<noteq> []" and "typed_argument a"
  shows "(name = ''login'' \<longrightarrow> process_command (w @ sp @ a) c k = call k (login a c))
    \<and> (name = ''upload'' \<longrightarrow> process_command (w @ sp @ a) c k = call k (upload_file a c))
    \<and> (name = ''download'' \<longrightarrow> process_command (w @ sp @ a) c k = call k (download_file a c))
    \<and> (name = ''delete'' \<or> name = ''rm'' \<longrightarrow> process_command (w @ sp @ a) c k = call k (client_delete_file a c))
    \<and> (name = ''list'' \<or> name = ''ls'' \<longrightarrow> process_command w c k = call k (client_list_files c))
    \<and> ((name = ''rename'' \<or> name = ''mv'') \<and> CHR '' '' \<notin> set a \<and> typed_argument b
         \<and> (\<forall>ch\<in>set bl. ch = CHR '' '' \<or> ch = CHR 0x09) \<longrightarrow>
         process_command (w @ sp @ a @ CHR '' '' # bl @ b) c k = call k (client_rename_file a b c))
    \<and> (name \<in> {''login'', ''upload'', ''download'', ''delete'', ''rm'', ''rename'', ''mv''} \<longrightarrow>
         (\<exists>usage. process_command w c k = (Value (), say usage c, k)))
    \<and> (name = ''quit'' \<or> name = ''exit'' \<longrightarrow>
         (case quit c of
            (Raised, d) \<Rightarrow> process_command w c k = (Raised, d, k)
          | (Value _, d) \<Rightarrow> process_command w c k = (Value (), d, False) \<and> \<not> is_connected d))
    \<and> (name = ''help'' \<longrightarrow> process_command w c k = (Value (), print_help c, k))"
  using word_command [OF assms(1) _ assms(2-4)] bare_command [OF assms(1)] rename_command [OF assms(1) _ assms(2-4)]
    quit_disconnects [of c]
  by (intro conjI impI) (auto split: prod.split result.split)

theorem commands_understood_witness:
  "process_command ''MV old  new name'' (demo_client []) True = call True (client_rename_file ''old'' ''new name'' (demo_client []))"
proof -
  have "word_for ''mv'' ''MV''" by code_simp
  moreover have "\<forall>ch\<in>set '' ''. is_space ch" "typed_argument ''old''" "typed_argument ''new name''"
    by (simp_all add: typed_argument_def command_names)
  ultimately show ?thesis
    using commands_understood [of "''mv''" "''MV''" "'' ''" "''old''" "demo_client []" True "''new name''" "'' ''"] by simp
qed

end
