(* ===== verification/Startup.thy ===== *)
theory Startup
  imports Thread_Pool Store_Sync Cli
begin

text \<open>
  How the two programs start: the constructor of \<open>Server\<close> and \<open>main\<close> of src/src/server/server.cpp and
  main.cpp, and \<open>main\<close> of src/src/client/main.cpp with its command line. What Winsock answers is
  the environment's choice.
\<close>

section \<open>The server\<close>

text \<open>
  The listening socket after the constructor. Every failing call throws, the later ones after closing
  the socket; a negative number of workers makes \<open>workers_.reserve\<close> throw, and then nobody closes it.
\<close>

datatype listener = No_Listener | Listening | Listener_Closed

definition server_setup :: "bool \<Rightarrow> bool \<Rightarrow> bool \<Rightarrow> bool \<Rightarrow> int \<Rightarrow> 'a server result \<times> listener" where
  "server_setup socket_ok opt_ok bind_ok listen_ok num_workers =
     (if \<not> socket_ok then (Raised, No_Listener)
      else if \<not> opt_ok then (Raised, Listener_Closed)
      else if \<not> bind_ok then (Raised, Listener_Closed)
      else if \<not> listen_ok then (Raised, Listener_Closed)
      else (case start_workers num_workers of
              None \<Rightarrow> (Raised, Listening)
            | Some workers \<Rightarrow> (Value (server_with workers), Listening)))"

text \<open>
  The constructor of \<open>WinsockGuard\<close> throws unless \<open>WSAStartup\<close> returned 0; when the object does not come
  about, its destructor, which calls \<open>WSACleanup\<close>, does not run.
\<close>

definition winsock_guard :: "int \<Rightarrow> unit result" where
  "winsock_guard wsa_result = (if wsa_result \<noteq> 0 then Raised else Value ())"

text \<open>\<open>main\<close> up to the call of \<open>start\<close>: an exit code, or the state in which the server starts.\<close>

definition server_main :: "int \<Rightarrow> bool \<Rightarrow> bool \<Rightarrow> bool \<Rightarrow> bool \<Rightarrow> world \<Rightarrow> int + world \<times> 'a server" where
  "server_main wsa_result socket_ok opt_ok bind_ok listen_ok w =
     (case winsock_guard wsa_result of
        Raised \<Rightarrow> Inl 1
      | Value _ \<Rightarrow>
        (case server_setup socket_ok opt_ok bind_ok listen_ok DEFAULT_THREAD_POOL of
           (Raised, _) \<Rightarrow> Inl 1
         | (Value server, _) \<Rightarrow>
             (case rebuild_from_disk (w_clock w) (w_index w) (w_time w) (w_fs w) ''storage'' of
                (Raised, _) \<Rightarrow> Inl 1
              | (Value _, ix, k, f) \<Rightarrow> Inr (w\<lparr>w_index := ix, w_time := k, w_fs := f\<rparr>, server))))"

text \<open>\<open>CTRL_C_EVENT\<close> is 0 and \<open>CTRL_CLOSE_EVENT\<close> is 2: whether \<open>stop\<close> is called, and the result.\<close>

definition ctrl_handler :: "u32 \<Rightarrow> bool \<Rightarrow> bool \<times> bool" where
  "ctrl_handler event g_server = (if event = 0 \<or> event = 2 then (g_server, True) else (False, False))"

section \<open>The client\<close>

text \<open>
  \<open>std::stoi\<close>: white space, a sign, and as many digits as follow, at least one; what comes after
  them is ignored. It throws when there is no digit and when the number is no \<open>int\<close>.
\<close>

definition is_digit :: "byte \<Rightarrow> bool" where
  "is_digit ch \<longleftrightarrow> (let n = (of_char ch :: nat) in 48 \<le> n \<and> n \<le> 57)"

definition digits_value :: "bytes \<Rightarrow> nat" where
  "digits_value ds = foldl (\<lambda>n ch. 10 * n + (of_char ch - 48)) 0 ds"

definition stoi :: "bytes \<Rightarrow> int result" where
  "stoi str =
     (let str = dropWhile is_space str;
          minus = (str \<noteq> [] \<and> hd str = CHR ''-'');
          signed = (minus \<or> str \<noteq> [] \<and> hd str = CHR ''+'');
          ds = takeWhile is_digit (if signed then tl str else str);
          n = (if minus then - int (digits_value ds) else int (digits_value ds))
      in if ds = [] then Raised
         else if n < - (2 ^ 31) \<or> 2 ^ 31 \<le> n then Raised
         else Value n)"

definition client_port :: "bytes list \<Rightarrow> u16 result" where
  "client_port argv =
     (if 3 \<le> length argv then (case stoi (argv ! 2) of Raised \<Rightarrow> Raised | Value n \<Rightarrow> Value (word_of_int n))
      else Value DEFAULT_PORT)"

text \<open>The destructor of \<open>Client\<close> disconnects.\<close>

definition destroy_client :: "client \<Rightarrow> client" where
  "destroy_client c = disconnect c"

text \<open>
  \<open>main\<close>: the exit code, and the client after its destructor has run. \<open>answer\<close> says who answers
  at an address.
\<close>

definition client_main ::
    "int \<Rightarrow> bytes list \<Rightarrow> (bytes \<Rightarrow> u16 \<Rightarrow> connect_answer) \<Rightarrow> bytes list \<Rightarrow> filesys \<Rightarrow> (nat \<Rightarrow> bool) \<Rightarrow> bool
     \<Rightarrow> int \<times> client option" where
  "client_main wsa_result argv answer lines f alloc be =
     (let host = (if 2 \<le> length argv then argv ! 1 else ''127.0.0.1'')
      in case winsock_guard wsa_result of
           Raised \<Rightarrow> (1, None)
         | Value _ \<Rightarrow>
           (case client_port argv of
              Raised \<Rightarrow> (1, None)
            | Value port \<Rightarrow>
                (case connect_to_server (answer host port) (new_client host port f alloc be) of
                   (False, c) \<Rightarrow> (1, Some (destroy_client c))
                 | (True, c) \<Rightarrow>
                     (case cli_run lines c of
                        (Raised, c, _) \<Rightarrow> (1, Some (destroy_client c))
                      | (Value _, c, _) \<Rightarrow> (0, Some (destroy_client c))))))"

section \<open>Decimal numbers\<close>

lemma digit_of: "n < 10 \<Longrightarrow> of_char (char_of (n + 48) :: char) = (n + 48 :: nat)"
  by (simp add: of_char_of)

lemma digit_char: "(n :: nat) < 10 \<Longrightarrow> is_digit (char_of (n + 48))"
  by (simp add: is_digit_def digit_of Let_def)

lemma to_string_digits: "\<forall>ch\<in>set (to_string n). is_digit ch"
proof (induction n rule: to_string.induct)
  case (1 n)
  then show ?case by (subst to_string.simps) (auto simp: digit_char)
qed

lemma digits_value_to_string: "digits_value (to_string n) = n"
proof (induction n rule: to_string.induct)
  case (1 n)
  show ?case
  proof (cases "n < 10")
    case True
    then show ?thesis by (subst to_string.simps) (simp add: digits_value_def digit_of)
  next
    case False
    then have "digits_value (to_string n) = 10 * digits_value (to_string (n div 10)) + n mod 10"
      by (subst to_string.simps) (simp add: digits_value_def digit_of)
    then show ?thesis using "1.IH" False by simp
  qed
qed

lemma digit_no_sign: "is_digit ch \<Longrightarrow> \<not> is_space ch \<and> ch \<noteq> CHR ''-'' \<and> ch \<noteq> CHR ''+''"
  by (auto simp: is_digit_def is_space_def is_blank_def Let_def)

lemma stoi_to_string: "stoi (to_string n) = (if n < 2 ^ 31 then Value (int n) else Raised)"
proof -
  obtain d ds where d: "to_string n = d # ds" using to_string_nonempty by (metis neq_Nil_conv)
  then have sign: "\<not> is_space d" "d \<noteq> CHR ''-''" "d \<noteq> CHR ''+''" using to_string_digits [of n] digit_no_sign by auto
  have "takeWhile is_digit (to_string n) = to_string n" using to_string_digits by (simp add: takeWhile_eq_all_conv)
  then show ?thesis using sign digits_value_to_string [of n] by (simp add: stoi_def d Let_def)
qed

section \<open>Properties\<close>

text \<open>C36: what \<open>main\<close> starts serving on. It gets as far as \<open>start\<close> exactly when Winsock, the
  four calls that set the socket up and the one disk call outside the try block of
  \<open>rebuild_from_disk\<close> succeed; otherwise it returns 1, with the socket closed if the set-up failed
  on it. When it starts, four workers wait on an empty queue, the files are as they were, and
  every entry of the index names a file of the disk with its length, whatever calls failed. On a
  disk whose calls succeed, with ordinary names, index and disk are in step, and every complete
  file operation keeps them so. The other errors of \<open>rebuild_from_disk\<close> are caught and only logged:
  when opening the storage directory fails, the server starts all the same, on an empty index, so
  that it answers 404 for every file it holds.\<close>

theorem server_starts_in_step:
  assumes "distinct (map fst (fs_nodes (w_fs w)))"
    and "server_main wsa socket_ok opt_ok bind_ok listen_ok w = m"
  shows "((\<exists>v sv. m = Inr (v, sv)) \<longleftrightarrow>
        wsa = 0 \<and> socket_ok \<and> opt_ok \<and> bind_ok \<and> listen_ok \<and> \<not> fs_fault (w_fs w) (fs_calls (w_fs w)))
    \<and> (\<forall>code. m = Inl code \<longrightarrow> code = 1
        \<and> (wsa = 0 \<and> \<not> fs_fault (w_fs w) (fs_calls (w_fs w))
             \<longrightarrow> snd (server_setup socket_ok opt_ok bind_ok listen_ok DEFAULT_THREAD_POOL) \<noteq> Listening))
    \<and> (\<forall>v sv. m = Inr (v, sv) \<longrightarrow> sv = new_server 4 \<and> fs_at (w_fs v) = fs_at (w_fs w) \<and> index_ok (w_index v)
        \<and> (\<forall>d n sz. idx_size (w_index v) (d, n) = Some sz \<longrightarrow>
             (\<exists>u c. d = normalize_path (user_dir u) \<and> fs_at (w_fs w) (fs_resolve (w_fs w) ''storage'' @ [u]) = Some Dir
                \<and> fs_at (w_fs w) (fs_resolve (w_fs w) ''storage'' @ [u, n]) = Some (File c) \<and> sz = word_of_nat (length c)))
        \<and> (fs_fault (w_fs w) (Suc (fs_calls (w_fs w))) \<longrightarrow> w_index v = [])
        \<and> (\<forall>N. healthy (w_fs w) \<and> disk_ok (w_fs w) \<and> fs_find (w_fs w) ''storage'' = Some Dir \<and> ordinary (w_fs w) N
             \<and> (\<forall>u. fs_at (w_fs w) (fs_resolve (w_fs w) ''storage'' @ [u]) = Some Dir \<longrightarrow> clean_name u)
             \<and> (\<forall>(u, n)\<in>N. way_clear (w_fs w) (home_at (w_fs w) u) \<and> fs_at (w_fs w) (file_at (w_fs w) u n) \<noteq> Some Dir)
             \<longrightarrow> (\<forall>v'. (file_step N)\<^sup>*\<^sup>* v v' \<longrightarrow> in_step N v')))"
proof -
  let ?f = "w_fs w"
  obtain r ix k f where run: "rebuild_from_disk (w_clock w) (w_index w) (w_time w) ?f ''storage'' = (r, ix, k, f)"
    by (metis surj_pair)
  note sound = rebuild_from_disk_sound [OF run assms(1)]
  obtain j where f: "f = ?f\<lparr>fs_calls := j\<rparr>" using sound(2) by blast
  let ?v = "w\<lparr>w_index := ix, w_time := k, w_fs := f\<rparr>"
  note ready = server_setup_def start_workers_def new_server_def DEFAULT_THREAD_POOL_def
  have main: "m = (if wsa = 0 \<and> socket_ok \<and> opt_ok \<and> bind_ok \<and> listen_ok \<and> \<not> fs_fault ?f (fs_calls ?f)
      then Inr (?v, new_server 4) else Inl 1)"
    unfolding assms(2) [symmetric] by (simp add: server_main_def ready run winsock_guard_def sound(1))
  have kept: "in_step N v'"
    if "healthy ?f \<and> disk_ok ?f \<and> fs_find ?f ''storage'' = Some Dir \<and> ordinary ?f N
         \<and> (\<forall>u. fs_at ?f (fs_resolve ?f ''storage'' @ [u]) = Some Dir \<longrightarrow> clean_name u)
         \<and> (\<forall>(u, n)\<in>N. way_clear ?f (home_at ?f u) \<and> fs_at ?f (file_at ?f u n) \<noteq> Some Dir)"
      and "(file_step N)\<^sup>*\<^sup>* ?v v'" for N v'
  proof -
    have "r = Value ()" using that(1) by (simp add: sound(1) healthy_def)
    then have "booted N ?v"
      unfolding booted_def using that(1) assms(1) run
      by (intro exI [of _ ?f] exI [of _ "w_index w"] exI [of _ "w_time w"] exI [of _ k] conjI) auto
    then show ?thesis using that(2) by (rule sync.inv_reachable)
  qed
  have first: "snd (server_setup socket_ok opt_ok bind_ok listen_ok DEFAULT_THREAD_POOL) \<noteq> Listening"
    if "\<not> (socket_ok \<and> opt_ok \<and> bind_ok \<and> listen_ok)"
    using that by (auto simp: ready)
  show ?thesis
    using main first kept sound(3,4) sound(5) f by (auto simp del: split_paired_All)
qed

definition torn_disk :: filesys where
  "torn_disk = (sample_disk home_nodes)\<lparr>fs_fault := (\<lambda>i. i = 1)\<rparr>"

theorem server_starts_in_step_witness:
  "(\<exists>v. server_main 0 True True True True (sample_world home_nodes) = Inr (v, new_server 4 :: nat server) \<and> in_step {(''bob'', ''a'')} v)
   \<and> (\<exists>v. server_main 0 True True True True ((sample_world home_nodes)\<lparr>w_fs := torn_disk\<rparr>) = Inr (v, new_server 4 :: nat server)
        \<and> w_index v = [] \<and> fs_at (w_fs v) [''storage'', ''bob'', ''a''] = Some (File ''xyz''))"
proof
  let ?w = "sample_world home_nodes" and ?N = "{(''bob'', ''a'')}"
  let ?t = "?w\<lparr>w_fs := torn_disk\<rparr>"
  have dist: "distinct (map fst (fs_nodes (w_fs ?w)))" by (simp add: home_nodes_def)
  obtain m :: "int + world \<times> nat server" where m: "server_main 0 True True True True ?w = m" by blast
  note T = server_starts_in_step [OF dist m]
  have "\<forall>u. fs_at (w_fs ?w) (fs_resolve (w_fs ?w) ''storage'' @ [u]) = Some Dir \<longrightarrow> clean_name u"
    by (auto simp: home_nodes_def clean_name_def split: if_splits)
  moreover have "ordinary (w_fs ?w) ?N" by (simp add: ordinary_def clean_name_def)
  moreover have "fs_find (w_fs ?w) ''storage'' = Some Dir" by (simp add: fs_find_def home_nodes_def)
  moreover have "healthy (w_fs ?w)" "disk_ok (w_fs ?w)"
      "\<forall>(u, n)\<in>?N. way_clear (w_fs ?w) (home_at (w_fs ?w) u) \<and> fs_at (w_fs ?w) (file_at (w_fs ?w) u n) \<noteq> Some Dir"
    by auto
  moreover have "\<exists>v sv. m = Inr (v, sv)" using T [THEN conjunct1] by simp
  then obtain v sv where v: "m = Inr (v, sv)" by blast
  moreover note T [THEN conjunct2, THEN conjunct2, THEN spec, THEN spec, THEN mp, OF v]
  ultimately have "m = Inr (v, new_server 4) \<and> (\<forall>v'. (file_step ?N)\<^sup>*\<^sup>* v v' \<longrightarrow> in_step ?N v')" by blast
  then show "\<exists>v. server_main 0 True True True True ?w = Inr (v, new_server 4 :: nat server) \<and> in_step ?N v"
    using m rtranclp.rtrancl_refl by metis
  have dist: "distinct (map fst (fs_nodes (w_fs ?t)))" by (simp add: torn_disk_def home_nodes_def)
  obtain m :: "int + world \<times> nat server" where m: "server_main 0 True True True True ?t = m" by blast
  note T = server_starts_in_step [OF dist m]
  have faults: "\<not> fs_fault (w_fs ?t) (fs_calls (w_fs ?t))" "fs_fault (w_fs ?t) (Suc (fs_calls (w_fs ?t)))"
    by (simp_all add: torn_disk_def sample_disk_def)
  have "\<exists>v sv. m = Inr (v, sv)" using T [THEN conjunct1] faults(1) by simp
  then obtain v sv where v: "m = Inr (v, sv)" by blast
  note U = T [THEN conjunct2, THEN conjunct2, THEN spec, THEN spec, THEN mp, OF v]
  have "fs_at (w_fs v) = fs_at (w_fs ?t)" using U by blast
  moreover have "fs_at (w_fs ?t) [''storage'', ''bob'', ''a''] = Some (File ''xyz'')"
    by (simp add: torn_disk_def home_nodes_def sample_disk_def fs_at_def)
  moreover have "m = Inr (v, new_server 4)" "w_index v = []" using U v faults(2) by blast+
  ultimately show "\<exists>v. server_main 0 True True True True ?t = Inr (v, new_server 4 :: nat server)
        \<and> w_index v = [] \<and> fs_at (w_fs v) [''storage'', ''bob'', ''a''] = Some (File ''xyz'')"
    using m by metis
qed

text \<open>The client dials the address on its command line. A decimal port argument is read back to
  the number it spells, of which \<open>main\<close> keeps the low 16 bits; the session then runs on the socket
  that answers there, and the client is disconnected before \<open>main\<close> returns 0. A number that does
  not fit an \<open>int\<close> ends the program with 1.\<close>

theorem client_dials:
  assumes "answer host (word_of_nat n) = Connected_To s"
    and "cli_run lines (say (''[Client] Connected to '' @ host @ '':'' @ to_string (n mod 2 ^ 16))
           ((new_client host (word_of_nat n) f alloc be)\<lparr>c_socket := Some s\<rparr>)) = (Value (), v, on)"
  shows "client_main 0 [prog, host, to_string n] answer lines f alloc be =
    (if n < 2 ^ 31 then (0, Some (disconnect v)) else (1, None)) \<and> \<not> is_connected (disconnect v)"
proof -
  have port: "client_port [prog, host, to_string n] = (if n < 2 ^ 31 then Value (word_of_nat n) else Raised)"
    by (simp add: client_port_def stoi_to_string)
  have "unat (word_of_nat n :: u16) = n mod 2 ^ 16" by (simp add: unat_of_nat)
  then have "connect_to_server (Connected_To s) (new_client host (word_of_nat n) f alloc be) =
      (True, say (''[Client] Connected to '' @ host @ '':'' @ to_string (n mod 2 ^ 16))
           ((new_client host (word_of_nat n) f alloc be)\<lparr>c_socket := Some s\<rparr>))"
    by (simp add: connect_to_server_def new_client_def)
  then show ?thesis using assms port by (simp add: client_main_def is_connected_def winsock_guard_def destroy_client_def)
qed

theorem client_dials_witness:
  "\<exists>v. client_main 0 [''client'', ''::1'', to_string 75626] (\<lambda>h p. if p = 10090 then Connected_To (prompt_socket []) else Refused 10061)
     [] (sample_disk []) (\<lambda>n. True) False = (0, Some (disconnect v)) \<and> \<not> is_connected (disconnect v)"
proof -
  let ?answer = "\<lambda>h p. if p = (10090 :: u16) then Connected_To (prompt_socket []) else Refused 10061"
  let ?c = "say (''[Client] Connected to '' @ ''::1'' @ '':'' @ to_string (75626 mod 2 ^ 16))
      ((new_client ''::1'' (word_of_nat 75626) (sample_disk []) (\<lambda>n. True) False)\<lparr>c_socket := Some (prompt_socket [])\<rparr>)"
  have "?answer ''::1'' (word_of_nat 75626) = Connected_To (prompt_socket [])" by simp
  moreover have "fst (cli_run [] ?c) = Value ()" by (simp add: cli_run_def)
  then obtain v on where "cli_run [] ?c = (Value (), v, on)" by (cases "cli_run [] ?c") simp
  ultimately show ?thesis
    using client_dials [of ?answer "''::1''" 75626 "prompt_socket []" "[]" "sample_disk []" "\<lambda>n. True" False v on "''client''"]
    by (intro exI [of _ v]) simp
qed

end
