(* ===== verification/Client_Trace.thy ===== *)
theory Client_Trace
  imports Cli
begin

text \<open>
  What the client of src/src/client has sent on its connection, whatever the server answers: each
  typed line only adds to it, and each operation sends its whole request before it reads
  anything. Nothing is assumed here of what comes in.
\<close>

section \<open>One client state after another\<close>

text \<open>
  \<open>follows c b v\<close>: v comes after c on the same connection, which may have been closed
  meanwhile, with at least the bytes b sent in between.
\<close>

definition follows :: "client \<Rightarrow> bytes \<Rightarrow> client \<Rightarrow> bool" where
  "follows c b v \<longleftrightarrow>
     (case c_socket c of
        None \<Rightarrow> c_socket v = None \<and> c_closed v = c_closed c
      | Some s \<Rightarrow>
          \<exists>t. (c_socket v = Some t \<and> c_closed v = c_closed c \<or> c_socket v = None \<and> c_closed v = c_closed c @ [t])
              \<and> prefix (sk_tx s @ b) (sk_tx t))"

lemma follows_refl [simp]: "follows c [] c"
  by (simp add: follows_def split: option.split)

lemma follows_trans: "follows c b u \<Longrightarrow> follows u [] v \<Longrightarrow> follows c b v"
  by (auto simp: follows_def intro: prefix_order.trans split: option.splits)

lemma follows_cong: "c_socket v = c_socket u \<Longrightarrow> c_closed v = c_closed u \<Longrightarrow> follows c b v = follows c b u"
  by (simp add: follows_def split: option.split)

lemma follows_same: "c_socket v = c_socket c \<Longrightarrow> c_closed v = c_closed c \<Longrightarrow> follows c [] v"
  using follows_cong [of v c c "[]"] by simp

lemma follows_from_cong: "c_socket u = c_socket c \<Longrightarrow> c_closed u = c_closed c \<Longrightarrow> follows u b v = follows c b v"
  by (simp add: follows_def split: option.split)

lemma follows_say [simp]: "follows c b (say m v) = follows c b v" "follows (say m c) b v = follows c b v"
  by (rule follows_cong; simp) (rule follows_from_cong; simp)

lemma follows_put_fs [simp]: "follows c b (put_fs f v) = follows c b v" "follows (put_fs f c) b v = follows c b v"
  by (rule follows_cong; simp) (rule follows_from_cong; simp)

lemma follows_prompt [simp]: "follows c b (prompt v) = follows c b v" "follows (prompt c) b v = follows c b v"
  by (rule follows_cong; simp) (rule follows_from_cong; simp)

lemma follows_disconnect [intro]: "follows c b v \<Longrightarrow> follows c b (disconnect v)"
  by (cases "c_socket v"; cases "c_socket c") (auto simp: follows_def disconnect_def closesocket_def)

lemma follows_put_sock: "prefix (sk_tx (sock c)) (sk_tx t) \<Longrightarrow> follows c [] (put_sock t c)"
  by (simp add: follows_def put_sock_def sock_def split: option.splits)

lemma follows_sent: "c_socket c = Some s \<Longrightarrow> prefix (sk_tx s @ b) (sk_tx t) \<Longrightarrow> follows c b (put_sock t c)"
  by (simp add: follows_def)

lemma follows_put_sock_fs [simp]: "follows c b (put_sock t (put_fs f v)) = follows c b (put_sock t v)"
  by (simp add: follows_def put_sock_def put_fs_def split: option.split)

lemma follows_put_sock_say [simp]: "follows c b (put_sock t (say m v)) = follows c b (put_sock t v)"
  by (simp add: follows_def put_sock_def say_def split: option.split)

lemmas follows_reads = follows_put_sock [OF sent_stays(1)]
lemmas follows_writes = follows_put_sock [OF sent_stays(2)]

section \<open>Every operation\<close>

lemma receive_response_follows: "follows c [] (snd (receive_response c))"
proof -
  obtain m t where m: "recv_message (c_alloc c) (c_be c) (sock c) = (m, t)" by fastforce
  have "follows c [] (put_sock t c)" by (rule follows_reads [OF recv_message_reads [OF m]])
  then show ?thesis using m by (cases m) (auto simp: receive_response_def)
qed

lemma send_command_follows: "follows c [] (snd (send_command cmd n p k c))"
proof -
  obtain b t where b: "send_message (c_be c) (sock c)
      (make_request cmd (word_of_nat k) (word_of_nat (length n)) (word_of_nat (length (c_username c))))
      (c_username c) n p k = (b, t)" by fastforce
  then have "only_writes (sock c) t" using send_message_writes by (metis snd_conv)
  then have "follows c [] (put_sock t c)" by (rule follows_writes)
  moreover have "follows (put_sock t c) [] (snd (receive_response (put_sock t c)))" by (rule receive_response_follows)
  ultimately show ?thesis
    using b by (cases b) (auto simp: send_command_def Let_def intro: follows_trans)
qed

lemma quit_follows: "follows c [] (snd (quit c))"
proof -
  obtain b t where b: "send_message (c_be c) (sock c) (make_request QUIT 0 0 0) [] [] None 0 = (b, t)" by fastforce
  then have "only_writes (sock c) t" using send_message_writes by (metis snd_conv)
  then have one: "follows c [] (put_sock t c)" by (rule follows_writes)
  obtain r v where r: "receive_response (put_sock t c) = (r, v)" by fastforce
  then have "follows (put_sock t c) [] v" using receive_response_follows [of "put_sock t c"] by simp
  with one have "follows c [] v" by (rule follows_trans)
  then show ?thesis using b r one by (cases b; cases r) (auto simp: quit_def)
qed

lemma upload_loop_writes: "only_writes s (snd (snd (upload_loop c k n f s)))"
proof (induction c k n f s rule: upload_loop.induct)
  case (1 c k n f s)
  obtain b c' ok g where rd: "ifstream_read f c TRANSFER_BUFFER_SIZE = (b, c', ok, g)" by (metis prod_cases4)
  obtain r t where r: "send_all s b (length b) = (r, t)" by fastforce
  note one = send_all_writes [OF r]
  show ?case
  proof (cases "k < n \<and> b \<noteq> [] \<and> r")
    case True
    then have "only_writes t (snd (snd (upload_loop c' (k + length b) n g t)))"
      using "1.IH" [OF _ rd [symmetric] refl refl _ r [symmetric]] by simp
    with True rd r one show ?thesis by (subst upload_loop.simps) (auto intro: only_writes_trans)
  next
    case False
    then show ?thesis using rd r one by (subst upload_loop.simps) auto
  qed
qed

lemma upload_open_file_follows: "follows c [] (snd (upload_open_file n sz d c))"
proof -
  obtain b t where b: "send_message_meta (c_be c) (sock c)
      (make_request UPLOAD sz (word_of_nat (length n)) (word_of_nat (length (c_username c)))) (c_username c) n = (b, t)"
    by fastforce
  then have one: "only_writes (sock c) t" using send_message_meta_writes by (metis snd_conv)
  obtain r g u where r: "upload_loop d 0 (unat sz) (c_fs c) t = (r, g, u)" by (metis prod_cases3)
  then have "only_writes t u" using upload_loop_writes [of t d 0 "unat sz" "c_fs c"] by simp
  with one have two: "only_writes (sock c) u" by (rule only_writes_trans)
  let ?told = "''[Client] Uploading '' @ n @ '' ('' @ to_string (unat sz) @ '' bytes)...''"
  let ?e = "put_sock u (put_fs g (say ?told c))"
  have "follows c [] ?e" using follows_writes [OF two] by simp
  then have "follows c [] (snd (receive_response ?e))" by (rule follows_trans [OF _ receive_response_follows])
  then show ?thesis
    using b r follows_writes [OF one] follows_writes [OF two] by (cases b; cases r) (auto simp: upload_open_file_def Let_def)
qed

lemma upload_file_follows: "follows c [] (snd (upload_file p c))"
proof -
  have "follows c [] (snd (upload_open_file n sz d (put_fs f c)))" for n sz d f
    using upload_open_file_follows [of "put_fs f c" n sz d] by simp
  then show ?thesis
    unfolding upload_file_def by (auto split: prod.split result.split option.split bool.split)
qed

lemma drain_reads: "only_reads s (snd (drain n s))"
proof (induction n s rule: drain.induct)
  case (1 n s)
  obtain r t where r: "recv_all s (min TRANSFER_BUFFER_SIZE n) = (r, t)" by fastforce
  note one = recv_all_reads [OF r]
  show ?case
  proof (cases "0 < n \<and> r \<noteq> None")
    case True
    then obtain bs where bs: "r = Some bs" by blast
    then have "only_reads t (snd (drain (n - min TRANSFER_BUFFER_SIZE n) t))"
      using "1.IH" [OF _ refl r [symmetric] bs] True by simp
    with True r bs one show ?thesis by (subst drain.simps) (auto simp: Let_def intro: only_reads_trans)
  next
    case False
    then show ?thesis using r one by (subst drain.simps) (auto simp: Let_def)
  qed
qed

lemma download_refused_follows: "follows c [] (snd (download_refused h c))"
  using follows_reads [OF recv_all_reads, of c "unat (payload_length h)"]
  by (auto simp: download_refused_def split: prod.split option.split)

lemma download_open_file_follows: "follows c [] (snd (download_open_file n k h c))"
proof -
  obtain r f t where r: "save_loop h k (c_fs c) (sock c) = (r, f, t)" by (metis prod_cases3)
  then have "only_reads (sock c) t" using save_loop_reads [of "sock c" h k "c_fs c"] by simp
  then have "follows c [] (put_sock t c)" by (rule follows_reads)
  then show ?thesis using r
    by (cases r) (auto simp: download_open_file_def split: prod.split result.split)
qed

lemma download_body_follows: "follows c [] (snd (download_body n h c))"
proof -
  have "follows c [] (put_sock t c)" if "drain k (sock c) = (b, t)" for k b t
    using drain_reads [of "sock c" k] that by (intro follows_reads) simp
  moreover have "follows c [] (snd (download_open_file n k h (put_fs f (say m c))))" for k h f m
    using download_open_file_follows [of "put_fs f (say m c)" n k h] by simp
  ultimately show ?thesis unfolding download_body_def Let_def
    by (auto split: prod.split result.split option.split bool.split)
qed

text \<open>
  What a download does once its request is out: it reads the response, and whatever that is
  nothing more is sent.
\<close>

lemma download_file_follows_from:
  assumes "is_connected c" and "c_username c \<noteq> []"
    and "send_message_meta (c_be c) (sock c)
      (make_request DOWNLOAD 0 (word_of_nat (length n)) (word_of_nat (length (c_username c)))) (c_username c) n = (True, t)"
    and "follows c b (put_sock t c)"
  shows "follows c b (snd (download_file n c))"
proof -
  obtain m u where m: "recv_message_meta (c_alloc c) (c_be c) t = (m, u)" by fastforce
  have con: "c_socket c \<noteq> None" using assms(1) by (simp add: is_connected_def)
  then have "follows (put_sock t c) [] (put_sock u (put_sock t c))"
    using recv_message_meta_reads [OF m] by (intro follows_reads) auto
  moreover have "put_sock u (put_sock t c) = put_sock u c" using con by (auto simp: put_sock_def)
  ultimately have two: "follows c b (put_sock u c)" using follows_trans [OF assms(4)] by simp
  then have "follows c b (snd (download_refused h (put_sock u c)))" "follows c b (snd (download_body n h (put_sock u c)))" for h
    using download_refused_follows download_body_follows follows_trans by blast+
  then show ?thesis using assms(1-3) m two
    by (cases m) (auto simp: download_file_def Let_def)
qed

lemma download_file_follows: "follows c [] (snd (download_file n c))"
proof -
  obtain b t where b: "send_message_meta (c_be c) (sock c)
      (make_request DOWNLOAD 0 (word_of_nat (length n)) (word_of_nat (length (c_username c)))) (c_username c) n = (b, t)"
    by fastforce
  then have "only_writes (sock c) t" using send_message_meta_writes by (metis snd_conv)
  then have one: "follows c [] (put_sock t c)" by (rule follows_writes)
  show ?thesis
  proof (cases "is_connected c \<and> c_username c \<noteq> [] \<and> b")
    case True
    then show ?thesis using b one by (intro download_file_follows_from) simp_all
  next
    case False
    then show ?thesis using b one by (auto simp: download_file_def Let_def)
  qed
qed

section \<open>The command line\<close>

lemma perform_follows: "follows c [] (snd (perform x c))"
proof (cases x)
  case (Op_Login u)
  have "follows (c\<lparr>c_username := u\<rparr>) [] (snd (send_command LOGIN [] None 0 (c\<lparr>c_username := u\<rparr>)))"
    by (rule send_command_follows)
  then have "follows c [] (snd (send_command LOGIN [] None 0 (c\<lparr>c_username := u\<rparr>)))"
    by (simp add: follows_from_cong [of "c\<lparr>c_username := u\<rparr>" c])
  then show ?thesis using Op_Login by (simp add: login_def)
qed (simp_all add: client_list_files_def client_delete_file_def client_rename_file_def send_command_follows
    upload_file_follows download_file_follows)

lemma call_client: "fst (snd (call k r)) = snd r"
  by (auto simp: call_def split: prod.split result.split)

lemma run_command_follows: "follows c [] (fst (snd (run_command cmd a c k)))"
proof -
  note ops = perform_follows [of c "Op_Login a"] perform_follows [of c Op_List] perform_follows [of c "Op_Upload a"]
    perform_follows [of c "Op_Download a"] perform_follows [of c "Op_Delete a"]
  have rename: "follows c [] (snd (client_rename_file x y c))" for x y using perform_follows [of c "Op_Rename x y"] by simp
  have quit: "follows c [] v" if "quit c = (r, v)" for r v using quit_follows [of c] that by simp
  have usage: "follows c [] (print_help c)" by (simp add: print_help_def)
  show ?thesis
    unfolding run_command_def with_argument_def using ops rename quit usage
    by (auto simp: call_client split: option.split prod.split result.split)
qed

lemma process_command_follows: "follows c [] (fst (snd (process_command line c k)))"
  by (simp add: process_command_def run_command_follows split: prod.split)

lemma run_lines_follows: "follows c [] (fst (snd (run_lines ls c k)))"
proof (induction ls c k rule: run_lines.induct)
  case (1 c k)
  then show ?case by simp
next
  case (2 l ls c k)
  have step: "follows c [] (fst (snd (process_command l' (prompt c) k)))" for l'
    using process_command_follows [of "prompt c" l' k] by simp
  show ?case
  proof (cases "k \<and> is_connected c")
    case True
    show ?thesis
    proof (cases "trim l")
      case None
      then show ?thesis using True "2.IH"(1) by simp
    next
      case (Some l')
      obtain r v k' where p: "process_command l' (prompt c) k = (r, v, k')" by (metis prod_cases3)
      then have v: "follows c [] v" using step [of l'] by simp
      show ?thesis
      proof (cases r)
        case (Value u)
        then have "follows v [] (fst (snd (run_lines ls v k')))" using "2.IH"(2) [OF True Some p [symmetric] Value refl] by simp
        with v have "follows c [] (fst (snd (run_lines ls v k')))" by (rule follows_trans)
        then show ?thesis using True Some p Value by simp
      qed (use True Some p v in simp)
    qed
  qed auto
qed

section \<open>Requests\<close>

text \<open>An operation sends its whole request, whatever is answered.\<close>

lemma send_command_sends:
  assumes "c_socket c = Some s" and "send_contract s" and "send_reliable s"
    and "request_fits (Req cmd (c_username c) n b)" and "cmd \<noteq> UPLOAD" and "p = Some b \<or> p = None \<and> b = []"
  shows "follows c (request_wire (Req cmd (c_username c) n b)) (snd (send_command cmd n p (length b) c))"
proof -
  let ?r = "Req cmd (c_username c) n b"
  obtain a where a: "send_message (c_be c) s (request_header ?r) (c_username c) n p (length b) = (True, a)"
      "sk_tx a = sk_tx s @ request_wire ?r"
    using send_message_request [OF assms(2,3), of ?r p "c_be c"] assms(4-6) by auto
  have "follows c (request_wire ?r) (put_sock a c)" using a(2) by (intro follows_sent [OF assms(1)]) simp
  then have "follows c (request_wire ?r) (snd (receive_response (put_sock a c)))"
    by (rule follows_trans [OF _ receive_response_follows])
  then show ?thesis using a(1) assms(1) by (simp add: send_command_def request_header_def Let_def)
qed

lemma perform_sends:
  assumes "c_socket c = Some s" and "wire_ok s" and "desk src P D (c_fs c)" and "op_fits src P D (c_username c) x"
  shows "follows c (request_wire (op_request src (c_username c) x)) (snd (perform x c))"
proof -
  from assms(2) have wire: "send_contract s" "send_reliable s" by simp_all
  have con: "is_connected c" using assms(1) by (simp add: is_connected_def)
  note one = send_command_sends [OF assms(1) wire]
  show ?thesis
  proof (cases x)
    case (Op_Login u)
    let ?c = "c\<lparr>c_username := u\<rparr>"
    have "follows ?c (request_wire (Req LOGIN (c_username ?c) [] [])) (snd (send_command LOGIN [] None (length ([] :: bytes)) ?c))"
      using assms Op_Login by (intro send_command_sends [OF _ wire]) auto
    then show ?thesis using Op_Login con by (simp add: login_def follows_from_cong [of ?c c])
  next
    case Op_List
    then show ?thesis using one [of LIST "[]" "[]" None] assms(4) con by (simp add: client_list_files_def)
  next
    case (Op_Delete n)
    then show ?thesis using one [of DELETE_F n "[]" None] assms(4) con by (simp add: client_delete_file_def)
  next
    case (Op_Rename a b)
    then show ?thesis using one [of RENAME a b "Some b"] assms(4) con by (simp add: client_rename_file_def)
  next
    case (Op_Upload p)
    with assms(3,4) have up: "c_username c \<noteq> []" "healthy (c_fs c)" "fs_find (c_fs c) p = Some (File (src p))"
        "request_fits (Req UPLOAD (c_username c) (path_filename p) (src p))" by (auto simp: desk_def)
    obtain e b where e: "upload_file p c = receive_response e" "c_socket e = Some b"
        "sk_tx b = sk_tx s @ request_wire (Req UPLOAD (c_username c) (path_filename p) (src p))" "c_closed e = c_closed c"
      by (rule upload_file_sent [OF assms(1) wire up])
    then have "follows c (request_wire (op_request src (c_username c) x)) e"
      using assms(1) Op_Upload by (simp add: follows_def)
    then show ?thesis using follows_trans [OF _ receive_response_follows] e(1) Op_Upload by simp
  next
    case (Op_Download n)
    let ?r = "Req DOWNLOAD (c_username c) n []"
    from Op_Download assms(4) have down: "c_username c \<noteq> []" "request_fits ?r" by auto
    have fits: "fits_meta (request_header ?r) (c_username c) n" using request_meta [OF down(2)] by simp
    obtain a where a: "send_message_meta (c_be c) s (request_header ?r) (c_username c) n = (True, a)"
        "sk_tx a = sk_tx s @ request_wire ?r"
      using send_message_meta_wire [OF wire fits] by (auto simp: request_wire_def)
    have "follows c (request_wire ?r) (put_sock a c)" using a(2) by (intro follows_sent [OF assms(1)]) simp
    then have "follows c (request_wire ?r) (snd (download_file n c))"
      using a(1) assms(1) con down(1) by (intro download_file_follows_from) (simp_all add: request_header_def)
    then show ?thesis using Op_Download by simp
  qed
qed

lemma quit_sends:
  assumes "c_socket c = Some s" and "wire_ok s"
  shows "follows c (request_wire (Req QUIT [] [] [])) (snd (quit c))"
proof -
  let ?r = "Req QUIT [] [] []"
  have r: "request_header ?r = make_request QUIT 0 0 0" "request_fits ?r" by (simp_all add: request_header_def request_fits_def)
  obtain a where a: "send_message (c_be c) s (make_request QUIT 0 0 0) [] [] None 0 = (True, a)"
      "sk_tx a = sk_tx s @ request_wire ?r"
    using send_message_request [of s ?r None "c_be c"] assms(2) r by auto
  have "follows c (request_wire ?r) (put_sock a c)" using a(2) by (intro follows_sent [OF assms(1)]) simp
  moreover obtain q v where q: "receive_response (put_sock a c) = (q, v)" by fastforce
  moreover have "follows (put_sock a c) [] v" using receive_response_follows [of "put_sock a c"] q by simp
  ultimately have "follows c (request_wire ?r) v" by (blast intro: follows_trans)
  then show ?thesis using a(1) q assms(1) by (cases q) (auto simp: quit_def)
qed

end
