(* ===== verification/End_To_End.thy ===== *)
theory End_To_End
  imports Client_Trace
begin

text \<open>
  Client and server together: what a user types at the command line of src/src/client/cli.cpp,
  against what the session of src/src/server/server.cpp answers. The two sides meet in the abstract
  server of theory \<open>Server_Spec\<close>: its replies are what the client reads, the requests
  of the typed lines are what the server reads.
\<close>

section \<open>What a typed session asks for\<close>

fun ops_requests :: "(bytes \<Rightarrow> bytes) \<Rightarrow> bytes \<Rightarrow> op list \<Rightarrow> request list" where
  "ops_requests src u [] = []"
| "ops_requests src u (x # xs) = op_request src u x # ops_requests src (op_user u x) xs"

fun ops_fit :: "(bytes \<Rightarrow> bytes) \<Rightarrow> bytes set \<Rightarrow> bytes set \<Rightarrow> bytes \<Rightarrow> op list \<Rightarrow> bool" where
  "ops_fit src P D u [] \<longleftrightarrow> True"
| "ops_fit src P D u (x # xs) \<longleftrightarrow> op_fits src P D u x \<and> op_typable x \<and> ops_fit src P D (op_user u x) xs"

text \<open>
  The local disk after the session, from the abstract server's replies. A listing is only shown,
  so its text does not matter here.
\<close>

fun session_disk :: "filesys \<Rightarrow> (bytes \<Rightarrow> bytes) \<Rightarrow> bytes \<Rightarrow> store \<Rightarrow> op list \<Rightarrow> (loc \<Rightarrow> node option) \<Rightarrow> loc \<Rightarrow> node option" where
  "session_disk f src u M [] m = m"
| "session_disk f src u M (x # xs) m =
     (case spec_reply [] (op_request src u x) u M of
        (reply, u', M') \<Rightarrow> session_disk f src u' M' xs (disk_after f x reply m))"

section \<open>The replies fit\<close>

definition store_fits :: "store \<Rightarrow> bool" where
  "store_fits M \<longleftrightarrow> (\<forall>k d. M k = Some d \<longrightarrow> length d < 2 ^ 64 - 1)"

lemma store_fits_upd:
  "store_fits M \<Longrightarrow> length d < 2 ^ 64 - 1 \<Longrightarrow> store_fits (M(k \<mapsto> d))"
  "store_fits M \<Longrightarrow> store_fits (M(k := None))"
  "store_fits M \<Longrightarrow> store_fits (M(k := None, j := M k))"
  unfolding store_fits_def by (metis fun_upd_apply option.inject option.distinct(1))+

lemma spec_reply_fits:
  assumes "op_fits src P D u x" and "store_fits M" and "spec_reply l (op_request src u x) u M = (reply, u', M')"
    and "rq_command (op_request src u x) = LIST \<Longrightarrow> length l < 2 ^ 31"
  shows "reply_fits x reply" and "u' = op_user u x" and "store_fits M'"
proof -
  have fit: "length d < 2 ^ 64 - 1" if "M k = Some d" for k d using assms(2) that unfolding store_fits_def by blast
  show "reply_fits x reply"
  proof (cases x)
    case (Op_Login v)
    with assms(1,3) show ?thesis by (auto simp: request_fits_def)
  next
    case (Op_Download n)
    with assms(1,3) fit [of "(u, n)"] show ?thesis
      by (auto simp: must_login_def split: if_splits option.splits)
  qed (use assms(3,4) in \<open>auto simp: must_login_def split: if_splits\<close>)
  show "u' = op_user u x"
    using assms(3) by (cases x) (auto split: if_splits option.splits)
  show "store_fits M'"
  proof (cases x)
    case (Op_Upload p)
    with assms show ?thesis by (auto simp: request_fits_def intro: store_fits_upd)
  next
    case (Op_Rename a b)
    with assms(2,3) show ?thesis by (auto intro: store_fits_upd split: if_splits)
  qed (use assms(2,3) in \<open>auto intro: store_fits_upd split: if_splits option.splits\<close>)
qed

lemma disk_after_cases:
  "disk_after f x reply m = (case x of
     Op_Download n \<Rightarrow> if fst reply = OK then (with_dirs m (dl_dir f))(dl_at f n \<mapsto> File (snd reply)) else m
   | _ \<Rightarrow> m)"
proof (cases "fst reply = OK")
  case True
  then obtain d where "reply = (OK, d)" by (cases reply) simp
  then show ?thesis by (cases x) simp_all
next
  case False
  with refused_or_ok show ?thesis by (cases x) simp_all
qed

text \<open>What a listing says leaves no trace on the local disk.\<close>

lemma disk_after_listing:
  assumes "spec_reply l (op_request src u x) u M = (reply, u', M')"
  obtains reply' where "spec_reply [] (op_request src u x) u M = (reply', u', M')" and "disk_after f x reply' m = disk_after f x reply m"
proof -
  obtain reply' where r: "spec_reply [] (op_request src u x) u M = (reply', u', M')"
    using spec_reply_state [of l "op_request src u x" u M] assms
    by (cases "spec_reply [] (op_request src u x) u M") simp
  have "reply' = reply \<or> x = Op_List"
    using r assms spec_reply_listing [of "op_request src u x" l u M] by (cases x) auto
  then have "disk_after f x reply' m = disk_after f x reply m" by (auto simp: disk_after_cases)
  with r show thesis by (rule that)
qed

lemma dl_places_env: "fs_env g = fs_env f \<Longrightarrow> dl_at g = dl_at f \<and> dl_dir g = dl_dir f"
  by (simp add: dl_at_def dl_dir_def fs_env_def fun_eq_iff)

lemma disk_after_env:
  assumes "fs_env g = fs_env f"
  shows "disk_after g x reply m = disk_after f x reply m"
proof -
  note env = dl_places_env [OF assms]
  show ?thesis unfolding disk_after_cases env [THEN conjunct1] env [THEN conjunct2] by (rule refl)
qed

lemma session_disk_env:
  assumes "fs_env g = fs_env f"
  shows "session_disk g src u M xs m = session_disk f src u M xs m"
  by (induction xs arbitrary: u M m) (simp_all add: disk_after_env [OF assms] split: prod.split)

lemma desk_after:
  assumes "desk src P D f" and "op_fits src P D u x" and "fs_env g = fs_env f" and "fs_at g = disk_after f x reply (fs_at f)"
  shows "desk src P D g"
proof (cases "\<exists>n. x = Op_Download n \<and> fst reply = OK")
  case True
  then obtain n where n: "x = Op_Download n" "fst reply = OK" by blast
  then have "n \<in> D" using assms(2) by simp
  with n show ?thesis using desk_download [OF assms(1) _ assms(3)] assms(4) unfolding disk_after_cases by simp
next
  case False
  then have same: "fs_at g = fs_at f" using assms(4) unfolding disk_after_cases by (cases x) simp_all
  have res: "fs_resolve g = fs_resolve f" "healthy g = healthy f" using assms(3) healthy_env [OF assms(3)] by (simp_all add: fs_env_def)
  then show ?thesis using assms(1)
    by (simp add: desk_def can_keep_def same fs_find_def dl_at_def dl_dir_def disk_ok_def way_clear_def)
qed

section \<open>The client's side of a session\<close>

lemma run_typed_line:
  assumes "op_typable x" and "is_connected c" and "perform x (prompt c) = (Value b, v)"
  shows "run_lines (typed x # later) c True = run_lines later v True"
  using assms trim_typed [OF assms(1)] process_op [OF assms(1), of "prompt c" True] by (simp add: call_def)

lemma client_session:
  assumes "c_socket c = Some s" and "wire_ok s" and "\<And>n. c_alloc c n" and "desk src P D (c_fs c)"
    and "ops_fit src P D (c_username c) ops" and "store_fits M"
    and "listings_short lst (ops_requests src (c_username c) ops)"
    and "spec_session lst (ops_requests src (c_username c) ops) (c_username c) M = (out, su, M')" and "sk_rx s = out @ rest"
  obtains v t where "run_lines (map typed ops @ later) c True = run_lines later v True" and "c_socket v = Some t"
    and "sk_tx t = sk_tx s @ concat (map request_wire (ops_requests src (c_username c) ops))" and "sk_rx t = rest"
    and "wire_ok t" and "c_username v = su" and "c_closed v = c_closed c" and "c_alloc v = c_alloc c"
    and "fs_env (c_fs v) = fs_env (c_fs c)"
    and "fs_at (c_fs v) = session_disk (c_fs c) src (c_username c) M ops (fs_at (c_fs c))" and "desk src P D (c_fs v)"
  using assms
proof (induction ops arbitrary: c s M out lst thesis)
  case Nil
  then show ?case by simp
next
  case (Cons x xs)
  let ?u = "c_username c"
  obtain reply u1 M1 where sp: "spec_reply (lst 0) (op_request src ?u x) ?u M = (reply, u1, M1)" by (metis prod_cases3)
  have x: "op_fits src P D ?u x" "op_typable x" "ops_fit src P D (op_user ?u x) xs" using Cons.prems(6) by simp_all
  have short: "rq_command (op_request src ?u x) = LIST \<Longrightarrow> length (lst 0) < 2 ^ 31"
      "listings_short (\<lambda>i. lst (Suc i)) (ops_requests src (op_user ?u x) xs)" using Cons.prems(8) by simp_all
  note fits = spec_reply_fits [OF x(1) Cons.prems(7) sp short(1)]
  obtain k out1 where out1: "spec_session (\<lambda>i. lst (Suc i)) (ops_requests src (op_user ?u x) xs) u1 M1 = (out1, su, M')"
      "out = response_wire k reply @ out1" using Cons.prems(9) sp by (auto split: prod.splits)
  obtain r v where run: "perform x (prompt c) = (r, v)" by fastforce
  have "exchanged src (prompt c) x reply (out1 @ rest) (perform x (prompt c))"
    using Cons.prems(2-6,10) fits(1) out1(2) by (intro perform_exchange [where P = P and D = D and k = k]) auto
  then obtain t where v: "r = Value (op_accepted x reply)" "c_socket v = Some t"
      "sk_tx t = sk_tx s @ request_wire (op_request src ?u x)" "sk_rx t = out1 @ rest" "wire_ok t"
      "c_username v = op_user ?u x" "c_alloc v = c_alloc c" "c_closed v = c_closed c" "fs_env (c_fs v) = fs_env (c_fs c)"
      "fs_at (c_fs v) = disk_after (c_fs c) x reply (fs_at (c_fs c))"
    using run Cons.prems(2) by (auto simp: exchanged_def)
  have desk: "desk src P D (c_fs v)" by (rule desk_after [OF Cons.prems(5) x(1) v(9,10)])
  have line: "run_lines (map typed (x # xs) @ later) c True = run_lines (map typed xs @ later) v True"
    using run_typed_line [OF x(2), of c _ v "map typed xs @ later"] run v(1) Cons.prems(2) by (simp add: is_connected_def)
  show ?case
  proof (rule Cons.IH [OF _ v(2,5) _ desk _ fits(3) _ _ v(4)])
    show "c_alloc v n" for n using Cons.prems(4) v(7) by simp
    show "ops_fit src P D (c_username v) xs" using x(3) v(6) by simp
    show "listings_short (\<lambda>i. lst (Suc i)) (ops_requests src (c_username v) xs)" using short(2) v(6) by simp
    show "spec_session (\<lambda>i. lst (Suc i)) (ops_requests src (c_username v) xs) (c_username v) M1 = (out1, su, M')"
      using out1(1) v(6) fits(2) by simp
  next
    fix v' t'
    assume IH: "run_lines (map typed xs @ later) v True = run_lines later v' True" "c_socket v' = Some t'"
      "sk_tx t' = sk_tx t @ concat (map request_wire (ops_requests src (c_username v) xs))" "sk_rx t' = rest" "wire_ok t'"
      "c_username v' = su" "c_closed v' = c_closed v" "c_alloc v' = c_alloc v" "fs_env (c_fs v') = fs_env (c_fs v)"
      "fs_at (c_fs v') = session_disk (c_fs v) src (c_username v) M1 xs (fs_at (c_fs v))"
      "desk src P D (c_fs v')"
    obtain reply' where reply': "spec_reply [] (op_request src ?u x) ?u M = (reply', u1, M1)"
        "disk_after (c_fs c) x reply' (fs_at (c_fs c)) = disk_after (c_fs c) x reply (fs_at (c_fs c))"
      using disk_after_listing [OF sp] .
    show ?thesis
      by (rule Cons.prems(1) [OF line [unfolded IH(1)] IH(2) _ IH(4-6) _ _ _ _ IH(11)])
        (use IH v reply' fits(2) session_disk_env [OF v(9)] in simp_all)
  qed
qed

lemma quit_wire:
  assumes "c_socket c = Some s" and "wire_ok s" and "\<And>n. c_alloc c n"
    and "sk_rx s = response_wire k reply @ rest" and "length (snd reply) < 2 ^ 31"
  obtains v t where "quit c = (Value True, v)" and "c_socket v = None" and "c_closed v = c_closed c @ [closesocket t]"
    and "sk_tx t = sk_tx s @ request_wire (Req QUIT [] [] [])" and "sk_rx t = rest" and "c_fs v = c_fs c"
proof -
  let ?r = "Req QUIT [] [] []"
  have r: "request_header ?r = make_request QUIT 0 0 0" "request_fits ?r" by (simp_all add: request_header_def request_fits_def)
  obtain a where a: "send_message (c_be c) s (make_request QUIT 0 0 0) [] [] None 0 = (True, a)"
      "sk_tx a = sk_tx s @ request_wire ?r" "only_writes s a"
    using send_message_request [of s ?r None "c_be c"] assms(2) r by auto
  note A = only_writes_contracts [OF a(3)]
  obtain t where t: "receive_response (put_sock a c) = (Value (accepted reply), say (response_line reply) (put_sock t (put_sock a c)))"
      "sk_rx t = rest" "only_reads a t"
    using receive_response_wire [of "put_sock a c" a k reply rest] assms A by auto
  let ?v = "disconnect (say (response_line reply) (put_sock t (put_sock a c)))"
  have "quit c = (Value True, ?v)" using a(1) t(1) assms(1) by (simp add: quit_def)
  with a t assms(1) only_reads_contracts [OF t(3)] show thesis by (intro that [of ?v t]) simp_all
qed

section \<open>Ahead of the answers\<close>

text \<open>All that a client has sent on its last connection, open or closed.\<close>

definition sent :: "client \<Rightarrow> bytes" where
  "sent v = sk_tx (case c_socket v of Some t \<Rightarrow> t | None \<Rightarrow> last (c_closed v))"

lemma follows_sent_prefix: "follows c b v \<Longrightarrow> c_socket c = Some s \<Longrightarrow> prefix (sk_tx s @ b) (sent v)"
  by (auto simp: follows_def sent_def)

lemma trim_quit: "trim ''quit'' = Some ''quit''"
  by (rule trim_plain) (simp_all add: is_blank_def)

lemma process_quit: "process_command ''quit'' c k =
    (case quit c of (Raised, c) \<Rightarrow> (Raised, c, k) | (Value _, c) \<Rightarrow> (Value (), c, False))"
  using bare_command(2) [of "''quit''" "''quit''" c k] by simp

text \<open>The next line sends its request, whatever comes in then.\<close>

lemma next_line_sends:
  assumes "c_socket c = Some s" and "wire_ok s" and "desk src P D (c_fs c)"
    and "op_fits src P D (c_username c) x" and "op_typable x"
  shows "follows c (request_wire (op_request src (c_username c) x)) (fst (snd (run_lines (typed x # ls) c True)))"
proof -
  let ?b = "request_wire (op_request src (c_username c) x)"
  obtain r v where r: "perform x (prompt c) = (r, v)" by fastforce
  have "follows (prompt c) ?b (snd (perform x (prompt c)))"
    using perform_sends [of "prompt c" s src P D x] assms by simp
  then have v: "follows c ?b v" using r by simp
  then have "follows c ?b (fst (snd (run_lines ls v True)))" by (rule follows_trans [OF _ run_lines_follows])
  then show ?thesis
    using r v assms(1) trim_typed [OF assms(5)] process_op [OF assms(5), of "prompt c" True]
    by (cases r) (simp_all add: is_connected_def call_def)
qed

lemma quit_line_sends:
  assumes "c_socket c = Some s" and "wire_ok s"
  shows "follows c (request_wire (Req QUIT [] [] [])) (fst (snd (run_lines [''quit''] c True)))"
proof -
  obtain r v where r: "quit (prompt c) = (r, v)" by fastforce
  have "follows c (request_wire (Req QUIT [] [] [])) v"
    using quit_sends [of "prompt c" s] assms r by simp
  then show ?thesis using r assms(1) by (cases r) (simp_all add: is_connected_def trim_quit process_quit)
qed

lemma ops_requests_append:
  "ops_requests src u (xs @ ys) = ops_requests src u xs @ ops_requests src (foldl op_user u xs) ys"
  by (induction xs arbitrary: u) simp_all

lemma ops_requests_take: "ops_requests src u (take i ops) = take i (ops_requests src u ops)"
  by (induction ops arbitrary: u i) (simp_all add: take_Cons split: nat.split)

lemma length_ops_requests [simp]: "length (ops_requests src u ops) = length ops"
  by (induction ops arbitrary: u) simp_all

lemma ops_fit_append:
  "ops_fit src P D u (xs @ ys) \<longleftrightarrow> ops_fit src P D u xs \<and> ops_fit src P D (foldl op_user u xs) ys"
  by (induction xs arbitrary: u) simp_all

lemma session_ok_take: "session_ok N su rs \<Longrightarrow> session_ok N su (take i rs)"
  by (induction N su rs arbitrary: i rule: session_ok.induct) (simp_all add: take_Cons split: nat.split)

lemma listings_short_take: "listings_short lst rs \<Longrightarrow> listings_short lst (take i rs)"
  by (induction lst rs arbitrary: i rule: listings_short.induct) (simp_all add: take_Cons split: nat.split)

lemma spec_session_user: "spec_session lst (ops_requests src u ops) u M = (out, su, M') \<Longrightarrow> su = foldl op_user u ops"
proof (induction ops arbitrary: u M out lst)
  case (Cons x xs)
  have "next_user u (op_request src u x) = op_user u x" by (cases x) (simp_all add: next_user_def)
  then show ?case using Cons spec_reply_user [of "lst 0" "op_request src u x" u M] by (auto split: prod.splits)
qed simp

text \<open>With the replies to the first i operations in, the client has sent its first i + 1 requests.\<close>

lemma client_ahead:
  assumes "c_socket c = Some s" and "wire_ok s" and "\<And>n. c_alloc c n" and "desk src P D (c_fs c)"
    and "ops_fit src P D (c_username c) ops" and "store_fits M" and "i < length ops"
    and "listings_short lst (ops_requests src (c_username c) ops)"
    and "spec_session lst (take i (ops_requests src (c_username c) ops)) (c_username c) M = (out, su, M')"
    and "sk_rx s = out @ rest" and "run_lines (map typed ops @ ls) c True = (r, v, k)"
  shows "prefix (sk_tx s @ concat (map request_wire (take (Suc i) (ops_requests src (c_username c) ops)))) (sent v)"
proof -
  let ?u = "c_username c" and ?x = "ops ! i"
  have split: "ops = take i ops @ ?x # drop (Suc i) ops" using assms(7) by (rule id_take_nth_drop)
  have fit: "ops_fit src P D ?u (take i ops)" "op_fits src P D (foldl op_user ?u (take i ops)) ?x" "op_typable ?x"
    using assms(5) by (subst (asm) split, simp add: ops_fit_append)+
  have short: "listings_short lst (ops_requests src ?u (take i ops))"
    unfolding ops_requests_take by (rule listings_short_take [OF assms(8)])
  have sp: "spec_session lst (ops_requests src ?u (take i ops)) ?u M = (out, su, M')"
    using assms(9) by (simp add: ops_requests_take)
  obtain v1 t where v1: "run_lines (map typed (take i ops) @ map typed (?x # drop (Suc i) ops) @ ls) c True
        = run_lines (map typed (?x # drop (Suc i) ops) @ ls) v1 True" "c_socket v1 = Some t"
      "sk_tx t = sk_tx s @ concat (map request_wire (ops_requests src ?u (take i ops)))" "wire_ok t" "c_username v1 = su"
      "fs_env (c_fs v1) = fs_env (c_fs c)" "desk src P D (c_fs v1)"
    using client_session [OF assms(1-4) fit(1) assms(6) short sp assms(10)] by metis
  have su: "su = foldl op_user ?u (take i ops)" by (rule spec_session_user [OF sp])
  have "map typed ops @ ls = map typed (take i ops) @ map typed (?x # drop (Suc i) ops) @ ls"
    by (subst split) simp
  then have "run_lines (map typed (?x # drop (Suc i) ops) @ ls) v1 True = (r, v, k)" using assms(11) v1(1) by simp
  then have "follows v1 (request_wire (op_request src su ?x)) v"
    using next_line_sends [OF v1(2,4,7), of ?x "map typed (drop (Suc i) ops) @ ls"] fit su v1(5) by simp
  then have "prefix (sk_tx t @ request_wire (op_request src su ?x)) (sent v)" by (rule follows_sent_prefix [OF _ v1(2)])
  moreover have "ops_requests src ?u ops ! i = op_request src su ?x"
    by (subst split) (simp add: ops_requests_append nth_append su less_imp_le [OF assms(7)] min_def)
  ultimately show ?thesis using v1(3) assms(7) by (simp add: take_Suc_conv_app_nth ops_requests_take)
qed

section \<open>Whole sessions\<close>

lemma client_whole_session:
  assumes "c_socket c = Some s" and "wire_ok s" and "\<And>n. c_alloc c n" and "desk src P D (c_fs c)"
    and "ops_fit src P D (c_username c) ops" and "store_fits M"
    and "listings_short lst (ops_requests src (c_username c) ops)"
    and "spec_session lst (ops_requests src (c_username c) ops) (c_username c) M = (out, su, M')"
    and "sk_rx s = out @ response_wire k reply @ rest" and "length (snd reply) < 2 ^ 31"
  obtains v t where "run_lines (map typed ops @ [''quit'']) c True = (Value (), v, False)" and "c_socket v = None"
    and "c_closed v = c_closed c @ [t]" and "sk_rx t = rest"
    and "sk_tx t = sk_tx s @ concat (map request_wire (ops_requests src (c_username c) ops)) @ request_wire (Req QUIT [] [] [])"
    and "fs_at (c_fs v) = session_disk (c_fs c) src (c_username c) M ops (fs_at (c_fs c))"
proof -
  obtain v1 t1 where v1: "run_lines (map typed ops @ [''quit'']) c True = run_lines [''quit''] v1 True" "c_socket v1 = Some t1"
      "sk_tx t1 = sk_tx s @ concat (map request_wire (ops_requests src (c_username c) ops))"
      "sk_rx t1 = response_wire k reply @ rest" "wire_ok t1" "c_closed v1 = c_closed c" "c_alloc v1 = c_alloc c"
      "fs_at (c_fs v1) = session_disk (c_fs c) src (c_username c) M ops (fs_at (c_fs c))"
    using client_session [OF assms(1-9)] by metis
  have alloc: "c_alloc (prompt v1) n" for n using assms(3) v1(7) by simp
  obtain v2 t2 where v2: "quit (prompt v1) = (Value True, v2)" "c_socket v2 = None"
      "c_closed v2 = c_closed (prompt v1) @ [closesocket t2]" "sk_tx t2 = sk_tx t1 @ request_wire (Req QUIT [] [] [])"
      "sk_rx t2 = rest" "c_fs v2 = c_fs (prompt v1)"
    using quit_wire [of "prompt v1" t1 k reply rest] v1(2,4,5) alloc assms(10) by auto
  have "run_lines [''quit''] v1 True = (Value (), v2, False)"
    using v1(2) v2(1) by (simp add: is_connected_def trim_quit process_quit)
  with v1 v2 show thesis by (intro that [of v2 "closesocket t2"]) (simp_all add: closesocket_def)
qed

text \<open>The server's side: with the first i requests in, their replies are out.\<close>

lemma server_prompt:
  assumes "serving N (m + length rs) w" and "session_ok N [] rs" and "wire_ok s"
    and "sk_rx s = concat (map request_wire rs) @ rest" and "\<And>j. running j"
    and "listings_short (listing_at [] w s) rs"
    and "spec_session (listing_at [] w s) rs [] (store_of N w) = (out, su, M)" and "handle_client running w active s = (r, v, active', t)"
  shows "prefix (sk_tx s @ out) (sk_tx t)"
proof -
  obtain v1 t1 where v1: "session_loop running 0 [] w s = session_loop running (0 + length rs) su v1 t1" "sk_tx t1 = sk_tx s @ out"
    by (rule session_loop_serves [OF assms(1-7), where k = 0], rule that)
  obtain oc u v2 t2 where v2: "session_loop running (0 + length rs) su v1 t1 = (oc, u, v2, t2)" by (metis prod_cases4)
  have "prefix (sk_tx t1) (sk_tx t2)" by (rule session_loop_sends [OF v2])
  moreover have "session_loop running 0 [] w s = (oc, u, v2, t2)" by (rule trans [OF v1(1) v2])
  then have "sk_tx t = sk_tx t2"
    using assms(8) by (cases oc) (auto simp: handle_client_def closesocket_def)
  ultimately show ?thesis using v1(2) by simp
qed

lemma serving_fits: "serving N m w \<Longrightarrow> store_fits (store_of N w)"
  unfolding serving_def store_fits_def by blast

text \<open>
  Client and server joined: each reads what the other sends. By induction on the number of
  exchanged messages, the server has sent the replies to the first i operations.
\<close>

definition joined :: "(nat \<Rightarrow> bool) \<Rightarrow> world \<Rightarrow> int \<Rightarrow> socket \<Rightarrow> client \<Rightarrow> socket \<Rightarrow> bytes list
    \<Rightarrow> unit result \<times> client \<times> bool \<Rightarrow> unit result \<times> world \<times> int \<times> socket \<Rightarrow> bool" where
  "joined running w active k c s lines = (\<lambda>(r, v, on) (r', w', active', t).
     c_socket c = Some s \<and> sk_tx s = [] \<and> sk_tx k = []
     \<and> run_lines lines c True = (r, v, on) \<and> handle_client running w active k = (r', w', active', t)
     \<and> sk_rx s = sk_tx t \<and> sk_rx k = sent v)"

lemma joined_progress:
  assumes "joined running w active k c s (map typed ops @ [''quit'']) (r, v, on) (r', w', active', t)"
    and "wire_ok s" and "wire_ok k" and "\<And>n. c_alloc c n" and "c_username c = []" and "desk src P D (c_fs c)"
    and "ops_fit src P D [] ops" and "serving N (Suc (length ops)) w" and "session_ok N [] (ops_requests src [] ops)"
    and "\<And>j. running j" and "listings_short (listing_at [] w k) (ops_requests src [] ops)" and "i \<le> length ops"
  shows "prefix (fst (spec_session (listing_at [] w k) (take i (ops_requests src [] ops)) [] (store_of N w))) (sk_tx t)"
  using assms(12)
proof (induction i)
  case (Suc i)
  let ?R = "ops_requests src [] ops" and ?M = "store_of N w"
  from assms(1) have j: "c_socket c = Some s" "sk_tx s = []" "sk_tx k = []" "run_lines (map typed ops @ [''quit'']) c True = (r, v, on)"
      "handle_client running w active k = (r', w', active', t)" "sk_rx s = sk_tx t" "sk_rx k = sent v"
    by (simp_all add: joined_def)
  obtain out su M' where sp: "spec_session (listing_at [] w k) (take i ?R) [] ?M = (out, su, M')" by (metis prod_cases3)
  then obtain rest where "sk_rx s = out @ rest" using Suc j(6) by (auto simp: prefix_def)
  then have "prefix (concat (map request_wire (take (Suc i) ?R))) (sk_rx k)"
    using client_ahead [OF j(1) assms(2,4,6), of ops ?M i "listing_at [] w k" out su M' rest "[''quit'']" r v on]
      assms(5,7,11) serving_fits [OF assms(8)] Suc.prems sp j by simp
  then obtain rest' where rest': "sk_rx k = concat (map request_wire (take (Suc i) ?R)) @ rest'" by (auto simp: prefix_def)
  obtain out' su' M'' where sp': "spec_session (listing_at [] w k) (take (Suc i) ?R) [] ?M = (out', su', M'')" by (metis prod_cases3)
  have "serving N (Suc (length ops) - Suc i + length (take (Suc i) ?R)) w" using assms(8) Suc.prems by simp
  then have "prefix (sk_tx k @ out') (sk_tx t)"
    using session_ok_take [OF assms(9)] listings_short_take [OF assms(11)] assms(3,10) rest' sp' j(5)
    by (intro server_prompt)
  then show ?case using sp' j(3) by simp
qed simp

end
