(* ===== verification/World_Safety.thy ===== *)
theory World_Safety
  imports Server
begin

text \<open>
  What no client and no fault can break: the shared state of the server stays well-formed
  through every session, whatever bytes arrive, whichever calls to the disk fail and however
  often. This is the type invariant of the state; what the operations do to well-behaved
  requests is the subject of theories \<open>File_Store\<close>, \<open>Store_Sync\<close> and \<open>Server_Spec\<close>.
\<close>

section \<open>A well-formed disk stays well-formed\<close>

text \<open>Every place has one node, and everything lies in a directory.\<close>

definition disk_typed :: "filesys \<Rightarrow> bool" where
  "disk_typed f \<longleftrightarrow> disk_ok f \<and> distinct (map fst (fs_nodes f))"

lemma disk_typed_calls [simp]: "disk_typed (f\<lparr>fs_calls := k\<rparr>) = disk_typed f"
  by (simp add: disk_typed_def)

lemma disk_ok_put_dir:
  assumes "disk_ok f" and "q \<noteq> []" and "fs_is_dir f (butlast q)"
  shows "disk_ok (fs_put f q Dir)"
  unfolding disk_ok_def
proof (intro conjI allI impI)
  show "fs_at (fs_put f q Dir) [] = None" using assms by (simp add: disk_ok_def)
next
  fix l k
  assume k: "fs_at (fs_put f q Dir) k \<noteq> None \<and> strict_prefix l k \<and> l \<noteq> []"
  then have "fs_at f l = Some Dir"
    using disk_ok_parent [OF assms(1,3)] assms(1) by (cases "k = q") (auto simp: disk_ok_def)
  then show "fs_at (fs_put f q Dir) l = Some Dir" by simp
qed

lemma disk_typed_put_file:
  "disk_typed f \<Longrightarrow> q \<noteq> [] \<Longrightarrow> fs_is_dir f (butlast q) \<Longrightarrow> fs_at f q \<noteq> Some Dir \<Longrightarrow> disk_typed (fs_put f q (File c))"
  unfolding disk_typed_def by (simp add: disk_ok_put_file) (simp add: fs_put_def distinct_update)

lemma disk_typed_put_dir:
  "disk_typed f \<Longrightarrow> q \<noteq> [] \<Longrightarrow> fs_is_dir f (butlast q) \<Longrightarrow> disk_typed (fs_put f q Dir)"
  unfolding disk_typed_def by (simp add: disk_ok_put_dir) (simp add: fs_put_def distinct_update)

text \<open>A file is in a directory, so appending to it keeps the disk.\<close>

lemma disk_ok_in_dir:
  assumes "disk_ok f" and "fs_at f q \<noteq> None"
  shows "q \<noteq> []" and "fs_is_dir f (butlast q)"
proof -
  show q: "q \<noteq> []" using assms by (auto simp: disk_ok_def)
  then have "strict_prefix (butlast q) q" by (cases q rule: rev_cases) (auto simp: strict_prefix_def)
  with assms show "fs_is_dir f (butlast q)" by (auto simp: disk_ok_def fs_is_dir_def)
qed

lemma disk_typed_rewrite: "disk_typed f \<Longrightarrow> fs_at f q = Some (File d) \<Longrightarrow> disk_typed (fs_put f q (File c))"
  using disk_ok_in_dir [of f q] by (auto simp: disk_typed_def intro!: disk_typed_put_file [unfolded disk_typed_def, THEN conjunct1]
      disk_typed_put_file [unfolded disk_typed_def, THEN conjunct2])

lemma children_none:
  assumes "disk_ok f" and "distinct (map fst (fs_nodes f))" and "fs_children f q = []" and "fs_at f k \<noteq> None" and "q \<noteq> []"
  shows "\<not> strict_prefix q k"
proof
  assume "strict_prefix q k"
  then obtain n ns where k: "k = q @ n # ns" by (meson strict_prefixE')
  have "fs_at f (q @ [n]) \<noteq> None"
  proof (cases ns)
    case Nil
    then show ?thesis using assms(4) k by simp
  next
    case (Cons a as)
    then have "strict_prefix (q @ [n]) k" using k by (simp add: strict_prefix_def)
    then show ?thesis using assms(1,4) by (auto simp: disk_ok_def)
  qed
  with assms(3) show False using map_of_children [of f q n] by simp
qed

lemma disk_typed_del:
  assumes "disk_typed f" and "\<And>k. fs_at f k \<noteq> None \<Longrightarrow> \<not> strict_prefix q k"
  shows "disk_typed (fs_del f q)"
proof -
  have "disk_ok (fs_del f q)"
    using assms unfolding disk_typed_def disk_ok_def fs_at_simps by (auto split: if_splits)
  with assms(1) show ?thesis by (simp add: disk_typed_def fs_del_def distinct_delete)
qed

text \<open>\<open>create_directories\<close> may stop half-way at a file; the directories made so far stay.\<close>

lemma make_dirs_typed:
  assumes "disk_typed f" and "fs_is_dir f l" and "make_dirs (map ((@) l) (tl (prefixes p))) f = (r, g)"
  shows "disk_typed g"
  using assms
proof (induction p arbitrary: l f)
  case (Cons x p)
  have ps: "map ((@) l) (tl (prefixes (x # p))) = (l @ [x]) # map ((@) (l @ [x])) (tl (prefixes p))"
    by (cases p) (simp_all add: o_def)
  show ?case
  proof (cases "fs_at f (l @ [x])")
    case None
    let ?f = "fs_put f (l @ [x]) Dir"
    have "disk_typed ?f" using Cons.prems(1,2) by (intro disk_typed_put_dir) simp_all
    moreover have "fs_is_dir ?f (l @ [x])" by (simp add: fs_is_dir_def)
    moreover have "make_dirs (map ((@) (l @ [x])) (tl (prefixes p))) ?f = (r, g)"
      using Cons.prems(3) None unfolding ps by simp
    ultimately show ?thesis by (rule Cons.IH)
  next
    case (Some n)
    show ?thesis
    proof (cases n)
      case Dir
      then have "fs_is_dir f (l @ [x])" using Some by (simp add: fs_is_dir_def)
      moreover have "make_dirs (map ((@) (l @ [x])) (tl (prefixes p))) f = (r, g)"
        using Cons.prems(3) Some Dir unfolding ps by simp
      ultimately show ?thesis by (rule Cons.IH [OF Cons.prems(1)])
    next
      case (File c)
      then show ?thesis using Cons.prems(1,3) Some unfolding ps by simp
    qed
  qed
qed simp

lemma create_directories_typed: "disk_typed f \<Longrightarrow> fs_create_directories f p = (r, g) \<Longrightarrow> disk_typed g"
  using make_dirs_typed [of "f\<lparr>fs_calls := Suc (fs_calls f)\<rparr>" "[]" "fs_resolve f p" r g]
    map_idI [of "tl (prefixes (fs_resolve f p))" "(@) []"]
  by (auto simp: fs_create_directories_def fs_tick_def fs_is_dir_def split: if_splits)

lemma remove_typed: "disk_typed f \<Longrightarrow> fs_remove f p = (r, g) \<Longrightarrow> disk_typed g"
proof -
  assume a: "disk_typed f" "fs_remove f p = (r, g)"
  let ?l = "fs_resolve f p"
  have ok: "disk_ok f" "distinct (map fst (fs_nodes f))" using a(1) by (simp_all add: disk_typed_def)
  have leaf: "\<not> strict_prefix ?l k"
    if "fs_at f ?l = Some (File c) \<or> fs_at f ?l = Some Dir \<and> fs_children f ?l = []" "fs_at f k \<noteq> None" for k c
    using that file_is_leaf [OF ok(1), of ?l c k] children_none [OF ok, of ?l k] disk_ok_in_dir(1) [OF ok(1), of ?l]
    by (auto simp: strict_prefix_def)
  have "disk_typed (fs_del (f\<lparr>fs_calls := Suc (fs_calls f)\<rparr>) ?l)"
    if "fs_at f ?l = Some (File c) \<or> fs_at f ?l = Some Dir \<and> fs_children f ?l = []" for c
    using a(1) leaf [OF that] by (intro disk_typed_del) simp_all
  with a show ?thesis
    by (auto simp: fs_remove_def fs_tick_def Let_def split: if_splits option.splits node.splits)
qed

lemma open_typed: "disk_typed f \<Longrightarrow> ofstream_open f p = (r, g) \<Longrightarrow> disk_typed g"
  by (auto simp: ofstream_open_def fs_tick_def Let_def split: if_splits intro!: disk_typed_put_file)

lemma write_typed: "disk_typed f \<Longrightarrow> ofstream_write f h bs = (h', g) \<Longrightarrow> disk_typed g"
  by (auto simp: ofstream_write_def fs_tick_def split: if_splits option.splits node.splits intro!: disk_typed_rewrite)

text \<open>Renaming: what lay at or below the old place lies at or below the new one, nothing else moves.\<close>

lemma map_of_move_tree:
  assumes "\<And>q. map_of al q \<noteq> None \<Longrightarrow> \<not> prefix m q" and "\<not> prefix l m"
  shows "map_of (map (\<lambda>(k, n). (move_entry l m k, n)) al) q =
    (if prefix m q then map_of al (l @ drop (length m) q) else if prefix l q then None else map_of al q)"
  using assms(1)
proof (induction al)
  case (Cons e al)
  obtain k n where e: "e = (k, n)" by fastforce
  have k: "\<not> prefix m k" using Cons.prems [of k] e by simp
  have "map_of al q \<noteq> None \<Longrightarrow> \<not> prefix m q" for q using Cons.prems [of q] e by (auto split: if_splits)
  note IH = Cons.IH [OF this]
  have moved: "move_entry l m k = q \<longleftrightarrow> (if prefix m q then k = l @ drop (length m) q else \<not> prefix l q \<and> k = q)"
  proof (cases "prefix l k")
    case True
    then show ?thesis by (auto simp: move_entry_def prefix_def)
  next
    case False
    with k show ?thesis by (auto simp: move_entry_def)
  qed
  show ?case using e IH moved by (cases "prefix m q"; cases "prefix l q") (simp_all add: eq_commute)
qed simp

lemma rename_typed:
  assumes "disk_typed f" and "fs_rename f p q = (r, g)"
  shows "disk_typed g"
proof -
  let ?l = "fs_resolve f p" and ?m = "fs_resolve f q" and ?f = "f\<lparr>fs_calls := Suc (fs_calls f)\<rparr>"
  define al where "al = AList.delete ?m (fs_nodes f)"
  have ok: "disk_ok f" "distinct (map fst (fs_nodes f))" using assms(1) by (simp_all add: disk_typed_def)
  have "disk_typed g" if go: "\<not> (fs_at f ?l = None \<or> ?m = [] \<or> \<not> fs_is_dir f (butlast ?m) \<or> fs_at f ?m = Some Dir
        \<or> strict_prefix ?l ?m)" "?l \<noteq> ?m" and g: "g = ?f\<lparr>fs_nodes := map (\<lambda>(k, n). (move_entry ?l ?m k, n)) al\<rparr>"
  proof -
    have at: "map_of al = (fs_at f)(?m := None)" by (auto simp: al_def fs_at_def fun_eq_iff)
    have free: "\<And>k. map_of al k \<noteq> None \<Longrightarrow> \<not> prefix ?m k"
    proof
      fix k
      assume that: "map_of al k \<noteq> None"
      assume "prefix ?m k"
      with that at have "strict_prefix ?m k" "fs_at f k \<noteq> None" by (auto simp: strict_prefix_def split: if_splits)
      with ok(1) go show False by (auto simp: disk_ok_def)
    qed
    have nl: "\<not> prefix ?l ?m" using go by (auto simp: strict_prefix_def)
    have l: "?l \<noteq> []" using disk_ok_root [OF ok(1)] go(1) by auto
    have gat: "fs_at g k = (if prefix ?m k then map_of al (?l @ drop (length ?m) k) else if prefix ?l k then None else map_of al k)" for k
      by (simp add: fs_at_def g map_of_move_tree [OF free nl])
    have above: "fs_at f k = Some Dir" if "strict_prefix k ?m" "k \<noteq> []" for k
      using disk_ok_parent [OF ok(1) _ that] go(1) by simp
    have "disk_ok g"
      unfolding disk_ok_def
    proof (intro conjI allI impI)
      show "fs_at g [] = None" using gat [of "[]"] go(1) at l ok(1) by (simp add: disk_ok_def)
    next
      fix a k
      assume k: "fs_at g k \<noteq> None \<and> strict_prefix a k \<and> a \<noteq> []"
      show "fs_at g a = Some Dir"
      proof (cases "prefix ?m a")
        case True
        then obtain b where b: "a = ?m @ b" by (rule prefixE)
        from k obtain c where c: "k = a @ c" "c \<noteq> []" by (metis strict_prefixE' list.distinct(1))
        note abc = b c [unfolded b append_assoc]
        then have "fs_at f (?l @ b @ c) \<noteq> None" "strict_prefix (?l @ b) (?l @ b @ c)"
          using k gat [of k] at by (auto simp: strict_prefix_def split: if_splits)
        then have "fs_at f (?l @ b) = Some Dir" using ok(1) l by (auto simp: disk_ok_def)
        moreover have "?l @ b \<noteq> ?m" using nl prefixI [of ?m ?l b] by metis
        ultimately show ?thesis using gat [of a] abc(1) at by simp
      next
        case nma: False
        have "fs_at f a = Some Dir"
        proof (cases "prefix ?m k")
          case True
          then have "strict_prefix a ?m" using k nma by (metis prefix_same_cases strict_prefix_def)
          then show ?thesis using above k by blast
        next
          case False
          then have "fs_at f k \<noteq> None" using k gat [of k] at by (auto split: if_splits)
          then show ?thesis using k ok(1) by (auto simp: disk_ok_def)
        qed
        moreover have "\<not> prefix ?l a"
        proof
          assume la: "prefix ?l a"
          then have "prefix ?l k" using k by (metis prefix_order.trans strict_prefix_def)
          then have "prefix ?m k" using k gat [of k] by (auto split: if_splits)
          then have "prefix a ?m" using k nma by (metis prefix_same_cases strict_prefix_def)
          with la nl show False using prefix_order.trans by blast
        qed
        moreover have "a \<noteq> ?m" using nma by auto
        ultimately show ?thesis using gat [of a] nma at by simp
      qed
    qed
    moreover have "inj_on (move_entry ?l ?m) (set (map fst al))"
    proof (rule inj_onI)
      fix x y
      assume xy: "x \<in> set (map fst al)" "y \<in> set (map fst al)" "move_entry ?l ?m x = move_entry ?l ?m y"
      have "map_of al z \<noteq> None" if "z \<in> set (map fst al)" for z using that by (simp add: map_of_eq_None_iff)
      with xy free have "\<not> prefix ?m x" "\<not> prefix ?m y" by blast+
      with xy(3) show "x = y" by (auto simp: move_entry_def prefix_def split: if_splits)
    qed
    then have "distinct (map fst (fs_nodes g))"
    proof -
      have "map fst (fs_nodes g) = map (move_entry ?l ?m) (map fst al)"
        by (simp add: g case_prod_unfold)
      moreover have "distinct (map fst al)" using ok(2) by (simp add: al_def distinct_delete)
      ultimately show ?thesis using \<open>inj_on (move_entry ?l ?m) (set (map fst al))\<close> by (metis distinct_map)
    qed
    ultimately show ?thesis by (simp add: disk_typed_def)
  qed
  with assms show ?thesis
    by (auto simp: fs_rename_def fs_tick_def Let_def al_def split: if_splits)
qed

section \<open>The lock table and the whole state\<close>

text \<open>
  One entry for a key, and no two entries the same object. How high a count is does not
  matter here, so it may wrap around.
\<close>

definition locks_typed :: "lock_table \<Rightarrow> bool" where
  "locks_typed t \<longleftrightarrow> distinct (map fst (lt_locks t)) \<and> (\<forall>k i. lock_id t k = Some i \<longrightarrow> i < lt_next t)
     \<and> (\<forall>j k i. lock_id t j = Some i \<and> lock_id t k = Some i \<longrightarrow> j = k)"

lemma locks_typedD: "locks_typed t \<Longrightarrow> map_of (lt_locks t) k = Some e \<Longrightarrow> le_id e < lt_next t"
  unfolding locks_typed_def lock_id_def by fastforce

lemma acquire_typed:
  assumes "locks_typed t" and "acquire_lock_ref k t = (h, u)"
  shows "locks_typed u"
proof -
  have "h < lt_next u \<and> lt_next t \<le> lt_next u \<and> (lock_id t k = Some h \<or> lock_id t k = None \<and> h = lt_next t)"
    using acquire_map [OF assms(2)] locks_typedD [OF assms(1), of k]
    by (cases "map_of (lt_locks t) k") (simp_all add: lock_id_def)
  moreover have "distinct (map fst (lt_locks u))"
    using assms by (auto simp: locks_typed_def acquire_lock_ref_def Let_def distinct_update split: if_splits option.splits)
  ultimately show ?thesis
    using assms(1) acquire_id [OF assms(2)] unfolding locks_typed_def by (auto split: if_splits dest: less_le_trans)
qed

lemma release_typed: "locks_typed t \<Longrightarrow> locks_typed (release_lock_ref k t)"
proof -
  assume t: "locks_typed t"
  then have "distinct (map fst (lt_locks (release_lock_ref k t)))"
    by (auto simp: locks_typed_def release_lock_ref_def Let_def distinct_update distinct_delete split: option.split)
  with t release_id [of k t] show ?thesis unfolding locks_typed_def by (auto split: if_splits)
qed

definition world_typed :: "world \<Rightarrow> bool" where
  "world_typed w \<longleftrightarrow> index_ok (w_index w) \<and> locks_typed (w_locks w) \<and> disk_typed (w_fs w)"

lemma world_typed_parts [intro]:
  "world_typed w \<Longrightarrow> disk_typed f \<Longrightarrow> world_typed (set_fs f w)"
  "world_typed w \<Longrightarrow> world_typed (lock_ref k w)"
  "world_typed w \<Longrightarrow> world_typed (unlock_ref k w)"
  "world_typed w \<Longrightarrow> world_typed (index_add d n sz w)"
  "world_typed w \<Longrightarrow> world_typed (index_remove d n w)"
  "world_typed w \<Longrightarrow> disk_typed (w_fs w)"
  using acquire_typed [OF _ prod.collapse [symmetric]] 
  by (auto simp: world_typed_def world_defs release_typed index_ok_add_file index_ok_remove_file)

section \<open>The file operations keep it\<close>

lemma save_loop_typed: "save_loop h n f s = (b, g, t) \<Longrightarrow> disk_typed f \<Longrightarrow> disk_typed g"
proof (induction h n f s rule: save_loop.induct)
  case (1 h n f s)
  obtain r s1 where r: "recv_all s (min TRANSFER_BUFFER_SIZE n) = (r, s1)" by fastforce
  show ?case
  proof (cases "0 < n \<and> r \<noteq> None")
    case True
    then obtain bs where bs: "r = Some bs" by blast
    obtain h1 f1 where w: "ofstream_write f h bs = (h1, f1)" by fastforce
    have "save_loop h1 (n - min TRANSFER_BUFFER_SIZE n) f1 s1 = (b, g, t)"
      using "1.prems"(1) True r bs w by (subst (asm) save_loop.simps) (simp add: Let_def)
    then show ?thesis
      using "1.IH" [OF _ refl r [symmetric] bs w [symmetric]] True write_typed [OF "1.prems"(2) w] by blast
  next
    case False
    then show ?thesis using "1.prems" r by (subst (asm) save_loop.simps) (auto simp: Let_def split: if_splits)
  qed
qed

lemma save_file_typed:
  assumes "world_typed w" and "save_file u n sz w s = (b, v, t)"
  shows "world_typed v \<and> env_of v = env_of w"
proof -
  have body: "world_typed v' \<and> env_of v' = env_of w'" if w': "world_typed w'" and r: "save_body u n sz w' s' = (r', v', t')" for w' v' s' t' r'
  proof -
    note l = world_typed_parts(2) [OF w', of "file_path u n"]
    note D = world_typed_parts(6) [OF w']
    show ?thesis
      using r l unfolding save_body_def Let_def
      by (auto split: prod.splits option.splits bool.splits result.splits
          intro!: world_typed_parts(1-5) dest!: open_typed [OF D] dest: save_loop_typed remove_typed)
  qed
  have "world_typed v' \<and> env_of v' = env_of w" if "save_try u n sz w s = (r', v', t')" for r' v' t'
  proof -
    note D = world_typed_parts(6) [OF assms(1)]
    have made: "disk_typed g" if "fs_create_directories (w_fs w\<lparr>fs_calls := k\<rparr>) p = (c, g)" for k p c g
      using create_directories_typed [OF _ that] D by simp
    have kept: "world_typed (set_fs g w)" if "disk_typed g" for g using world_typed_parts(1) [OF assms(1) that] .
    have rest: "world_typed v' \<and> env_of v' = env_of w"
      if "save_body u n sz (set_fs g w) s = (r', v', t')" "disk_typed g" for g
      using body [OF kept [OF that(2)] that(1)] by simp
    show ?thesis
      using that D rest [of "w_fs w\<lparr>fs_calls := Suc (fs_calls (w_fs w))\<rparr>"] unfolding save_try_def Let_def
      by (auto split: prod.splits bool.splits result.splits if_splits
          intro!: kept dest!: fs_exists_frame made dest: rest)
  qed
  with assms(2) show ?thesis by (auto simp: save_file_def split: prod.splits result.splits)
qed

lemma stream_typed:
  assumes "world_typed w" and "stream_file_to_socket u n w s = (b, v, t)"
  shows "world_typed v \<and> env_of v = env_of w"
proof -
  note D = world_typed_parts(6) [OF assms(1)]
  have kept: "world_typed (set_fs (w_fs w\<lparr>fs_calls := k\<rparr>) (lock_ref (file_path u n) w))" for k
    using world_typed_parts(1,2) [OF assms(1)] D world_typed_parts(1) [OF world_typed_parts(2) [OF assms(1)]] by simp
  show ?thesis
    using assms kept unfolding stream_file_to_socket_def Let_def
    by (auto split: if_splits prod.splits option.splits bool.splits
        intro!: world_typed_parts(3) dest!: stream_loop_frame ifstream_open_frame)
qed

lemma delete_file_typed:
  assumes "world_typed w" and "delete_file u n w = (b, v)"
  shows "world_typed v \<and> env_of v = env_of w"
proof -
  note D = world_typed_parts(6) [OF assms(1)]
  show ?thesis
    using assms unfolding delete_file_def Let_def
    by (auto split: if_splits prod.splits result.splits
        intro!: world_typed_parts(1-5) dest!: remove_typed [OF D])
qed

lemma rename_file_typed:
  assumes "world_typed w" and "rename_file u a b w = (r, v)"
  shows "world_typed v \<and> env_of v = env_of w"
proof -
  note D = world_typed_parts(6) [OF assms(1)]
  have blocked: "\<exists>k. g = w_fs w\<lparr>fs_calls := k\<rparr>" if "rename_blocked p q (w_fs w) = (x, g)" for p q x g
    using that by (auto simp: rename_blocked_def split: prod.splits result.splits bool.splits dest!: fs_exists_frame)
  have moved: "disk_typed g" if "fs_rename (w_fs w\<lparr>fs_calls := k\<rparr>) p q = (c, g)" for k p q c g
    using rename_typed [OF _ that] D by simp
  show ?thesis
    using assms D unfolding rename_file_def Let_def
    by (auto split: if_splits prod.splits result.splits bool.splits
        intro!: world_typed_parts(1-5) dest!: blocked moved)
qed

section \<open>So do requests and sessions\<close>

lemma send_file_typed:
  assumes "world_typed w" and "send_file cmd u n sz w s = (r, u', v, t)"
  shows "world_typed v \<and> env_of v = env_of w \<and> r \<noteq> Threw"
  using assms by (auto simp: send_file_def Let_def split: prod.splits bool.splits dest: stream_typed)

lemma dispatch_typed:
  assumes "world_typed w" and "dispatch h u n p su w s = (r, su', v, t)"
  shows "world_typed v \<and> env_of v = env_of w \<and> r \<noteq> Threw"
proof (cases "to_command (command h)")
  case None
  then show ?thesis using assms by (auto simp: dispatch_def Let_def dest!: respond_rest)
next
  case (Some c)
  show ?thesis
    using assms Some
    by (cases c) (auto simp: dispatch_def Let_def split: if_splits prod.splits bool.splits
        dest!: respond_rest dest: save_file_typed delete_file_typed rename_file_typed send_file_typed)
qed

lemma serve_request_typed:
  assumes "world_typed w" and "serve_request su w s = (r, su', v, t)"
  shows "world_typed v \<and> env_of v = env_of w"
  using assms by (auto simp: serve_request_def split: prod.splits received.splits if_splits dest: dispatch_typed)

lemma session_loop_typed:
  "session_loop running k su w s = (r, su', v, t) \<Longrightarrow> world_typed w \<Longrightarrow> world_typed v \<and> env_of v = env_of w \<and> r \<noteq> Again"
proof (induction running k su w s rule: session_loop.induct)
  case (1 running k su w s)
  obtain oc su1 w1 s1 where turn: "serve_request su w s = (oc, su1, w1, s1)" by (metis prod_cases4)
  note first = serve_request_typed [OF "1.prems"(2) turn]
  show ?case
  proof (cases "running k \<and> oc = Again")
    case True
    then have "session_loop running (Suc k) su1 w1 s1 = (r, su', v, t)"
      using "1.prems"(1) turn by (subst (asm) session_loop.simps) simp
    then show ?thesis using "1.IH" [OF _ turn [symmetric]] True first by simp
  next
    case False
    then show ?thesis using "1.prems" turn first
      by (subst (asm) session_loop.simps) (cases oc; auto split: if_splits)
  qed
qed

section \<open>The property\<close>

text \<open>C6: whatever a client sends, however the connection and the disk fail, the shared state of
  the server stays well-formed: the index has one entry per directory and name and no empty
  directory, the lock table one object per key, the disk one node per place, each in a
  directory. \<open>handle_client\<close> ends in one of two ways: it returns with the socket closed and the
  counter of connections where it was, or an exception leaves it and the connection stays counted.\<close>

theorem any_session_keeps_types:
  assumes "world_typed w" and "handle_client running w active s = (r, v, active', t)"
  shows "world_typed v \<and> env_of v = env_of w
    \<and> (r = Value () \<and> active' = active \<and> \<not> sk_open t \<or> r = Raised \<and> active' = active + 1)"
proof -
  obtain oc u v1 t1 where l: "session_loop running 0 [] w s = (oc, u, v1, t1)" by (metis prod_cases4)
  with session_loop_typed [OF l assms(1)] assms(2) show ?thesis
    by (cases oc) (auto simp: handle_client_def closesocket_def)
qed

text \<open>Here every second call to the disk fails while a client logs in and uploads.\<close>

theorem any_session_keeps_types_witness:
  "let w = (sample_world home_nodes)\<lparr>w_fs := (sample_disk home_nodes)\<lparr>fs_fault := odd\<rparr>\<rparr>;
       s = prompt_socket (header_wire (make_request LOGIN 0 0 3) @ ''bob'' @ header_wire (make_request UPLOAD 5 3 0) @ ''newhel'');
       (r, v, active, t) = handle_client (\<lambda>j. True) w 3 s
   in world_typed v"
proof -
  let ?w = "(sample_world home_nodes)\<lparr>w_fs := (sample_disk home_nodes)\<lparr>fs_fault := odd\<rparr>\<rparr>"
  let ?s = "prompt_socket (header_wire (make_request LOGIN 0 0 3) @ ''bob'' @ header_wire (make_request UPLOAD 5 3 0) @ ''newhel'')"
  have "distinct (map fst home_nodes)" by (simp add: home_nodes_def)
  then have "disk_typed ((sample_disk home_nodes)\<lparr>fs_fault := odd\<rparr>)"
    using disk_ok_home(1) by (simp add: disk_typed_def disk_ok_def fs_at_def)
  then have "world_typed ?w"
    by (simp add: world_typed_def sample_world_def locks_typed_def lock_id_def no_locks_def)
  then show ?thesis
    using any_session_keeps_types [of ?w "\<lambda>j. True" 3 ?s]
    by (cases "handle_client (\<lambda>j. True) ?w 3 ?s" rule: prod_cases4) simp
qed

end
