(* ===== verification/Client_Safety.thy ===== *)
theory Client_Safety
  imports World_Safety Client_Trace
begin

text \<open>
  What no server can do to its client: src/src/client/client.cpp and cli.cpp against a server that
  sends any bytes, on a network and a disk that fail at any moment. The client's disk stays
  well-formed, it changes only where the user's downloads go, and no exception leaves the
  command line unless memory runs out or a call to the disk fails.
\<close>

section \<open>The disk\<close>

abbreviation dl_home :: "filesys \<Rightarrow> loc" where
  "dl_home f \<equiv> fs_resolve f ''downloads''"

abbreviation dl_place :: "filesys \<Rightarrow> bytes \<Rightarrow> loc" where
  "dl_place f n \<equiv> fs_resolve f (dl_path n)"

text \<open>
  From one disk to the other only the directories of \<open>downloads\<close> were made and files at the
  places of the names \<open>ns\<close> changed, and no directory has gone.
\<close>

definition confined :: "bytes list \<Rightarrow> filesys \<Rightarrow> filesys \<Rightarrow> bool" where
  "confined ns f g \<longleftrightarrow>
     disk_typed g \<and> fs_env g = fs_env f \<and> (\<forall>l. fs_at f l = Some Dir \<longrightarrow> fs_at g l = Some Dir)
     \<and> (\<forall>l. fs_at g l = fs_at f l \<or> fs_at g l = Some Dir \<and> prefix l (dl_home f) \<or> l \<in> dl_place f ` set ns)"

lemma confined_refl: "disk_typed f \<Longrightarrow> confined ns f f"
  by (simp add: confined_def)

lemma confined_trans:
  assumes "confined ns f g" and "confined ns g h"
  shows "confined ns f h"
proof -
  have "fs_at h l = fs_at f l \<or> fs_at h l = Some Dir \<and> prefix l (dl_home f) \<or> l \<in> dl_place f ` set ns" for l
    using assms unfolding confined_def fs_env_def by (metis prod.inject)
  with assms show ?thesis unfolding confined_def by metis
qed

lemma confined_mono: "confined ns f g \<Longrightarrow> set ns \<subseteq> set ms \<Longrightarrow> confined ms f g"
  unfolding confined_def by blast

lemma confined_typed: "confined ns f g \<Longrightarrow> disk_typed g"
  by (simp add: confined_def)

lemma confined_calls [simp]:
  "confined ns (f\<lparr>fs_calls := k\<rparr>) g = confined ns f g" "confined ns f (g\<lparr>fs_calls := k\<rparr>) = confined ns f g"
  by (simp_all add: confined_def)

lemma confined_put:
  "disk_typed (fs_put (f\<lparr>fs_calls := k\<rparr>) (dl_place f n) (File bs)) \<Longrightarrow> fs_at f (dl_place f n) \<noteq> Some Dir \<Longrightarrow>
   confined [n] f (fs_put (f\<lparr>fs_calls := k\<rparr>) (dl_place f n) (File bs))"
  by (auto simp: confined_def)

lemma open_confined:
  assumes "disk_typed f" and "ofstream_open f (dl_path n) = (r, g)"
  shows "confined [n] f g \<and> (\<forall>h. r = Some h \<longrightarrow> of_loc h = dl_place f n \<and> fs_at g (of_loc h) = Some (File []))"
  using assms open_typed [OF assms]
  by (auto simp: ofstream_open_def fs_tick_def Let_def split: if_splits intro!: confined_refl confined_put)

lemma write_confined:
  assumes "disk_typed f" and "ofstream_write f h bs = (h', g)" and "of_loc h = dl_place f n" and "fs_at f (of_loc h) = Some (File c)"
  shows "confined [n] f g \<and> of_loc h' = of_loc h \<and> (\<exists>d. fs_at g (of_loc h) = Some (File d))"
  using assms write_typed [OF assms(1,2)]
  by (auto simp: ofstream_write_def fs_tick_def split: if_splits intro!: confined_refl confined_put)

lemma save_loop_confined:
  "save_loop h k f s = (b, g, t) \<Longrightarrow> disk_typed f \<Longrightarrow> of_loc h = dl_place f n \<Longrightarrow> fs_at f (of_loc h) = Some (File c) \<Longrightarrow>
   confined [n] f g \<and> (\<exists>d. fs_at g (dl_place f n) = Some (File d))"
proof (induction h k f s arbitrary: c rule: save_loop.induct)
  case (1 h k f s)
  obtain r s1 where r: "recv_all s (min TRANSFER_BUFFER_SIZE k) = (r, s1)" by fastforce
  show ?case
  proof (cases "0 < k \<and> r \<noteq> None")
    case True
    then obtain bs where bs: "r = Some bs" by blast
    obtain h1 f1 where w: "ofstream_write f h bs = (h1, f1)" by fastforce
    from write_confined [OF "1.prems"(2) w "1.prems"(3,4)] obtain d
      where w1: "confined [n] f f1" "of_loc h1 = of_loc h" "fs_at f1 (of_loc h) = Some (File d)" by blast
    have env: "dl_place f1 n = dl_place f n" using w1(1) by (simp add: confined_def fs_env_def)
    have "save_loop h1 (k - min TRANSFER_BUFFER_SIZE k) f1 s1 = (b, g, t)"
      using "1.prems"(1) True r bs w by (subst (asm) save_loop.simps) (simp add: Let_def)
    then have "confined [n] f1 g \<and> (\<exists>d. fs_at g (dl_place f1 n) = Some (File d))"
      using "1.IH" [OF _ refl r [symmetric] bs w [symmetric]] True confined_typed [OF w1(1)] w1(2,3) "1.prems"(3) env by simp
    then show ?thesis using confined_trans [OF w1(1)] env by auto
  next
    case False
    then show ?thesis using "1.prems" r confined_refl [OF "1.prems"(2)]
      by (subst (asm) save_loop.simps) (auto simp: Let_def split: if_splits)
  qed
qed

lemma remove_confined:
  assumes "disk_typed f" and "fs_remove f (dl_path n) = (r, g)" and "fs_at f (dl_place f n) = Some (File c)"
  shows "confined [n] f g \<and> (r = Raised \<longrightarrow> \<not> healthy f)"
  using assms remove_typed [OF assms(1,2)]
  by (auto simp: fs_remove_def fs_tick_def Let_def confined_def healthy_def split: if_splits)

lemma make_dirs_at:
  "make_dirs ls f = (r, g) \<Longrightarrow> fs_at g l = fs_at f l \<or> l \<in> set ls \<and> fs_at f l = None \<and> fs_at g l = Some Dir"
proof (induction ls f rule: make_dirs.induct)
  case (2 k ls f)
  show ?case
  proof (cases "fs_at f k")
    case None
    then have "make_dirs ls (fs_put f k Dir) = (r, g)" using "2.prems" by simp
    then have "fs_at g l = fs_at (fs_put f k Dir) l \<or> l \<in> set ls \<and> fs_at (fs_put f k Dir) l = None \<and> fs_at g l = Some Dir"
      by (rule "2.IH"(1) [OF None])
    with None show ?thesis by (auto split: if_splits)
  next
    case (Some n)
    then show ?thesis using "2.prems" "2.IH"(2) [OF Some] by (cases n) auto
  qed
qed simp

text \<open>When the working directory is there, nothing is in the way of its \<open>downloads\<close>.\<close>

lemma create_confined:
  assumes "disk_typed f" and "fs_create_directories f ''downloads'' = (r, g)"
    and "fs_find f ''downloads'' = None"
  shows "confined ns f g \<and> (r = Raised \<longrightarrow> \<not> healthy f \<or> \<not> fs_is_dir f (butlast (dl_home f)))"
proof -
  let ?f = "f\<lparr>fs_calls := Suc (fs_calls f)\<rparr>"
  have at: "fs_at g l = fs_at f l \<or> prefix l (dl_home f) \<and> fs_at f l = None \<and> fs_at g l = Some Dir" for l
    using assms(2) make_dirs_at [of "tl (prefixes (dl_home f))" ?f r g l]
    by (auto simp: fs_create_directories_def fs_tick_def set_tl_prefixes split: if_splits)
  have "confined ns f g"
    unfolding confined_def
  proof (intro conjI allI impI)
    show "disk_typed g" by (rule create_directories_typed [OF assms(1,2)])
    show "fs_env g = fs_env f" by (rule fs_env_ops(1) [OF assms(2)])
    show "fs_at g l = Some Dir" if "fs_at f l = Some Dir" for l using at [of l] that by simp
    show "fs_at g l = fs_at f l \<or> fs_at g l = Some Dir \<and> prefix l (dl_home f) \<or> l \<in> dl_place f ` set ns" for l
      using at [of l] by blast
  qed
  moreover have "r = Value ()" if "healthy f" "fs_is_dir f (butlast (dl_home f))"
  proof -
    have ok: "disk_ok f" using assms(1) by (simp add: disk_typed_def)
    have "fs_at f l \<noteq> Some (File c)" if "prefix l (dl_home f)" for l c
    proof (cases "l = dl_home f")
      case True
      then show ?thesis using assms(3) by (simp add: fs_find_def)
    next
      case False
      then have "strict_prefix l (dl_home f)" using that by (simp add: strict_prefix_def)
      then show ?thesis using disk_ok_parent [OF ok \<open>fs_is_dir f (butlast (dl_home f))\<close>] disk_ok_root [OF ok] by fastforce
    qed
    then have "way_clear f (dl_home f)" by (simp add: way_clear_def)
    then show ?thesis using create_directories_clear [OF that(1)] assms(2) by (metis prod.inject)
  qed
  ultimately show ?thesis by auto
qed

section \<open>The operations\<close>

text \<open>
  What may make an operation throw: a length that cannot be allocated, a disk that fails, or a
  working directory that is not there.
\<close>

definition excused :: "client \<Rightarrow> bool" where
  "excused c \<longleftrightarrow> (\<exists>n. \<not> c_alloc c n) \<or> \<not> healthy (c_fs c) \<or> \<not> fs_is_dir (c_fs c) (butlast (dl_home (c_fs c)))"

definition harmless :: "bytes list \<Rightarrow> client \<Rightarrow> 'r result \<Rightarrow> client \<Rightarrow> bool" where
  "harmless ns c r d \<longleftrightarrow> confined ns (c_fs c) (c_fs d) \<and> c_alloc d = c_alloc c \<and> (r = Raised \<longrightarrow> excused c)"

lemma c_alloc_disconnect [simp]: "c_alloc (disconnect c) = c_alloc c"
  by (simp add: disconnect_def split: option.split)

lemma excused_cong [simp]:
  "excused (put_sock s c) = excused c" "excused (say m c) = excused c" "excused (disconnect c) = excused c"
  "excused (prompt c) = excused c" "excused (c\<lparr>c_username := u\<rparr>) = excused c"
  "excused (put_fs (f\<lparr>fs_calls := k\<rparr>) c) = excused (put_fs f c)"
  by (simp_all add: excused_def)

lemma harmless_start [simp]:
  "harmless ns (put_sock s c) r d = harmless ns c r d" "harmless ns (say m c) r d = harmless ns c r d"
  "harmless ns (prompt c) r d = harmless ns c r d" "harmless ns (c\<lparr>c_username := u\<rparr>) r d = harmless ns c r d"
  by (simp_all add: harmless_def)

lemma excused_back: "confined ns (c_fs c) (c_fs d) \<Longrightarrow> c_alloc d = c_alloc c \<Longrightarrow> excused d \<Longrightarrow> excused c"
  unfolding excused_def confined_def fs_env_def healthy_def fs_is_dir_def by (metis prod.inject)

lemma harmless_trans: "harmless ns c q d \<Longrightarrow> harmless ns d r e \<Longrightarrow> harmless ns c r e"
  unfolding harmless_def using confined_trans excused_back by metis

lemma harmless_typed: "harmless ns c r d \<Longrightarrow> disk_typed (c_fs d)"
  by (auto simp: harmless_def dest: confined_typed)

lemma harmless_mono: "harmless ns c r d \<Longrightarrow> set ns \<subseteq> set ms \<Longrightarrow> harmless ms c r d"
  by (auto simp: harmless_def dest: confined_mono)

text \<open>Calls that only look leave the disk as it was.\<close>

lemma harmless_same:
  "disk_typed (c_fs c) \<Longrightarrow> c_fs d = c_fs c \<or> (\<exists>k. c_fs d = (c_fs c)\<lparr>fs_calls := k\<rparr>) \<Longrightarrow> c_alloc d = c_alloc c \<Longrightarrow>
   (r = Raised \<Longrightarrow> excused c) \<Longrightarrow> harmless ns c r d"
  by (auto simp: harmless_def confined_refl)

lemma harmless_look:
  "disk_typed (c_fs c) \<Longrightarrow> (r = Raised \<Longrightarrow> excused c) \<Longrightarrow> harmless ns c r (put_fs ((c_fs c)\<lparr>fs_calls := k\<rparr>) c)"
  "disk_typed (c_fs c) \<Longrightarrow> (r = Raised \<Longrightarrow> excused c) \<Longrightarrow> harmless ns c r (put_sock s c)"
  "disk_typed (c_fs c) \<Longrightarrow> (r = Raised \<Longrightarrow> excused c) \<Longrightarrow> harmless ns c r (disconnect (put_sock s c))"
  "disk_typed (c_fs c) \<Longrightarrow> (r = Raised \<Longrightarrow> excused c) \<Longrightarrow> harmless ns c r c"
  by (simp_all add: harmless_def confined_refl)

lemma harmless_raised: "harmless ns c Raised d \<Longrightarrow> harmless ns c Raised d"
  by (simp add: harmless_def)

lemma thrown_field: "recv_field alloc s n = (Thrown, t) \<Longrightarrow> \<exists>k. \<not> alloc k"
  by (auto simp: recv_field_def split: if_splits prod.splits option.splits)

lemma thrown_meta: "recv_message_meta alloc be s = (Thrown, t) \<Longrightarrow> \<exists>k. \<not> alloc k"
  by (auto simp: recv_message_meta_def split: prod.splits option.splits received.splits dest: thrown_field)

lemma thrown_message: "recv_message alloc be s = (Thrown, t) \<Longrightarrow> \<exists>k. \<not> alloc k"
  by (auto simp: recv_message_via_meta split: prod.splits option.splits received.splits dest: thrown_field thrown_meta)

lemma receive_response_harmless: "receive_response c = (r, d) \<Longrightarrow> disk_typed (c_fs c) \<Longrightarrow> harmless ns c r d"
  by (auto simp: receive_response_def excused_def split: prod.splits received.splits intro!: harmless_same dest: thrown_message)

lemma send_command_harmless: "send_command cmd n p k c = (r, d) \<Longrightarrow> disk_typed (c_fs c) \<Longrightarrow> harmless ns c r d"
  by (auto simp: send_command_def Let_def split: prod.splits bool.splits intro: harmless_same
      dest!: receive_response_harmless [where ns = ns])

lemma quit_harmless: "quit c = (r, d) \<Longrightarrow> disk_typed (c_fs c) \<Longrightarrow> harmless ns c r d"
proof -
  assume q: "quit c = (r, d)" and D: "disk_typed (c_fs c)"
  obtain b t where b: "send_message (c_be c) (sock c) (make_request QUIT 0 0 0) [] [] None 0 = (b, t)" by fastforce
  obtain r' e where rr: "receive_response (put_sock t c) = (r', e)" by fastforce
  then have e: "harmless ns c r' e" using receive_response_harmless [OF rr] D by simp
  show ?thesis
  proof (cases b)
    case True
    with q b rr e show ?thesis by (cases r') (auto simp: quit_def harmless_def)
  next
    case False
    with q b D show ?thesis by (auto simp: quit_def intro!: harmless_same)
  qed
qed

section \<open>Uploading only reads\<close>

lemma upload_loop_calls: "upload_loop h k n f s = (b, g, t) \<Longrightarrow> \<exists>j. g = f\<lparr>fs_calls := j\<rparr>"
proof (induction h k n f s rule: upload_loop.induct)
  case (1 h k n f s)
  obtain bs h' ok f1 where rd: "ifstream_read f h TRANSFER_BUFFER_SIZE = (bs, h', ok, f1)" by (metis prod_cases4)
  note f1 = ifstream_read_frame [OF rd]
  obtain r s1 where r: "send_all s bs (length bs) = (r, s1)" by fastforce
  have self: "\<exists>j. f = f\<lparr>fs_calls := j\<rparr>" by (intro exI [of _ "fs_calls f"]) simp
  show ?case
  proof (cases "k < n \<and> bs \<noteq> [] \<and> r")
    case True
    then have "upload_loop h' (k + length bs) n f1 s1 = (b, g, t)" using "1.prems" rd r by (subst (asm) upload_loop.simps) simp
    then show ?thesis using "1.IH" [OF _ rd [symmetric] refl refl _ r [symmetric]] True f1 by auto
  next
    case False
    then show ?thesis using "1.prems" rd r f1 self by (subst (asm) upload_loop.simps) (auto split: if_splits)
  qed
qed

lemma upload_open_harmless: "upload_open_file n sz h c = (r, d) \<Longrightarrow> disk_typed (c_fs c) \<Longrightarrow> harmless ns c r d"
proof -
  assume u: "upload_open_file n sz h c = (r, d)" and D: "disk_typed (c_fs c)"
  obtain b t where b: "send_message_meta (c_be c) (sock c)
      (make_request UPLOAD sz (word_of_nat (length n)) (word_of_nat (length (c_username c)))) (c_username c) n = (b, t)"
    by fastforce
  obtain ok g u' where l: "upload_loop h 0 (unat sz) (c_fs c) t = (ok, g, u')" by (metis prod_cases3)
  then obtain j where g: "g = (c_fs c)\<lparr>fs_calls := j\<rparr>" using upload_loop_calls by blast
  define told where "told = say (''[Client] Uploading '' @ n @ '' ('' @ to_string (unat sz) @ '' bytes)...'') c"
  have one: "harmless ns c (Value ()) (put_sock u' (put_fs g told))" using D g by (auto simp: told_def intro!: harmless_same)
  have resp: "harmless ns c r' e" if "receive_response (put_sock u' (put_fs g told)) = (r', e)" for r' e
    using harmless_trans [OF one receive_response_harmless [OF that harmless_typed [OF one]]] .
  show ?thesis
    using u b l D g resp by (cases b; cases ok) (auto simp: upload_open_file_def Let_def told_def intro!: harmless_same)
qed

lemma upload_file_harmless: "upload_file p c = (r, d) \<Longrightarrow> disk_typed (c_fs c) \<Longrightarrow> harmless ns c r d"
proof -
  assume u: "upload_file p c = (r, d)" and D: "disk_typed (c_fs c)"
  have opened: "harmless ns c r' e" if "upload_open_file n sz h (put_fs ((c_fs c)\<lparr>fs_calls := k\<rparr>) c) = (r', e)" for n sz h k r' e
  proof -
    have "harmless ns c (Value ()) (put_fs ((c_fs c)\<lparr>fs_calls := k\<rparr>) c)" using D by (intro harmless_same) auto
    then show ?thesis using upload_open_harmless [OF that] D by (auto intro: harmless_trans)
  qed
  show ?thesis
  proof (cases "is_connected c \<and> c_username c \<noteq> []")
    case False
    then have "upload_file p c = (Value False, c)" by (auto simp: upload_file_def)
    with u D show ?thesis by (auto intro: harmless_same)
  next
    case True
    with u D opened show ?thesis
      by (auto simp: upload_file_def no_such_file_def fs_exists_def fs_is_regular_def fs_file_size_def fs_tick_def
          excused_def healthy_def split: if_splits result.splits option.splits node.splits prod.splits bool.splits
          intro!: harmless_look dest!: ifstream_open_frame opened)
  qed
qed

section \<open>Downloading writes in one place\<close>

lemma download_refused_harmless: "download_refused h c = (r, d) \<Longrightarrow> disk_typed (c_fs c) \<Longrightarrow> harmless ns c r d"
  by (auto simp: download_refused_def excused_def split: if_splits prod.splits option.splits intro!: harmless_same)

lemma download_open_harmless:
  assumes "download_open_file n k h c = (r, d)" and "disk_typed (c_fs c)"
    and "of_loc h = dl_place (c_fs c) n" and "fs_at (c_fs c) (of_loc h) = Some (File bs)"
  shows "harmless [n] c r d"
proof -
  obtain ok f s where l: "save_loop h k (c_fs c) (sock c) = (ok, f, s)" by (metis prod_cases3)
  from save_loop_confined [OF l assms(2-4)] obtain bs' where
    f: "confined [n] (c_fs c) f" and at: "fs_at f (dl_place (c_fs c) n) = Some (File bs')" by blast
  have env: "dl_place f n = dl_place (c_fs c) n" "healthy f = healthy (c_fs c)"
    using f by (auto simp: confined_def fs_env_def healthy_def)
  obtain q g where rm: "fs_remove f (dl_path n) = (q, g)" by fastforce
  have gone: "confined [n] f g \<and> (q = Raised \<longrightarrow> \<not> healthy f)"
    using remove_confined [OF confined_typed [OF f] rm] at env by simp
  have "confined [n] (c_fs c) g" using confined_trans f gone by blast
  with assms(1) l f rm gone env show ?thesis
    by (cases ok; cases q) (auto simp: download_open_file_def harmless_def excused_def)
qed

text \<open>The directory of the downloads, made when it is missing.\<close>

lemma downloads_made:
  assumes "disk_typed f" and "fs_exists f ''downloads'' = (Value there, f1)"
    and "(if there then (Value (), f1) else fs_create_directories f1 ''downloads'') = (q, g)"
  shows "confined ns f g \<and> (q = Raised \<longrightarrow> \<not> healthy f \<or> \<not> fs_is_dir f (butlast (dl_home f)))"
proof (cases there)
  case True
  with assms show ?thesis by (auto dest!: fs_exists_frame intro: confined_refl)
next
  case False
  have f1: "f1 = f\<lparr>fs_calls := Suc (fs_calls f)\<rparr>" using assms(2) fs_exists_frame by blast
  then have "fs_find f1 ''downloads'' = None" using assms(2) False by (auto simp: fs_exists_def fs_tick_def split: if_splits)
  moreover have "fs_create_directories f1 ''downloads'' = (q, g)" using assms(3) False by simp
  ultimately show ?thesis using create_confined [of f1 q g ns] assms(1) f1 by simp
qed

lemma download_body_harmless:
  assumes "download_body n h c = (r, d)" and D: "disk_typed (c_fs c)"
  shows "harmless [n] c r d"
proof -
  define b where "b = say (''[Client] Downloading '' @ n @ '' ('' @ to_string (unat (payload_length h)) @ '' bytes)...'') c"
  note body = download_body_def [of n h c, unfolded Let_def, folded b_def]
  have b: "c_fs b = c_fs c" "c_alloc b = c_alloc c" by (simp_all add: b_def)
  obtain e f1 where ex: "fs_exists (c_fs c) ''downloads'' = (e, f1)" by fastforce
  have f1: "f1 = (c_fs c)\<lparr>fs_calls := Suc (fs_calls (c_fs c))\<rparr>" using fs_exists_frame [OF ex] .
  show ?thesis
  proof (cases e)
    case Raised
    with ex have "\<not> healthy (c_fs c)" by (auto simp: fs_exists_def fs_tick_def healthy_def split: if_splits)
    with assms ex Raised f1 b show ?thesis by (auto simp: body excused_def intro!: harmless_same)
  next
    case (Value there)
    obtain q f2 where mk: "(if there then (Value (), f1) else fs_create_directories f1 ''downloads'') = (q, f2)" by fastforce
    have ex': "fs_exists (c_fs c) ''downloads'' = (Value there, f1)" using ex Value by simp
    note made = downloads_made [OF D ex' mk, of "[n]"]
    then have two: "harmless [n] c q (put_fs f2 b)" using b by (auto simp: harmless_def excused_def)
    obtain o' f3 where op: "ofstream_open f2 (dl_path n) = (o', f3)" by fastforce
    have D2: "disk_typed f2" using made confined_typed by blast
    note opened = open_confined [OF D2 op]
    then have three: "harmless [n] c (Value ()) (put_fs f3 b)"
      using made confined_trans b by (auto simp: harmless_def)
    have rest: "harmless [n] c r d"
      if "download_open_file n (unat (payload_length h)) out (put_fs f3 b) = (r, d)" "o' = Some out" for out
    proof -
      have "fs_env f3 = fs_env f2" using opened by (simp add: confined_def)
      then have "of_loc out = dl_place (c_fs (put_fs f3 b)) n" "fs_at (c_fs (put_fs f3 b)) (of_loc out) = Some (File [])"
        using opened that(2) by (auto simp: fs_env_def)
      then show ?thesis
        using harmless_trans [OF three download_open_harmless [OF that(1)]] harmless_typed [OF three] by blast
    qed
    show ?thesis
    proof (cases q)
      case Raised
      with assms ex Value mk two b show ?thesis by (auto simp: body dest: harmless_raised split: if_splits)
    next
      case q: (Value u)
      show ?thesis
      proof (cases o')
        case None
        with assms ex Value mk q op three b show ?thesis
          by (auto simp: body harmless_def split: prod.splits bool.splits)
      next
        case (Some out)
        with assms ex Value mk q op rest b show ?thesis by (auto simp: body)
      qed
    qed
  qed
qed

lemma download_file_harmless: "download_file n c = (r, d) \<Longrightarrow> disk_typed (c_fs c) \<Longrightarrow> harmless [n] c r d"
  by (auto simp: download_file_def Let_def excused_def split: if_splits prod.splits bool.splits received.splits
      intro!: harmless_look dest!: thrown_meta download_refused_harmless [where ns = "[n]"] download_body_harmless)

section \<open>The command line\<close>

text \<open>The name a typed line asks to download, if it does.\<close>

definition asked_for :: "bytes \<Rightarrow> bytes list" where
  "asked_for line =
     (case trim line of
        None \<Rightarrow> []
      | Some line \<Rightarrow>
          (case read_word line of
             (word, iss) \<Rightarrow> if map to_lower word = ''download'' \<and> read_argument iss \<noteq> [] then [read_argument iss] else []))"

lemma command_harmless:
  assumes "disk_typed (c_fs c)"
  shows "login u c = (r, d) \<Longrightarrow> harmless ns c r d" "client_list_files c = (r, d) \<Longrightarrow> harmless ns c r d"
    "client_delete_file u c = (r, d) \<Longrightarrow> harmless ns c r d" "client_rename_file u v c = (r, d) \<Longrightarrow> harmless ns c r d"
  using assms send_command_harmless [of LOGIN "[]" None 0 "c\<lparr>c_username := u\<rparr>" r d ns]
  by (auto simp: login_def client_list_files_def client_delete_file_def client_rename_file_def
      intro!: harmless_look dest!: send_command_harmless [where ns = ns] split: if_splits)

lemma call_harmless: "call k p = (q, d, k') \<Longrightarrow> (\<And>r. p = (r, d) \<Longrightarrow> harmless ns c r d) \<Longrightarrow> harmless ns c q d"
  by (auto simp: call_def harmless_def split: prod.splits result.splits)

lemma with_argument_harmless:
  assumes "with_argument usage a f c k = (q, d, k')" and "disk_typed (c_fs c)"
    and "\<And>r d. f a c = (r, d) \<Longrightarrow> harmless ns c r d"
  shows "harmless ns c q d"
proof (cases "a = []")
  case True
  with assms(1,2) show ?thesis by (auto simp: with_argument_def intro!: harmless_same)
next
  case False
  with assms(1) show ?thesis by (auto simp: with_argument_def intro: call_harmless assms(3))
qed

lemma run_command_harmless:
  assumes r: "run_command cmd a c k = (q, d, k')" and D: "disk_typed (c_fs c)"
  shows "harmless (if cmd = ''download'' \<and> a \<noteq> [] then [a] else []) c q d"
proof -
  note ops = command_harmless [OF D]
  note arg = with_argument_harmless [OF _ D]
  have helps: "harmless [] c (Value ()) (print_help c)" using D by (intro harmless_same) (simp_all add: print_help_def)
  have upload: "with_argument u a upload_file c k = (q, d, k') \<Longrightarrow> harmless [] c q d" for u
    using arg upload_file_harmless D by blast
  have download: "with_argument u a download_file c k = (q, d, k') \<Longrightarrow> harmless [a] c q d" for u
    using arg download_file_harmless D by blast
  have loginc: "with_argument u a login c k = (q, d, k') \<Longrightarrow> harmless [] c q d" for u using arg ops(1) by blast
  have deletec: "with_argument u a client_delete_file c k = (q, d, k') \<Longrightarrow> harmless [] c q d" for u using arg ops(3) by blast
  have listc: "call k (client_list_files c) = (q, d, k') \<Longrightarrow> harmless [] c q d" using call_harmless ops(2) by blast
  have renamec: "call k (client_rename_file x y c) = (q, d, k') \<Longrightarrow> harmless [] c q d" for x y using call_harmless ops(4) by blast
  have renames: "(case rename_names a of None \<Rightarrow> (Value (), say u c, k)
      | Some (x, y) \<Rightarrow> call k (client_rename_file x y c)) = (q, d, k') \<Longrightarrow> harmless [] c q d" for u
    using renamec D by (auto intro: harmless_same split: option.splits)
  have quits: "(case quit c of (Raised, c) \<Rightarrow> (Raised, c, k) | (Value _, c) \<Rightarrow> (Value (), c, False)) = (q, d, k') \<Longrightarrow>
      harmless [] c q d"
    using quit_harmless [of c _ d "[]"] D by (fastforce simp: harmless_def split: prod.splits result.splits)
  have shown: "(Value (), say u (say v c), k) = (q, d, k') \<Longrightarrow> harmless [] c q d" for u v using D by (auto intro: harmless_same)
  have helped: "(Value (), print_help c, k) = (q, d, k') \<Longrightarrow> harmless [] c q d" using helps by simp
  show ?thesis
  proof (cases "cmd = ''download''")
    case True
    with r D show ?thesis by (cases "a = []") (auto simp: run_command_def with_argument_def download intro: harmless_same)
  next
    case False
    have "harmless [] c q d"
      using r unfolding run_command_def if_not_P [OF False]
      by (simp only: split: if_split_asm)
        (assumption | erule upload loginc deletec listc renames quits shown helped)+
    with False show ?thesis by simp
  qed
qed

lemma process_command_harmless:
  assumes "process_command line c k = (q, d, k')" and "disk_typed (c_fs c)" and "trim l = Some line"
  shows "harmless (asked_for l) c q d"
  using assms by (auto simp: process_command_def asked_for_def split: prod.splits dest!: run_command_harmless)

lemma run_lines_harmless:
  "run_lines ls c k = (q, d, k') \<Longrightarrow> disk_typed (c_fs c) \<Longrightarrow> harmless (concat (map asked_for ls)) c q d"
proof (induction ls c k arbitrary: q d k' rule: run_lines.induct)
  case (1 c k)
  then show ?case by (auto intro: harmless_same split: if_splits)
next
  case (2 l ls c k)
  let ?ns = "concat (map asked_for (l # ls))"
  show ?case
  proof (cases "k \<and> is_connected c")
    case False
    with "2.prems" show ?thesis by (auto intro: harmless_same)
  next
    case go: True
    show ?thesis
    proof (cases "trim l")
      case None
      then have "harmless (concat (map asked_for ls)) (prompt c) q d" using go "2.prems" "2.IH"(1) by simp
      then show ?thesis by (auto intro: harmless_mono)
    next
      case (Some line)
      obtain p e j where one: "process_command line (prompt c) k = (p, e, j)" by (metis prod_cases3)
      then have "harmless (asked_for l) c p e"
        using process_command_harmless [OF one _ Some] "2.prems"(2) by simp
      then have e: "harmless ?ns c p e" by (auto intro: harmless_mono)
      show ?thesis
      proof (cases p)
        case (Value u)
        then have "run_lines ls e j = (q, d, k')" using "2.prems"(1) go Some one by simp
        then have "harmless (concat (map asked_for ls)) e q d"
          using "2.IH"(2) [OF go Some one [symmetric] Value refl] harmless_typed [OF e] by blast
        then have "harmless ?ns e q d" by (auto intro: harmless_mono)
        then show ?thesis by (rule harmless_trans [OF e])
      next
        case Raised
        with "2.prems"(1) go Some one e show ?thesis by simp
      qed
    qed
  qed
qed

section \<open>The property\<close>

text \<open>C7: no server can harm its client. Whatever bytes come in, however the connection breaks and
  whichever calls to the disk fail, a whole run of the command line leaves the user's disk
  well-formed, removes no directory, and changes nothing but the files at the places of the names
  the user asked to download and the directories that lead to \<open>downloads\<close>. It ends in an exception
  only when some length cannot be allocated, a call to the disk fails or the working
  directory is missing.\<close>

theorem server_cannot_harm_client:
  assumes "disk_typed (c_fs c)" and "cli_run lines c = (r, d, running)"
  shows "disk_typed (c_fs d)
    \<and> (\<forall>l. fs_at (c_fs c) l = Some Dir \<longrightarrow> fs_at (c_fs d) l = Some Dir)
    \<and> (\<forall>l. fs_at (c_fs d) l \<noteq> fs_at (c_fs c) l \<longrightarrow>
         fs_at (c_fs d) l = Some Dir \<and> prefix l (fs_resolve (c_fs c) ''downloads'')
         \<or> (\<exists>n\<in>set (concat (map asked_for lines)). l = fs_resolve (c_fs c) (dl_path n)))
    \<and> (healthy (c_fs c) \<and> fs_is_dir (c_fs c) (butlast (fs_resolve (c_fs c) ''downloads'')) \<and> (\<forall>n. c_alloc c n) \<longrightarrow> r = Value ())"
proof -
  have "harmless (concat (map asked_for lines)) c r d"
    using run_lines_harmless [OF assms(2) [unfolded cli_run_def]] assms(1) by simp
  moreover have "r = Value () \<or> r = Raised" by (cases r) auto
  ultimately show ?thesis by (fastforce simp: harmless_def confined_def excused_def)
qed

text \<open>A server that answers with rubbish: the file next to \<open>downloads\<close> stays.\<close>

theorem server_cannot_harm_client_witness:
  "let (r, d, running) = cli_run [''download b'', ''list''] (demo_client ''rubbish'')
   in r = Value () \<and> disk_typed (c_fs d) \<and> fs_at (c_fs d) [''note.txt''] = Some (File ''hello'')"
proof -
  obtain r d k where run: "cli_run [''download b'', ''list''] (demo_client ''rubbish'') = (r, d, k)" by (metis prod_cases3)
  have typed: "disk_typed (c_fs (demo_client ''rubbish''))" using demo_disk_ok by (simp add: disk_typed_def)
  have asked: "concat (map asked_for [''download b'', ''list'']) = [''b'']" by code_simp
  have place: "lexical_resolve (dl_path ''b'') = [''downloads'', ''b'']" by code_simp
  have root: "fs_is_dir (sample_disk ns) []" for ns by (simp add: fs_is_dir_def)
  note all = server_cannot_harm_client [OF typed run, unfolded asked]
  then have "fs_at (c_fs d) [''note.txt''] = Some (File ''hello'')"
    by (auto simp: place root dest!: spec [of _ "[''note.txt'']"])
  with all run root show ?thesis by simp
qed

end
