(* ===== verification/Many_Sessions.thy ===== *)
theory Many_Sessions
  imports Server_Spec
begin

text \<open>
  Several sessions at once on one shared state, each worker thread of src/src/server/thread_pool.cpp
  running \<open>handle_client\<close> of src/src/server/server.cpp for its client. The turns of the sessions' loops come in any
  order, but one at a time: a turn reads one request, carries it out and answers it before another
  session moves. The workers of the server are free to overlap their requests, so the theorems of
  this theory speak of the runs in which they do not. What overlapping file operations do, and
  where their answers then leave every single order, is the subject of theory \<open>Concurrent_Store\<close>.
\<close>

section \<open>Turns of several sessions\<close>

text \<open>
  A session in progress: its user, its socket, and whether its loop is still running. The end of
  \<open>handle_client\<close> closes the socket, unless an exception skips it.
\<close>

type_synonym seat = "bytes \<times> socket \<times> bool"

fun turn :: "seat \<Rightarrow> world \<Rightarrow> seat \<times> world" where
  "turn (session_user, s, False) w = ((session_user, s, False), w)"
| "turn (session_user, s, True) w =
     (case serve_request session_user w s of
        (Again, session_user, w, s) \<Rightarrow> ((session_user, s, True), w)
      | (Finished, session_user, w, s) \<Rightarrow> ((session_user, closesocket s, False), w)
      | (Threw, session_user, w, s) \<Rightarrow> ((session_user, s, False), w))"

text \<open>A schedule names the session that takes the next turn.\<close>

fun turns :: "nat list \<Rightarrow> seat list \<Rightarrow> world \<Rightarrow> seat list \<times> world" where
  "turns [] ss w = (ss, w)"
| "turns (i # sched) ss w = (case turn (ss ! i) w of (x, w) \<Rightarrow> turns sched (ss[i := x]) w)"

text \<open>One session alone is \<open>handle_client\<close>.\<close>

lemma session_loop_turns:
  "session_loop running k su w s = (oc, su', v, t) \<Longrightarrow> (\<And>j. running j) \<Longrightarrow>
   \<exists>n. turns (replicate n 0) [(su, s, True)] w = ([(su', if oc = Threw then t else closesocket t, False)], v)"
proof (induction running k su w s rule: session_loop.induct)
  case (1 running k su w s)
  obtain oc1 su1 w1 s1 where req: "serve_request su w s = (oc1, su1, w1, s1)" by (metis prod_cases4)
  have last: "(oc, su', v, t) = (oc1, su1, w1, s1)" if "oc1 \<noteq> Again"
    using "1.prems"(1) req "1.prems"(2) [of k] session_loop.simps [of running k su w s] that by (cases oc1) simp_all
  show ?case
  proof (cases oc1)
    case Again
    then have "session_loop running (Suc k) su1 w1 s1 = (oc, su', v, t)"
      using "1.prems" req by (subst (asm) session_loop.simps) simp
    then obtain n where "turns (replicate n 0) [(su1, s1, True)] w1 = ([(su', if oc = Threw then t else closesocket t, False)], v)"
      using "1.IH" [OF "1.prems"(2) req [symmetric]] Again "1.prems"(2) by blast
    with req Again show ?thesis by (intro exI [of _ "Suc n"]) simp
  qed (use last req in \<open>auto intro!: exI [of _ "Suc 0"]\<close>)
qed

section \<open>The abstract server with several clients\<close>

text \<open>A client: its user, the requests it has still to make, and the bytes it has been answered.\<close>

type_synonym script = "bytes \<times> request list \<times> bytes"

fun script_ok :: "(bytes \<times> bytes) set \<Rightarrow> bytes \<Rightarrow> request list \<Rightarrow> bool" where
  "script_ok N su [] = True"
| "script_ok N su (r # rs) \<longleftrightarrow>
     request_ok N su r \<and> (rq_command r = QUIT \<longrightarrow> rs = []) \<and> script_ok N (next_user su r) rs"

text \<open>
  One request after the other is answered from one store, in the order of the schedule. The text
  of a listing may be any that tells the truth about the store at that moment and fits into a message.
\<close>

definition listable :: "request \<Rightarrow> bytes \<Rightarrow> bool" where
  "listable r lst \<longleftrightarrow> (rq_command r = LIST \<longrightarrow> length lst < 2 ^ 31)"

inductive spec_turns :: "(bytes \<times> bytes) set \<Rightarrow> script list \<Rightarrow> store \<Rightarrow> nat list \<Rightarrow> script list \<Rightarrow> store \<Rightarrow> bool"
  for N where
  spec_end: "spec_turns N cs M [] cs M"
| spec_turn: "i < length cs \<Longrightarrow> cs ! i = (su, r # rs, out) \<Longrightarrow> listing_of N su M lst \<Longrightarrow>
     listable r lst \<Longrightarrow> spec_reply lst r su M = (reply, su', M') \<Longrightarrow>
     spec_turns N (cs[i := (su', rs, out @ response_wire (command_code (rq_command r)) reply)]) M' sched cs' M'' \<Longrightarrow>
     spec_turns N cs M (i # sched) cs' M''"

inductive_cases spec_turnsE: "spec_turns N cs M (i # sched) cs' M'" and spec_no_turnE: "spec_turns N cs M [] cs' M'"

section \<open>The simulation\<close>

text \<open>
  A seat answers a script: what is on its stream are the requests still to come, what it has
  sent are the answers. A session that is over has nothing more to read.
\<close>

fun answers :: "(bytes \<times> bytes) set \<Rightarrow> script \<Rightarrow> seat \<Rightarrow> bool" where
  "answers N (su, rs, out) (su', s, on) \<longleftrightarrow> su' = su \<and> sk_tx s = out \<and> sk_rx s = concat (map request_wire rs)
     \<and> (if on then wire_ok s \<and> script_ok N su rs else rs = [] \<and> \<not> sk_open s)"

text \<open>
  A schedule gives a session no more turns than it has requests (\<open>qs\<close> are the requests of each
  session); a listing that is asked for fits into a message.
\<close>

fun due :: "nat list \<Rightarrow> request list list \<Rightarrow> bool" where
  "due [] qs = True"
| "due (i # sched) qs \<longleftrightarrow> i < length qs \<and> qs ! i \<noteq> [] \<and> due sched (qs[i := tl (qs ! i)])"

definition to_come :: "script list \<Rightarrow> request list list" where
  "to_come cs = map (\<lambda>(su, rs, out). rs) cs"

lemma length_to_come [simp]: "length (to_come cs) = length cs"
  by (simp add: to_come_def)

fun listings_fit :: "nat list \<Rightarrow> request list list \<Rightarrow> seat list \<Rightarrow> world \<Rightarrow> bool" where
  "listings_fit [] qs ss w = True"
| "listings_fit (i # sched) qs ss w \<longleftrightarrow>
     (rq_command (hd (qs ! i)) = LIST \<longrightarrow> length (list_files (fst (ss ! i)) w) < 2 ^ 31)
     \<and> (case turn (ss ! i) w of (x, w) \<Rightarrow> listings_fit sched (qs[i := tl (qs ! i)]) (ss[i := x]) w)"

lemma turn_answers:
  assumes "serving N (Suc m) w" and "answers N (su, r # rs, out) x" and "rq_command r = LIST \<Longrightarrow> length (list_files (fst x) w) < 2 ^ 31"
  obtains lst reply su' M' y v where "listing_of N su (store_of N w) lst" and "listable r lst"
    and "spec_reply lst r su (store_of N w) = (reply, su', M')" and "turn x w = (y, v)"
    and "serving N m v" and "store_of N v = M'"
    and "answers N (su', rs, out @ response_wire (command_code (rq_command r)) reply) y"
    and "snd (snd y) = (rq_command r \<noteq> QUIT)" and "env_of v = env_of w"
proof -
  obtain s where x: "x = (su, s, True)" and s: "sk_tx s = out" "sk_rx s = request_wire r @ concat (map request_wire rs)"
      "wire_ok s" "request_ok N su r" "rq_command r = QUIT \<longrightarrow> rs = []" "script_ok N (next_user su r) rs"
    using assms(2) by (cases x) (auto split: if_splits)
  obtain reply su' M' where sp: "spec_reply (list_files su w) r su (store_of N w) = (reply, su', M')" by (metis prod_cases3)
  have su': "su' = next_user su r" using spec_reply_user [of "list_files su w" r su "store_of N w"] sp by simp
  have "meets N m w s (concat (map request_wire rs)) r (reply, su', M') (serve_request su w s)"
    using serve_request_meets [OF assms(1) s(4,3,2)] sp assms(3) x by simp
  then obtain v t where v: "serve_request su w s = (if rq_command r = QUIT then Finished else Again, su', v, t)" "serving N m v"
      "store_of N v = M'" "sk_rx t = concat (map request_wire rs)"
      "sk_tx t = sk_tx s @ response_wire (command_code (rq_command r)) reply" "wire_ok t" "env_of v = env_of w"
    by (cases "serve_request su w s" rule: prod_cases4) (auto simp: meets_def)
  let ?y = "(su', if rq_command r = QUIT then closesocket t else t, rq_command r \<noteq> QUIT)"
  have "turn x w = (?y, v)" using v(1) x by simp
  moreover have "answers N (su', rs, out @ response_wire (command_code (rq_command r)) reply) ?y"
    using v s su' by (simp add: closesocket_def)
  moreover have "listable r (list_files su w)" using assms(3) x by (simp add: listable_def)
  ultimately show thesis using that [OF list_files_true [OF assms(1)] _ sp _ v(2,3)] v(7) by force
qed

lemma turns_simulate:
  assumes "serving N (length sched) w" and "list_all2 (answers N) cs ss" and "due sched (to_come cs)"
    and "listings_fit sched (to_come cs) ss w" and "turns sched ss w = (ss', w')"
  shows "\<exists>cs'. spec_turns N cs (store_of N w) sched cs' (store_of N w') \<and> list_all2 (answers N) cs' ss' \<and> serving N 0 w'"
  using assms
proof (induction sched arbitrary: cs ss w)
  case Nil
  then show ?case by (auto intro: spec_end)
next
  case (Cons i sched)
  have i: "i < length cs" "to_come cs ! i \<noteq> []" using Cons.prems(3) by simp_all
  obtain su r rs out where c: "cs ! i = (su, r # rs, out)"
  proof (cases "cs ! i")
    case (fields su rs out)
    with i show thesis by (cases rs) (auto simp: to_come_def intro: that)
  qed
  have x: "answers N (su, r # rs, out) (ss ! i)" using list_all2_nthD [OF Cons.prems(2) i(1)] c by simp
  have hd: "to_come cs ! i = r # rs" using i(1) c by (simp add: to_come_def)
  have "serving N (Suc (length sched)) w" "rq_command r = LIST \<Longrightarrow> length (list_files (fst (ss ! i)) w) < 2 ^ 31"
    using Cons.prems(1,4) hd by simp_all
  from turn_answers [OF this(1) x this(2)] obtain lst reply su' M' y v where
      y: "listing_of N su (store_of N w) lst" "listable r lst" "spec_reply lst r su (store_of N w) = (reply, su', M')" "turn (ss ! i) w = (y, v)"
      "serving N (length sched) v" "store_of N v = M'"
      "answers N (su', rs, out @ response_wire (command_code (rq_command r)) reply) y" by metis
  let ?cs = "cs[i := (su', rs, out @ response_wire (command_code (rq_command r)) reply)]"
  have "list_all2 (answers N) ?cs (ss[i := y])" using list_all2_update_cong [OF Cons.prems(2) y(7)] .
  moreover have "to_come ?cs = (to_come cs)[i := tl (to_come cs ! i)]"
    using hd by (simp add: to_come_def map_update)
  then have "due sched (to_come ?cs)" "listings_fit sched (to_come ?cs) (ss[i := y]) v"
    using Cons.prems(3,4) y(4) by simp_all
  moreover have "turns sched (ss[i := y]) v = (ss', w')"
    using Cons.prems(5) y(4) by simp
  ultimately obtain cs' where "spec_turns N ?cs (store_of N v) sched cs' (store_of N w')" "list_all2 (answers N) cs' ss'"
      "serving N 0 w'" using Cons.IH [OF y(5)] by blast
  with spec_turn [OF i(1) c y(1,2,3)] y(6) show ?case by blast
qed

text \<open>What a request changes belongs to the user of the session that makes it.\<close>

lemma spec_reply_own: "spec_reply l r su M = (reply, su', M') \<Longrightarrow> u \<noteq> su \<Longrightarrow> M' (u, n) = M (u, n)"
  by (cases r; cases "rq_command r") (auto split: if_splits option.splits)

definition never_user :: "bytes \<Rightarrow> script list \<Rightarrow> bool" where
  "never_user u cs \<longleftrightarrow> (\<forall>(su, rs, out)\<in>set cs. su \<noteq> u \<and> (\<forall>r\<in>set rs. rq_command r = LOGIN \<longrightarrow> rq_user r \<noteq> u))"

lemma spec_turns_own: "spec_turns N cs M sched cs' M' \<Longrightarrow> never_user u cs \<Longrightarrow> M' (u, n) = M (u, n)"
proof (induction rule: spec_turns.induct)
  case (spec_turn i cs su r rs out M lst reply su' M' sched cs' M'')
  have mine: "su \<noteq> u" "\<forall>q\<in>set (r # rs). rq_command q = LOGIN \<longrightarrow> rq_user q \<noteq> u"
    using spec_turn.prems spec_turn.hyps(1,2) nth_mem [of i cs] by (fastforce simp: never_user_def)+
  have "su' = next_user su r" using spec_reply_user [of lst r su M] spec_turn.hyps(5) by simp
  then have "su' \<noteq> u" using mine by (simp add: next_user_def)
  then have "never_user u (cs[i := (su', rs, out @ response_wire (command_code (rq_command r)) reply)])"
    using spec_turn.prems mine(2) unfolding never_user_def by (auto dest!: set_update_subset_insert [THEN subsetD])
  with spec_turn.IH spec_reply_own [OF spec_turn.hyps(5)] mine(1) show ?case by simp
qed simp

section \<open>Properties\<close>

text \<open>Any number of sessions on one server refine one abstract store: let their turns come in any
  order, and the requests are answered one after the other from a single map, each client reads
  exactly the answers to its own requests in their order, and disk and index end as that map
  says.\<close>

theorem many_sessions_refine_store:
  assumes "serving N (length sched) w" and "list_all2 (answers N) cs ss" and "due sched (to_come cs)"
    and "listings_fit sched (to_come cs) ss w" and "turns sched ss w = (ss', w')"
  shows "\<exists>cs'. spec_turns N cs (store_of N w) sched cs' (store_of N w') \<and> list_all2 (answers N) cs' ss' \<and> in_step N w'"
  using turns_simulate [OF assms] by (auto simp: serving_def)

text \<open>C38: users with ordinary names are kept apart. Let the sessions take turns request by request on a
  disk whose calls succeed, let their requests be well formed and let every user and file name
  they touch, and those of u, be ordinary (the pairs in N: they resolve to
  \<open>storage/<user>/<name>\<close>). Then as long as no session is or becomes a session of u, nothing that the
  sessions do, in any order, changes a file of u. The condition on the names is needed, and the
  code does not check it: a user called \<open>..\<close> or \<open>bob/\<close> reaches the files of bob (C20 and C31).\<close>

theorem users_kept_apart:
  assumes "serving N (length sched) w" and "list_all2 (answers N) cs ss" and "due sched (to_come cs)"
    and "listings_fit sched (to_come cs) ss w" and "turns sched ss w = (ss', w')" and "never_user u cs"
  shows "store_of N w' (u, n) = store_of N w (u, n)"
  using turns_simulate [OF assms(1-5)] spec_turns_own [OF _ assms(6)] by blast


text \<open>Two sessions of bob: one deletes a file, the other asks for it afterwards.\<close>

definition demo_script :: "request list \<Rightarrow> script" where
  "demo_script rs = ([], rs, [])"

definition demo_seat :: "request list \<Rightarrow> seat" where
  "demo_seat rs = ([], prompt_socket (concat (map request_wire rs)), True)"

lemma demo_answers [simp]: "script_ok N [] rs \<Longrightarrow> answers N (demo_script rs) (demo_seat rs)"
  by (simp add: demo_script_def demo_seat_def)

lemma no_listing_fits: "due sched qs \<Longrightarrow> \<forall>rs\<in>set qs. \<forall>r\<in>set rs. rq_command r \<noteq> LIST \<Longrightarrow> listings_fit sched qs ss w"
proof (induction sched arbitrary: qs ss w)
  case (Cons i sched)
  have "\<forall>rs\<in>set (qs[i := tl (qs ! i)]). \<forall>r\<in>set rs. rq_command r \<noteq> LIST"
  proof (intro ballI)
    fix rs r
    assume "rs \<in> set (qs[i := tl (qs ! i)])" "r \<in> set rs"
    then have "rs = tl (qs ! i) \<or> rs \<in> set qs" using set_update_subset_insert [of qs i "tl (qs ! i)"] by blast
    then have "\<exists>q\<in>set qs. r \<in> set q"
      using \<open>r \<in> set rs\<close> Cons.prems(1) by (auto intro: list.set_sel(2) nth_mem)
    then show "rq_command r \<noteq> LIST" using Cons.prems(2) by blast
  qed
  moreover have "hd (qs ! i) \<in> set (qs ! i)" "qs ! i \<in> set qs" using Cons.prems(1) by simp_all
  then have "rq_command (hd (qs ! i)) \<noteq> LIST" using Cons.prems(2) by blast
  ultimately show ?case using Cons by (simp split: prod.split)
qed simp

theorem many_sessions_refine_store_witness:
  "let deleting = [Req LOGIN ''bob'' [] [], Req DELETE_F [] ''a'' []];
       fetching = [Req LOGIN ''bob'' [] [], Req DOWNLOAD [] ''a'' []];
       (ss, w) = turns [0, 1, 0, 1] [demo_seat deleting, demo_seat fetching] demo_world
   in store_of bob_names w (''bob'', ''a'') = None
      \<and> (\<exists>pre. sk_tx (fst (snd (ss ! 1))) = pre @ response_wire 3 (NOT_FOUND, ''File not found.''))"
proof -
  let ?d = "[Req LOGIN ''bob'' [] [], Req DELETE_F [] ''a'' []]" and ?f = "[Req LOGIN ''bob'' [] [], Req DOWNLOAD [] ''a'' []]"
  let ?cs = "[demo_script ?d, demo_script ?f]" and ?ss = "[demo_seat ?d, demo_seat ?f]"
  obtain ss w where run: "turns [0, 1, 0, 1] ?ss demo_world = (ss, w)" by fastforce
  have serving: "serving bob_names (length [0, 1, 0, 1 :: nat]) demo_world" using serving_less [OF demo_serving] by simp
  have seats: "list_all2 (answers bob_names) ?cs ?ss"
    by (simp add: demo_answers request_ok_def request_fits_def next_user_def bob_names_def)
  have qs: "to_come ?cs = [?d, ?f]" by (simp add: to_come_def demo_script_def)
  have due: "due [0, 1, 0, 1] (to_come ?cs)" by (simp add: qs)
  have "listings_fit [0, 1, 0, 1] (to_come ?cs) ?ss demo_world"
    by (rule no_listing_fits [OF due]) (simp add: qs)
  from many_sessions_refine_store [OF serving seats due this run] obtain cs where
      "spec_turns bob_names ?cs (store_of bob_names demo_world) [0, 1, 0, 1] cs (store_of bob_names w)"
      "list_all2 (answers bob_names) cs ss" by blast
  then have "store_of bob_names w = (store_of bob_names demo_world)((''bob'', ''a'') := None)
      \<and> (\<exists>pre. snd (snd (cs ! 1)) = pre @ response_wire 3 (NOT_FOUND, ''File not found.'')) \<and> length cs = 2"
    by (elim conjE spec_turnsE spec_no_turnE) (auto simp: demo_script_def demo_content split: if_splits)
  moreover from this have "answers bob_names (cs ! 1) (ss ! 1)" using \<open>list_all2 (answers bob_names) cs ss\<close> by (simp add: list_all2_nthD)
  ultimately have "store_of bob_names w = (store_of bob_names demo_world)((''bob'', ''a'') := None)
      \<and> (\<exists>pre. sk_tx (fst (snd (ss ! 1))) = pre @ response_wire 3 (NOT_FOUND, ''File not found.''))"
    by (cases "cs ! 1"; cases "ss ! 1") simp
  with run show ?thesis by simp
qed

theorem users_kept_apart_witness:
  "let prying = [Req LOGIN ''eve'' [] [], Req QUIT ''bob'' ''a'' []]
   in store_of bob_names (snd (turns [0, 0] [demo_seat prying] demo_world)) (''bob'', ''a'') = Some ''xyz''"
proof -
  let ?p = "[Req LOGIN ''eve'' [] [], Req QUIT ''bob'' ''a'' []]"
  have serving: "serving bob_names (length [0, 0 :: nat]) demo_world" using serving_less [OF demo_serving] by simp
  have seats: "list_all2 (answers bob_names) [demo_script ?p] [demo_seat ?p]"
    by (simp add: request_ok_def request_fits_def next_user_def)
  have qs: "to_come [demo_script ?p] = [?p]" by (simp add: to_come_def demo_script_def)
  have due: "due [0, 0] (to_come [demo_script ?p])" by (simp add: qs)
  have fit: "listings_fit [0, 0] (to_come [demo_script ?p]) [demo_seat ?p] demo_world"
    by (rule no_listing_fits [OF due]) (simp add: qs)
  have "never_user ''bob'' [demo_script ?p]" by (simp add: never_user_def demo_script_def)
  from users_kept_apart [OF serving seats due fit prod.collapse [symmetric] this, of "''a''"] demo_content
  show ?thesis by simp
qed

end
