(* ===== verification/Whole_Server.thy ===== *)
theory Whole_Server
  imports Thread_Pool Many_Sessions
begin

text \<open>
  The server as a whole: the acceptor, the queue, the workers and the thread in \<open>stop\<close> of theory
  \<open>Thread_Pool\<close>, whose tasks are now the sessions of theory \<open>Many_Sessions\<close> on one shared state. A
  client is the number of its seat. A worker's session tests \<open>running_\<close> at the top of its
  loop and only then waits for a request, so these are two steps. The rest of the loop body, from
  the request to its answer, is one step: the runs of this theory are those in which no two
  requests overlap. Between requests everything interleaves: accepting, queueing, taking tasks,
  the tests of \<open>running_\<close>, \<open>stop\<close>, joining. Requests that overlap are the subject of theory
  \<open>Concurrent_Store\<close>.
\<close>

section \<open>Steps\<close>

text \<open>\<open>ho_inside\<close> are the sessions that are past the test of \<open>running_\<close>.\<close>

record host =
  ho_server :: "nat server"
  ho_seats :: "seat list"
  ho_world :: world
  ho_inside :: "nat set"

definition over :: "seat \<Rightarrow> bool" where
  "over x \<longleftrightarrow> \<not> snd (snd x)"

text \<open>The label \<open>session_end\<close>, and what \<open>start\<close> does with a client whom the queue rejects.\<close>

definition hang_up :: "seat \<Rightarrow> seat" where
  "hang_up = (\<lambda>(session_user, s, on). (session_user, closesocket s, False))"

text \<open>\<open>accept\<close> delivers a client that has not been there before.\<close>

definition newcomer :: "host \<Rightarrow> nat server \<Rightarrow> bool" where
  "newcomer h t \<longleftrightarrow> (\<forall>x. sv_acceptor t = Holding x \<longrightarrow> sv_acceptor (ho_server h) = Holding x \<or>
     x < length (ho_seats h) \<and> x \<notin> set (sv_accepted (ho_server h)) \<and> x \<notin> set (sv_dropped (ho_server h)))"

inductive host_step :: "host \<Rightarrow> host \<Rightarrow> bool" where
  life: "sv_step (ho_server h) t \<Longrightarrow> sv_dropped t = sv_dropped (ho_server h) \<Longrightarrow> newcomer h t \<Longrightarrow>
     (\<And>x. sv_finished t = sv_finished (ho_server h) @ [x] \<Longrightarrow> over (ho_seats h ! x)) \<Longrightarrow>
     host_step h (h\<lparr>ho_server := t\<rparr>)"
| rejected: "sv_step (ho_server h) t \<Longrightarrow> sv_dropped t = sv_dropped (ho_server h) @ [x] \<Longrightarrow>
     host_step h (h\<lparr>ho_server := t, ho_seats := (ho_seats h)[x := hang_up (ho_seats h ! x)]\<rparr>)"
| loop_test: "Running x \<in> set (sv_workers (ho_server h)) \<Longrightarrow> \<not> over (ho_seats h ! x) \<Longrightarrow> x \<notin> ho_inside h \<Longrightarrow>
     sv_running (ho_server h) \<Longrightarrow> host_step h (h\<lparr>ho_inside := insert x (ho_inside h)\<rparr>)"
| loop_exit: "Running x \<in> set (sv_workers (ho_server h)) \<Longrightarrow> \<not> over (ho_seats h ! x) \<Longrightarrow> x \<notin> ho_inside h \<Longrightarrow>
     \<not> sv_running (ho_server h) \<Longrightarrow> host_step h (h\<lparr>ho_seats := (ho_seats h)[x := hang_up (ho_seats h ! x)]\<rparr>)"
| loop_body: "x \<in> ho_inside h \<Longrightarrow> turn (ho_seats h ! x) (ho_world h) = (y, w) \<Longrightarrow>
     host_step h (h\<lparr>ho_inside := ho_inside h - {x}, ho_seats := (ho_seats h)[x := y], ho_world := w\<rparr>)"

definition new_host :: "nat \<Rightarrow> seat list \<Rightarrow> world \<Rightarrow> host" where
  "new_host n ss w = \<lparr>ho_server = new_server n, ho_seats = ss, ho_world = w, ho_inside = {}\<rparr>"

section \<open>The life cycle, seen from the clients\<close>

lemma running_update: "Running x \<in> set ws \<Longrightarrow> ws ! i \<noteq> Running x \<Longrightarrow> Running x \<in> set (ws[i := v])"
  by (auto simp: in_set_conv_nth) (metis nth_list_update_neq)

lemma sv_step_running:
  "sv_step s t \<Longrightarrow> Running x \<in> set (sv_workers s) \<Longrightarrow> Running x \<in> set (sv_workers t) \<or> sv_finished t = sv_finished s @ [x]"
proof (induction rule: sv_step.induct)
  case (finish_task i s y)
  then show ?case using running_update [of x "sv_workers s" i Waiting] by (cases "y = x") auto
qed (auto simp: pool_defs intro: running_update split: option.splits if_splits)

lemma sv_step_finished: "sv_step s t \<Longrightarrow> sv_finished t = sv_finished s \<or> (\<exists>x. sv_finished t = sv_finished s @ [x])"
  by (induction rule: sv_step.induct) (auto simp: pool_defs split: option.splits if_splits)

lemma sv_step_accepted:
  "sv_step s t \<Longrightarrow> sv_accepted t = sv_accepted s
     \<or> (\<exists>x. sv_acceptor s = Holding x \<and> sv_accepted t = sv_accepted s @ [x] \<and> sv_acceptor t = Accepting \<and> sv_dropped t = sv_dropped s)"
  by (induction rule: sv_step.induct) (auto simp: pool_defs split: option.splits if_splits)

lemma sv_step_rejects:
  "sv_step s t \<Longrightarrow> sv_dropped t = sv_dropped s @ [x] \<Longrightarrow>
   sv_acceptor s = Holding x \<and> sv_acceptor t = Accepting \<and> sv_accepted t = sv_accepted s \<and> sv_workers t = sv_workers s
   \<and> sv_finished t = sv_finished s \<and> sv_running t = sv_running s"
  by (induction rule: sv_step.induct) (auto simp: pool_defs split: option.splits if_splits)

lemma running_accepted:
  assumes "server_ok s" and "Running x \<in> set (sv_workers s)"
  shows "x \<in> set (sv_started s)" and "x \<in> set (sv_accepted s)"
proof -
  have "x \<in> set (running_tasks (sv_workers s))" using assms(2) by (force simp: running_tasks_def task_of_def)
  then have "x \<in># mset (sv_started s)" using assms(1) unfolding server_ok_def by auto
  then show "x \<in> set (sv_started s)" by simp
  then show "x \<in> set (sv_accepted s)" using assms(1) by (simp add: server_ok_def)
qed

text \<open>
  Every client is accepted once and has its seat; a session past the test is running on a
  worker; what a worker has finished is over.
\<close>

definition clients_ok :: "host \<Rightarrow> bool" where
  "clients_ok h \<longleftrightarrow> server_ok (ho_server h) \<and> distinct (sv_accepted (ho_server h))
     \<and> set (sv_accepted (ho_server h)) \<subseteq> {..<length (ho_seats h)}
     \<and> (\<forall>x. sv_acceptor (ho_server h) = Holding x \<longrightarrow> x < length (ho_seats h)
           \<and> x \<notin> set (sv_accepted (ho_server h)) \<and> x \<notin> set (sv_dropped (ho_server h)))
     \<and> (\<forall>x\<in>ho_inside h. Running x \<in> set (sv_workers (ho_server h)) \<and> \<not> over (ho_seats h ! x))
     \<and> (\<forall>x\<in>set (sv_finished (ho_server h)). over (ho_seats h ! x))"

lemma over_hang_up [simp]: "over (hang_up x)"
  by (simp add: over_def hang_up_def split: prod.split)

lemma turn_over: "over x \<Longrightarrow> turn x w = (y, v) \<Longrightarrow> y = x \<and> v = w"
  by (cases x; cases "snd (snd x)") (auto simp: over_def)

lemma clients_ok_step:
  assumes "host_step h h'" and "clients_ok h"
  shows "clients_ok h'"
  using assms
proof (induction rule: host_step.induct)
  case (life h t)
  note ok = life.prems [unfolded clients_ok_def]
  have server: "server_ok t" using server_ok_step [OF life.hyps(1)] ok by blast
  have accepted: "distinct (sv_accepted t) \<and> set (sv_accepted t) \<subseteq> {..<length (ho_seats h)}"
    using sv_step_accepted [OF life.hyps(1)] ok by auto
  have holding: "x < length (ho_seats h) \<and> x \<notin> set (sv_accepted t) \<and> x \<notin> set (sv_dropped t)" if "sv_acceptor t = Holding x" for x
    using that sv_step_accepted [OF life.hyps(1)] ok life.hyps(2,3) unfolding newcomer_def by auto
  have inside: "Running x \<in> set (sv_workers t)" if "x \<in> ho_inside h" for x
    using sv_step_running [OF life.hyps(1), of x] ok life.hyps(4) [of x] that by blast
  have finished: "\<forall>x\<in>set (sv_finished t). over (ho_seats h ! x)"
    using sv_step_finished [OF life.hyps(1)] ok life.hyps(4) by auto
  show ?case unfolding clients_ok_def using server accepted holding inside finished ok by simp
next
  case (rejected h t x)
  note ok = rejected.prems [unfolded clients_ok_def]
  note D = sv_step_rejects [OF rejected.hyps]
  have "server_ok t" using server_ok_step [OF rejected.hyps(1)] ok by blast
  moreover have "y \<noteq> x" if "y \<in> ho_inside h" for y
    using running_accepted(2) [of "ho_server h" y] ok D that by blast
  ultimately show ?case unfolding clients_ok_def using D ok by (auto simp: nth_list_update)
next
  case (loop_test x h)
  then show ?case by (simp add: clients_ok_def)
next
  case (loop_exit x h)
  note ok = loop_exit.prems [unfolded clients_ok_def]
  have "(ho_seats h)[x := hang_up (ho_seats h ! x)] ! y = ho_seats h ! y" if "y \<in> ho_inside h \<or> y \<in> set (sv_finished (ho_server h))" for y
  proof -
    have "x \<noteq> y" using that ok loop_exit.hyps(2,3) by blast
    then show ?thesis by simp
  qed
  then show ?case unfolding clients_ok_def using ok by auto
next
  case (loop_body x h y w)
  note ok = loop_body.prems [unfolded clients_ok_def]
  have "(ho_seats h)[x := y] ! z = ho_seats h ! z" if "z \<in> ho_inside h - {x} \<or> z \<in> set (sv_finished (ho_server h))" for z
  proof -
    have "x \<noteq> z" using that ok loop_body.hyps(1) by blast
    then show ?thesis by simp
  qed
  then show ?case unfolding clients_ok_def using ok by auto
qed

lemma clients_ok_new: "clients_ok (new_host n ss w)"
  using server_ok_new [of n] by (simp add: clients_ok_def new_host_def) (simp add: new_server_def')

interpretation clients: invariant_of_steps "\<lambda>h. \<exists>n ss w. h = new_host n ss w" host_step clients_ok
  by unfold_locales (auto intro: clients_ok_step clients_ok_new)


section \<open>The sessions, seen from the store\<close>

text \<open>As \<open>answers\<close> of \<open>Many_Sessions\<close>, but a session may have been cut off before its last request.\<close>

fun serves :: "(bytes \<times> bytes) set \<Rightarrow> script \<Rightarrow> seat \<Rightarrow> bool" where
  "serves N (su, rs, out) (su', s, on) \<longleftrightarrow> su' = su \<and> sk_tx s = out
     \<and> (if on then sk_rx s = concat (map request_wire rs) \<and> wire_ok s \<and> script_ok N su rs else \<not> sk_open s)"

lemma answers_serves: "answers N c x \<Longrightarrow> serves N c x"
  by (cases c; cases x) (auto split: if_splits)

lemma serves_answers: "serves N c x \<Longrightarrow> \<not> over x \<Longrightarrow> answers N c x"
  by (cases c; cases x) (auto simp: over_def split: if_splits)

lemma hang_up_serves: "serves N c x \<Longrightarrow> serves N c (hang_up x)"
  by (cases c; cases x) (auto simp: hang_up_def closesocket_def split: if_splits)

text \<open>A client that has hung up ends its session.\<close>

lemma serve_request_hung_up:
  assumes "sk_rx s = []"
  obtains t where "serve_request su w s = (Finished, su, w, t)" and "only_reads s t"
proof -
  obtain r t where r: "recv_header (w_be w) s = (r, t)" by fastforce
  then have "r = None" using recv_header_consumes [of "w_be w" s] assms by (cases r) auto
  with r have "recv_message_meta (w_alloc w) (w_be w) s = (Lost, t)" by (simp add: recv_message_meta_def)
  then have "serve_request su w s = (Finished, su, w, t)" by (simp add: serve_request_def)
  from this recv_header_reads [OF r] show thesis by (rule that)
qed

definition turns_left :: "script list \<Rightarrow> nat" where
  "turns_left cs = sum_list (map length (to_come cs))"

definition some_list :: "script list \<Rightarrow> bool" where
  "some_list cs \<longleftrightarrow> (\<exists>c\<in>set cs. \<exists>r\<in>set (fst (snd c)). rq_command r = LIST)"

lemma turns_left_next:
  assumes "x < length cs" and "cs ! x = (su, r # rs, out)"
  shows "turns_left cs = Suc (turns_left (cs[x := (su', rs, out')]))"
proof -
  let ?ls = "map length (to_come cs)"
  have "map length (to_come (cs[x := (su', rs, out')])) = ?ls[x := length rs]" by (simp add: to_come_def map_update)
  moreover have "?ls ! x = Suc (length rs)" "x < length ?ls" using assms by (simp_all add: to_come_def)
  moreover have "sum_list (?ls[x := length rs]) + ?ls ! x = sum_list ?ls + length rs"
    using sum_list_update [of x ?ls "length rs"] elem_le_sum_list [of x ?ls] \<open>x < length ?ls\<close> by simp
  ultimately show ?thesis by (simp add: turns_left_def)
qed

lemma some_list_next:
  "x < length cs \<Longrightarrow> cs ! x = (su, r # rs, out) \<Longrightarrow> some_list (cs[x := (su', rs, out')]) \<Longrightarrow> some_list cs"
  unfolding some_list_def
  by (auto dest!: set_update_subset_insert [THEN subsetD]) (metis fst_conv list.set_intros(2) nth_mem snd_conv)+

lemma spec_turns_trans:
  "spec_turns N cs M sched cs' M' \<Longrightarrow> spec_turns N cs' M' sched' cs'' M'' \<Longrightarrow> spec_turns N cs M (sched @ sched') cs'' M''"
  by (induction rule: spec_turns.induct) (auto intro: spec_turn)

text \<open>
  The simulation: what has happened so far is a run of the abstract server, every seat
  serves its script, and the world can serve the requests that are still to come.
\<close>

definition refines :: "(bytes \<times> bytes) set \<Rightarrow> script list \<Rightarrow> store \<Rightarrow> host \<Rightarrow> bool" where
  "refines N cs M h \<longleftrightarrow> (\<exists>sched cs'. spec_turns N cs M sched cs' (store_of N (ho_world h))
     \<and> list_all2 (serves N) cs' (ho_seats h) \<and> serving N (turns_left cs') (ho_world h) \<and> (some_list cs' \<longrightarrow> some_list cs))"

lemma refines_hang_up:
  assumes "refines N cs M h"
  shows "refines N cs M (h\<lparr>ho_server := t, ho_seats := (ho_seats h)[x := hang_up (ho_seats h ! x)]\<rparr>)"
proof -
  obtain sched cs' where cs': "spec_turns N cs M sched cs' (store_of N (ho_world h))" "list_all2 (serves N) cs' (ho_seats h)"
      "serving N (turns_left cs') (ho_world h)" "some_list cs' \<longrightarrow> some_list cs" using assms unfolding refines_def by blast
  have "list_all2 (serves N) cs' ((ho_seats h)[x := hang_up (ho_seats h ! x)])"
  proof (cases "x < length cs'")
    case True
    have "list_all2 (serves N) (cs'[x := cs' ! x]) ((ho_seats h)[x := hang_up (ho_seats h ! x)])"
      by (intro list_all2_update_cong cs'(2) hang_up_serves list_all2_nthD [OF cs'(2) True])
    then show ?thesis by simp
  next
    case False
    then show ?thesis using cs'(2) list_all2_lengthD [OF cs'(2)] by (simp add: list_update_beyond)
  qed
  with cs' show ?thesis unfolding refines_def by auto
qed

lemma refines_turn:
  assumes "refines N cs M h" and "x < length (ho_seats h)" and "\<not> over (ho_seats h ! x)"
    and "some_list cs \<Longrightarrow> length (list_files (fst (ho_seats h ! x)) (ho_world h)) < 2 ^ 31"
    and "turn (ho_seats h ! x) (ho_world h) = (y, w)"
  shows "refines N cs M (h\<lparr>ho_inside := B, ho_seats := (ho_seats h)[x := y], ho_world := w\<rparr>)"
proof -
  obtain sched cs' where cs': "spec_turns N cs M sched cs' (store_of N (ho_world h))" "list_all2 (serves N) cs' (ho_seats h)"
      "serving N (turns_left cs') (ho_world h)" "some_list cs' \<longrightarrow> some_list cs" using assms(1) unfolding refines_def by blast
  have x: "x < length cs'" using assms(2) list_all2_lengthD [OF cs'(2)] by simp
  obtain su qs out where c: "cs' ! x = (su, qs, out)" by (metis prod_cases3)
  have seat: "answers N (su, qs, out) (ho_seats h ! x)"
    using serves_answers [OF list_all2_nthD [OF cs'(2) x] assms(3)] c by simp
  show ?thesis
  proof (cases qs)
    case Nil
    then obtain s where s: "ho_seats h ! x = (su, s, True)" "sk_rx s = []" "sk_tx s = out"
      using seat assms(3) by (cases "ho_seats h ! x") (auto simp: over_def split: if_splits)
    obtain t where t: "serve_request su (ho_world h) s = (Finished, su, ho_world h, t)" "only_reads s t"
      using serve_request_hung_up [OF s(2)] .
    then have y: "y = (su, closesocket t, False)" "w = ho_world h" using assms(5) s(1) by simp_all
    have "serves N (cs' ! x) y" using c y(1) s(3) only_reads_contracts(5) [OF t(2)] by (simp add: closesocket_def)
    then have "list_all2 (serves N) cs' ((ho_seats h)[x := y])"
      using list_all2_update_cong [OF cs'(2), of "cs' ! x" y x] by simp
    with cs' y(2) show ?thesis unfolding refines_def by auto
  next
    case (Cons r rs)
    let ?m = "\<lambda>su' reply. cs'[x := (su', rs, out @ response_wire (command_code (rq_command r)) reply)]"
    have more: "turns_left cs' = Suc (turns_left (?m su' reply))" for su' reply using turns_left_next [OF x] c Cons by blast
    have "rq_command r = LIST \<Longrightarrow> some_list cs'" using x c Cons unfolding some_list_def by (metis fst_conv list.set_intros(1) nth_mem snd_conv)
    then have fit: "rq_command r = LIST \<Longrightarrow> length (list_files (fst (ho_seats h ! x)) (ho_world h)) < 2 ^ 31"
      using cs'(4) assms(4) by blast
    have room: "serving N (Suc (turns_left (?m [] (OK, [])))) (ho_world h)" using cs'(3) more [of "[]" "(OK, [])"] by simp
    obtain lst reply su' M' y' v where
        z: "listing_of N su (store_of N (ho_world h)) lst" "listable r lst" "spec_reply lst r su (store_of N (ho_world h)) = (reply, su', M')"
          "turn (ho_seats h ! x) (ho_world h) = (y', v)" "serving N (turns_left (?m [] (OK, []))) v" "store_of N v = M'"
          "answers N (su', rs, out @ response_wire (command_code (rq_command r)) reply) y'"
      using turn_answers [OF room seat [unfolded Cons] fit] by metis
    have yw: "y' = y" "v = w" using z(4) assms(5) by simp_all
    have "turns_left (?m su' reply) = turns_left (?m [] (OK, []))" using more [of su' reply] more [of "[]" "(OK, [])"] by simp
    then have "serving N (turns_left (?m su' reply)) w" using z(5) yw by simp
    moreover have "list_all2 (serves N) (?m su' reply) ((ho_seats h)[x := y])"
      using list_all2_update_cong [OF cs'(2) answers_serves [OF z(7)]] yw by simp
    moreover have "spec_turns N cs' (store_of N (ho_world h)) [x] (?m su' reply) (store_of N w)"
      using spec_turn [OF x _ z(1,2,3) spec_end] c Cons z(6) yw by simp
    then have "spec_turns N cs M (sched @ [x]) (?m su' reply) (store_of N w)" by (rule spec_turns_trans [OF cs'(1)])
    moreover have "some_list (?m su' reply) \<longrightarrow> some_list cs" using some_list_next [OF x] c Cons cs'(4) by blast
    ultimately show ?thesis unfolding refines_def by auto
  qed
qed


lemma refines_step:
  assumes "host_step h h'" and "clients_ok h" and "refines N cs M h"
    and "\<And>su. some_list cs \<Longrightarrow> length (list_files su (ho_world h)) < 2 ^ 31"
  shows "refines N cs M h'"
  using assms
proof (induction rule: host_step.induct)
  case (rejected h t x)
  then show ?case using refines_hang_up by blast
next
  case (loop_exit x h)
  then show ?case using refines_hang_up [OF loop_exit.prems(2), where t = "ho_server h" and x = x] by simp
next
  case (loop_body x h y w)
  note ok = loop_body.prems(1) [unfolded clients_ok_def]
  have "x < length (ho_seats h)" using running_accepted(2) [of "ho_server h" x] ok loop_body.hyps(1) by blast
  moreover have "\<not> over (ho_seats h ! x)" using ok loop_body.hyps(1) by blast
  ultimately show ?case
    using refines_turn [OF loop_body.prems(2) _ _ loop_body.prems(3) loop_body.hyps(2)] by blast
qed (simp_all add: refines_def)

lemma refines_run:
  assumes "host_step\<^sup>*\<^sup>* h h'" and "clients_ok h" and "refines N cs M h"
    and "\<And>h' su. host_step\<^sup>*\<^sup>* h h' \<Longrightarrow> some_list cs \<Longrightarrow> length (list_files su (ho_world h')) < 2 ^ 31"
  shows "refines N cs M h'"
  using assms(1)
proof (induction rule: rtranclp_induct)
  case (step g g')
  have "clients_ok g" by (rule clients.inv_run [OF step.hyps(1) assms(2)])
  then show ?case using refines_step [OF step.hyps(2) _ step.IH] assms(4) [OF step.hyps(1)] by blast
qed (rule assms(3))

section \<open>After \<open>stop\<close>\<close>

definition stopped :: "nat server \<Rightarrow> bool" where
  "stopped s \<longleftrightarrow> \<not> sv_running s \<and> sv_acceptor s \<noteq> Not_Started"

definition sent_to :: "host \<Rightarrow> nat \<Rightarrow> bytes" where
  "sent_to h x = sk_tx (fst (snd (ho_seats h ! x)))"

lemma stopped_step: "sv_step s t \<Longrightarrow> stopped s \<Longrightarrow> stopped t"
  by (induction rule: sv_step.induct) (auto simp: stopped_def pool_defs split: option.splits if_splits)

lemma hang_up_again [simp]: "hang_up (hang_up x) = hang_up x"
  by (simp add: hang_up_def closesocket_def split: prod.split)

lemma closed_hang_up [simp]: "\<not> sk_open (fst (snd (hang_up x)))"
  and hang_up_unread [simp]: "sk_rx (fst (snd (hang_up x))) = sk_rx (fst (snd x))"
  and hang_up_unsent [simp]: "sk_tx (fst (snd (hang_up x))) = sk_tx (fst (snd x))"
  by (simp_all add: hang_up_def closesocket_def split: prod.split)

text \<open>Before its session starts on a worker, nobody touches the seat of a client the queue has taken.\<close>

definition not_begun :: "seat list \<Rightarrow> host \<Rightarrow> bool" where
  "not_begun ss h \<longleftrightarrow> clients_ok h \<and> set (sv_accepted (ho_server h)) \<inter> set (sv_dropped (ho_server h)) = {}
     \<and> (\<forall>x. x \<notin> set (sv_started (ho_server h)) \<and> x \<notin> set (sv_dropped (ho_server h)) \<longrightarrow> ho_seats h ! x = ss ! x)"

lemma sv_step_started: "sv_step s t \<Longrightarrow> set (sv_started s) \<subseteq> set (sv_started t)"
  by (induction rule: sv_step.induct) (auto simp: pool_defs split: option.splits if_splits)

lemma not_begun_step: "host_step h h' \<Longrightarrow> not_begun ss h \<Longrightarrow> not_begun ss h'"
proof (frule clients_ok_step, simp add: not_begun_def, induction rule: host_step.induct)
  case (life h t)
  have "set (sv_accepted t) \<inter> set (sv_dropped t) = {}"
    using sv_step_accepted [OF life.hyps(1)] life.prems life.hyps(2) by (auto simp: not_begun_def clients_ok_def)
  then show ?case using life sv_step_started [OF life.hyps(1)] by (auto simp: not_begun_def)
next
  case (rejected h t x)
  note D = sv_step_rejects [OF rejected.hyps]
  have "set (sv_accepted t) \<inter> set (sv_dropped t) = {}"
    using D rejected.prems rejected.hyps(2) by (auto simp: not_begun_def clients_ok_def)
  then show ?case using rejected sv_step_started [OF rejected.hyps(1)] by (auto simp: not_begun_def)
next
  case (loop_exit x h)
  have "x \<in> set (sv_started (ho_server h))"
    using running_accepted(1) [of "ho_server h" x] loop_exit by (simp add: not_begun_def clients_ok_def)
  then have "(ho_seats h)[x := v] ! z = ho_seats h ! z" if "z \<notin> set (sv_started (ho_server h))" for v z
    using that by (intro nth_list_update_neq) auto
  then show ?case using loop_exit by (simp add: not_begun_def)
next
  case (loop_body x h y w)
  have "x \<in> set (sv_started (ho_server h))"
    using running_accepted(1) [of "ho_server h" x] loop_body by (simp add: not_begun_def clients_ok_def)
  then have "(ho_seats h)[x := v] ! z = ho_seats h ! z" if "z \<notin> set (sv_started (ho_server h))" for v z
    using that by (intro nth_list_update_neq) auto
  then show ?case using loop_body by (simp add: not_begun_def)
qed (simp add: not_begun_def)

lemma not_begun_new: "not_begun ss (new_host n ss w)"
  using clients_ok_new [of n ss w] by (simp add: not_begun_def new_host_def new_server_def')

interpretation waiting: invariant_of_steps "\<lambda>h. \<exists>n w. h = new_host n ss w" host_step "not_begun ss" for ss
  by unfold_locales (auto intro: not_begun_step not_begun_new)

text \<open>Once the server is stopped, a client that has a place and is not inside its loop body keeps the
  seat y it has, or is hung up.\<close>

definition silent :: "nat \<Rightarrow> seat \<Rightarrow> host \<Rightarrow> bool" where
  "silent x y h \<longleftrightarrow> clients_ok h \<and> stopped (ho_server h) \<and> x \<in> set (sv_accepted (ho_server h)) \<and> x \<notin> ho_inside h
     \<and> ho_seats h ! x \<in> {y, hang_up y}"

lemma silent_step: "host_step h h' \<Longrightarrow> silent x y h \<Longrightarrow> silent x y h'"
proof (frule clients_ok_step, simp add: silent_def, induction rule: host_step.induct)
  case (life h t)
  then show ?case using sv_step_accepted [OF life.hyps(1)] stopped_step [OF life.hyps(1)] by (auto simp: silent_def)
next
  case (rejected h t z)
  note D = sv_step_rejects [OF rejected.hyps]
  then have "z \<noteq> x" using rejected.prems by (auto simp: silent_def clients_ok_def)
  then show ?case using rejected D stopped_step [OF rejected.hyps(1)] by (auto simp: silent_def)
next
  case (loop_exit z h)
  then have "x < length (ho_seats h)" by (auto simp: silent_def clients_ok_def)
  then show ?case using loop_exit by (cases "z = x") (auto simp: silent_def)
next
  case (loop_body z h v w)
  then have "(ho_seats h)[z := v] ! x = ho_seats h ! x" by (intro nth_list_update_neq) (auto simp: silent_def)
  then show ?case using loop_body by (simp add: silent_def)
qed (auto simp: silent_def stopped_def)

interpretation silence: invariant_of_steps "silent x y" host_step "silent x y" for x y
  by unfold_locales (assumption, rule silent_step)

lemma queued_not_inside:
  assumes "clients_ok h" and "x \<in> set (tq_queue (sv_queue (ho_server h)))"
  shows "x \<notin> ho_inside h" and "x \<in> set (sv_accepted (ho_server h))" and "x \<notin> set (sv_started (ho_server h))"
proof -
  have ok: "server_ok (ho_server h)" "distinct (sv_accepted (ho_server h))"
    using assms(1) by (simp_all add: clients_ok_def)
  have split: "sv_started (ho_server h) @ tq_queue (sv_queue (ho_server h)) = sv_accepted (ho_server h)"
    using ok(1) unfolding server_ok_def by simp
  then have "distinct (sv_started (ho_server h) @ tq_queue (sv_queue (ho_server h)))" using ok(2) by simp
  then show out: "x \<notin> set (sv_started (ho_server h))" using assms(2) by auto
  show "x \<in> set (sv_accepted (ho_server h))" using assms(2) split by (metis UnI2 set_append)
  have "Running x \<in> set (sv_workers (ho_server h))" if "x \<in> ho_inside h" using assms(1) that by (simp add: clients_ok_def)
  then show "x \<notin> ho_inside h" using running_accepted(1) [OF ok(1)] out by blast
qed

lemma host_server: "host_step\<^sup>*\<^sup>* h h' \<Longrightarrow> sv_step\<^sup>*\<^sup>* (ho_server h) (ho_server h')"
proof (induction rule: rtranclp_induct)
  case (step g g')
  have "ho_server g' = ho_server g \<or> sv_step (ho_server g) (ho_server g')"
    using step.hyps(2) by cases auto
  with step.IH show ?case by (auto intro: rtranclp.rtrancl_into_rtrancl)
qed simp

section \<open>Properties\<close>

text \<open>C3: the whole server refines one abstract store, in every run in which no two requests overlap:
  a request is read, carried out and answered before another session moves. However acceptor, queue, four or
  any other number of workers and the thread in \<open>stop\<close> interleave between the requests, well-formed
  requests with ordinary names (those in N), on a disk whose calls succeed, are answered from a single
  map, one after the other, each client's in its order; disk and index are those of
  the map; and when the pool has been shut down the socket of every client that was ever
  accepted is closed. For requests that do overlap this is not claimed: the file operations
  then still take effect in one order (C4), but an answer may come from between
  two of them, such as the size of a file that another session has replaced since, or 404 for a
  file that is being renamed.\<close>

theorem whole_server_refines_store:
  assumes "serving N (turns_left cs) w" and "list_all2 (answers N) cs ss" and "host_step\<^sup>*\<^sup>* (new_host n ss w) h"
    and "\<And>h' su. host_step\<^sup>*\<^sup>* (new_host n ss w) h' \<Longrightarrow> some_list cs \<Longrightarrow> length (list_files su (ho_world h')) < 2 ^ 31"
  shows "\<exists>sched cs'. spec_turns N cs (store_of N w) sched cs' (store_of N (ho_world h))
    \<and> list_all2 (serves N) cs' (ho_seats h) \<and> in_step N (ho_world h)
    \<and> (0 < n \<and> sv_joined (ho_server h) = Some n \<longrightarrow>
         (\<forall>x\<in>set (sv_accepted (ho_server h)). \<not> sk_open (fst (snd (ho_seats h ! x)))))"
proof -
  have ok: "clients_ok h" using assms(3) by (intro clients.inv_reachable [of "new_host n ss w"]) blast
  have "refines N cs (store_of N w) (new_host n ss w)"
    unfolding refines_def using assms(1,2) list_all2_mono [OF assms(2) answers_serves]
    by (intro exI [of _ "[]"] exI [of _ cs]) (simp add: new_host_def spec_end)
  then have "refines N cs (store_of N w) h" by (rule refines_run [OF assms(3) clients_ok_new _ assms(4)])
  then obtain sched cs' where cs': "spec_turns N cs (store_of N w) sched cs' (store_of N (ho_world h))"
      "list_all2 (serves N) cs' (ho_seats h)" "serving N (turns_left cs') (ho_world h)" unfolding refines_def by blast
  have "\<not> sk_open (fst (snd (ho_seats h ! x)))"
    if down: "0 < n" "sv_joined (ho_server h) = Some n" and x: "x \<in> set (sv_accepted (ho_server h))" for x
  proof -
    have "sv_step\<^sup>*\<^sup>* (new_server n) (ho_server h)" using host_server [OF assms(3)] by (simp add: new_host_def)
    then have "mset (sv_finished (ho_server h)) = mset (sv_accepted (ho_server h))" using joined_drained down by blast
    then have "x \<in> set (sv_finished (ho_server h))" using x by (metis set_mset_mset)
    then have over: "over (ho_seats h ! x)" and "x < length (ho_seats h)" using ok x unfolding clients_ok_def by auto
    then have "serves N (cs' ! x) (ho_seats h ! x)" using list_all2_nthD2 [OF cs'(2)] by blast
    with over show ?thesis by (cases "cs' ! x"; cases "ho_seats h ! x") (auto simp: over_def)
  qed
  with cs' show ?thesis by (auto simp: serving_def)
qed

text \<open>C40: what is drained from the queue at shutdown is not served. A client that still waits in the
  queue when \<open>running_\<close> is cleared has been read nothing from and sent nothing; from then on its
  seat stays as \<open>accept\<close> left it, or is hung up: no request of it is ever read, no byte is ever
  sent to it, and when a worker is through with it its socket is closed.\<close>

theorem stop_cuts_off_queue:
  assumes "host_step\<^sup>*\<^sup>* (new_host n ss w) h" and "stopped (ho_server h)" and "x \<in> set (tq_queue (sv_queue (ho_server h)))"
    and "host_step\<^sup>*\<^sup>* h h'" and "\<not> over (ss ! x)"
  shows "sent_to h' x = sk_tx (fst (snd (ss ! x))) \<and> sk_rx (fst (snd (ho_seats h' ! x))) = sk_rx (fst (snd (ss ! x)))
    \<and> ho_seats h ! x = ss ! x \<and> ho_seats h' ! x \<in> {ss ! x, hang_up (ss ! x)}
    \<and> (x \<in> set (sv_finished (ho_server h')) \<longrightarrow> over (ho_seats h' ! x) \<and> \<not> sk_open (fst (snd (ho_seats h' ! x))))"
proof -
  have begun: "not_begun ss h" using assms(1) by (intro waiting.inv_reachable [of "new_host n ss w"]) blast
  then have ok: "clients_ok h" by (simp add: not_begun_def)
  note queued = queued_not_inside [OF ok assms(3)]
  then have seat: "ho_seats h ! x = ss ! x" using begun by (auto simp: not_begun_def)
  then have "silent x (ss ! x) h" using ok queued assms(2) by (simp add: silent_def)
  then have later: "silent x (ss ! x) h'" by (rule silence.inv_run [OF assms(4)])
  then have "x \<in> set (sv_finished (ho_server h')) \<Longrightarrow> over (ho_seats h' ! x)" by (simp add: silent_def clients_ok_def)
  then show ?thesis using later seat assms(5) by (auto simp: silent_def sent_to_def)
qed

section \<open>Examples\<close>

lemma life_at:
  assumes "sv_step s t" and "sv_dropped t = sv_dropped s"
    and "\<And>x. sv_acceptor t = Holding x \<Longrightarrow> x < length ss \<and> x \<notin> set (sv_accepted s) \<and> x \<notin> set (sv_dropped s)"
    and "\<And>x. sv_finished t = sv_finished s @ [x] \<Longrightarrow> over (ss ! x)"
  shows "host_step \<lparr>ho_server = s, ho_seats = ss, ho_world = w, ho_inside = B\<rparr> \<lparr>ho_server = t, ho_seats = ss, ho_world = w, ho_inside = B\<rparr>"
  using life [of "\<lparr>ho_server = s, ho_seats = ss, ho_world = w, ho_inside = B\<rparr>" t] assms by (simp add: newcomer_def)

text \<open>One worker, one client, up to the client in the queue.\<close>

abbreviation at_start :: "nat server" where
  "at_start \<equiv> (new_server 1)\<lparr>sv_acceptor := Accepting, sv_running := True\<rparr>"

abbreviation one_queued :: "nat server" where
  "one_queued \<equiv> at_start\<lparr>sv_queue := (new_queue 64)\<lparr>tq_queue := [0]\<rparr>, sv_accepted := [0]\<rparr>"

lemma reach_one_queued:
  assumes "ss \<noteq> []"
  shows "host_step\<^sup>*\<^sup>* (new_host 1 ss w) \<lparr>ho_server = one_queued, ho_seats = ss, ho_world = w, ho_inside = {}\<rparr>"
proof -
  note sims = new_server_def' new_queue_def critical_sections
  let ?h = "\<lambda>s. \<lparr>ho_server = s, ho_seats = ss, ho_world = w, ho_inside = {}\<rparr>"
  let ?s2 = "at_start\<lparr>sv_acceptor := Holding 0\<rparr>"
  have "sv_step (new_server 1) at_start" by (rule sv_step.start) (simp add: sims)
  then have "host_step (?h (new_server 1)) (?h at_start)" by (rule life_at) (simp_all add: sims)
  moreover have "sv_step at_start ?s2" by (rule sv_step.accept) (simp_all add: sims)
  then have "host_step (?h at_start) (?h ?s2)" by (rule life_at) (use assms in \<open>simp_all add: sims\<close>)
  moreover have "sv_step ?s2 one_queued"
    using sv_step.hand_over [of ?s2 0 "(new_queue 64)\<lparr>tq_queue := [0]\<rparr>"] by (simp add: sims)
  then have "host_step (?h ?s2) (?h one_queued)" by (rule life_at) (simp_all add: sims)
  ultimately show ?thesis
    unfolding new_host_def by (meson converse_rtranclp_into_rtranclp rtranclp.rtrancl_refl)
qed

theorem stop_cuts_off_queue_witness:
  "\<exists>h. host_step\<^sup>*\<^sup>* (new_host 1 [demo_seat [Req LOGIN ''bob'' [] []]] demo_world) h \<and> sv_finished (ho_server h) = [0]
     \<and> sent_to h 0 = [] \<and> \<not> sk_open (fst (snd (ho_seats h ! 0)))"
proof -
  note sims = new_server_def' new_queue_def
  let ?ss = "[demo_seat [Req LOGIN ''bob'' [] []]]"
  let ?h = "\<lambda>s ss. \<lparr>ho_server = s, ho_seats = ss, ho_world = demo_world, ho_inside = {}\<rparr>"
  let ?s1 = "one_queued\<lparr>sv_running := False, sv_stopper := Closing\<rparr>"
  let ?s2 = "?s1\<lparr>sv_queue := new_queue 64, sv_workers := [Running 0], sv_started := [0]\<rparr>"
  let ?s3 = "?s2\<lparr>sv_workers := [Waiting], sv_finished := [0]\<rparr>"
  let ?out = "?ss[0 := hang_up (?ss ! 0)]"
  have "sv_step one_queued ?s1" using sv_step.stop [of one_queued] by (simp add: sims)
  then have "host_step (?h one_queued ?ss) (?h ?s1 ?ss)" by (rule life_at) (simp_all add: sims)
  then have queued: "host_step\<^sup>*\<^sup>* (new_host 1 ?ss demo_world) (?h ?s1 ?ss)"
    using reach_one_queued [of ?ss demo_world] by (simp add: rtranclp.rtrancl_into_rtrancl)
  have "sv_step ?s1 ?s2" using sv_step.take_task [of 0 ?s1 0 "new_queue 64"] by (simp add: sims critical_sections)
  then have "host_step (?h ?s1 ?ss) (?h ?s2 ?ss)" by (rule life_at) (simp_all add: sims)
  moreover have "host_step (?h ?s2 ?ss) (?h ?s2 ?out)"
    using loop_exit [of 0 "?h ?s2 ?ss"] by (simp add: over_def demo_seat_def)
  moreover have "sv_step ?s2 ?s3" using sv_step.finish_task [of 0 ?s2 0] by (simp add: sims)
  then have "host_step (?h ?s2 ?out) (?h ?s3 ?out)" by (rule life_at) (simp_all add: sims)
  ultimately have later: "host_step\<^sup>*\<^sup>* (?h ?s1 ?ss) (?h ?s3 ?out)" by (meson converse_rtranclp_into_rtranclp rtranclp.rtrancl_refl)
  have "sent_to (?h ?s3 ?out) 0 = sk_tx (fst (snd (?ss ! 0)))
      \<and> (0 \<in> set (sv_finished (ho_server (?h ?s3 ?out))) \<longrightarrow> \<not> sk_open (fst (snd (ho_seats (?h ?s3 ?out) ! 0))))"
    using stop_cuts_off_queue [OF queued _ _ later, of 0] by (simp add: stopped_def sims over_def demo_seat_def)
  then have "sent_to (?h ?s3 ?out) 0 = [] \<and> \<not> sk_open (fst (snd (ho_seats (?h ?s3 ?out) ! 0)))"
    by (simp add: demo_seat_def)
  then show ?thesis using rtranclp_trans [OF queued later] by (intro exI [of _ "?h ?s3 ?out"]) simp
qed

text \<open>The client says good-bye, and the server is stopped after it.\<close>

lemma demo_host_run:
  obtains h where "host_step\<^sup>*\<^sup>* (new_host 1 [demo_seat [Req QUIT [] [] []]] demo_world) h"
    and "sv_joined (ho_server h) = Some 1" and "sv_accepted (ho_server h) = [0]"
proof -
  note sims = new_server_def' new_queue_def critical_sections shutdown_queue_def pool_defs
  let ?ss = "[demo_seat [Req QUIT [] [] []]]"
  have "serving bob_names (Suc 8) demo_world" using demo_serving by simp
  moreover have "answers bob_names ([], Req QUIT [] [] [] # [], []) (?ss ! 0)"
    by (simp add: demo_seat_def request_ok_def request_fits_def)
  ultimately obtain y v where y: "turn (?ss ! 0) demo_world = (y, v)" "\<not> snd (snd y)"
    by (rule turn_answers) simp_all
  let ?h = "\<lambda>s ss w B. \<lparr>ho_server = s, ho_seats = ss, ho_world = w, ho_inside = B\<rparr>"
  let ?s1 = "one_queued\<lparr>sv_queue := new_queue 64, sv_workers := [Running 0], sv_started := [0]\<rparr>"
  let ?s2 = "?s1\<lparr>sv_workers := [Waiting], sv_finished := [0]\<rparr>"
  let ?s3 = "?s2\<lparr>sv_stopper := Closing, sv_running := False\<rparr>"
  let ?s4 = "?s3\<lparr>sv_stopper := Joining, sv_joined := Some 0, sv_queue := shutdown_queue (new_queue 64)\<rparr>"
  let ?s5 = "?s4\<lparr>sv_workers := [Exited]\<rparr>"
  let ?s6 = "?s5\<lparr>sv_joined := Some 1\<rparr>"
  have "sv_step one_queued ?s1" using sv_step.take_task [of 0 one_queued 0 "new_queue 64"] by (simp add: sims)
  then have "host_step (?h one_queued ?ss demo_world {}) (?h ?s1 ?ss demo_world {})" by (rule life_at) (simp_all add: sims)
  moreover have "host_step (?h ?s1 ?ss demo_world {}) (?h ?s1 ?ss demo_world {0})"
    using loop_test [of 0 "?h ?s1 ?ss demo_world {}"] by (simp add: over_def demo_seat_def)
  moreover have "host_step (?h ?s1 ?ss demo_world {0}) (?h ?s1 [y] v {})"
    using loop_body [of 0 "?h ?s1 ?ss demo_world {0}" y v] y(1) by simp
  moreover have "sv_step ?s1 ?s2" using sv_step.finish_task [of 0 ?s1 0] by (simp add: sims)
  then have "host_step (?h ?s1 [y] v {}) (?h ?s2 [y] v {})" by (rule life_at) (use y(2) in \<open>simp_all add: sims over_def\<close>)
  moreover have "sv_step ?s2 ?s3" using sv_step.stop [of ?s2] by (simp add: sims)
  then have "host_step (?h ?s2 [y] v {}) (?h ?s3 [y] v {})" by (rule life_at) (simp_all add: sims)
  moreover have "sv_step ?s3 ?s4" using sv_step.shutdown_pool [of ?s3] by (simp add: sims)
  then have "host_step (?h ?s3 [y] v {}) (?h ?s4 [y] v {})" by (rule life_at) (simp_all add: sims)
  moreover have "sv_step ?s4 ?s5" using sv_step.exit_worker [of 0 ?s4 "shutdown_queue (new_queue 64)"] by (simp add: sims)
  then have "host_step (?h ?s4 [y] v {}) (?h ?s5 [y] v {})" by (rule life_at) (simp_all add: sims)
  moreover have "sv_step ?s5 ?s6" using sv_step.join_worker [of ?s5] by (simp add: sims)
  then have "host_step (?h ?s5 [y] v {}) (?h ?s6 [y] v {})" by (rule life_at) (simp_all add: sims)
  ultimately have "host_step\<^sup>*\<^sup>* (?h one_queued ?ss demo_world {}) (?h ?s6 [y] v {})"
    by (meson converse_rtranclp_into_rtranclp rtranclp.rtrancl_refl)
  with reach_one_queued [of ?ss demo_world] have "host_step\<^sup>*\<^sup>* (new_host 1 ?ss demo_world) (?h ?s6 [y] v {})"
    using rtranclp_trans by fastforce
  then show thesis by (rule that) (simp_all add: sims)
qed

theorem whole_server_refines_store_witness:
  "\<exists>h. host_step\<^sup>*\<^sup>* (new_host 1 [demo_seat [Req QUIT [] [] []]] demo_world) h
     \<and> sv_accepted (ho_server h) = [0] \<and> \<not> sk_open (fst (snd (ho_seats h ! 0))) \<and> in_step bob_names (ho_world h)"
proof -
  obtain h where h: "host_step\<^sup>*\<^sup>* (new_host 1 [demo_seat [Req QUIT [] [] []]] demo_world) h"
      "sv_joined (ho_server h) = Some 1" "sv_accepted (ho_server h) = [0]" by (rule demo_host_run)
  let ?c = "demo_script [Req QUIT [] [] []]"
  have room: "serving bob_names (turns_left [?c]) demo_world"
    using serving_less [OF demo_serving] by (simp add: turns_left_def to_come_def demo_script_def)
  have seats: "list_all2 (answers bob_names) [?c] [demo_seat [Req QUIT [] [] []]]"
    by (simp add: request_ok_def request_fits_def)
  have "\<not> some_list [?c]" by (simp add: some_list_def demo_script_def)
  with whole_server_refines_store [OF room seats h(1)] h show ?thesis by auto
qed

end
