(* ===== verification/Load_Test.thy ===== *)
theory Load_Test
  imports Server_Spec
begin

text \<open>
  src/tests/load_test.cpp: one thread of the load test, a client that logs in and then uploads,
  downloads, lists and deletes a file of its own again and again, counting the answers it
  wanted. What it prints is left out. \<open>main\<close> and its threads are the subject of theory \<open>Load_Run\<close>.
\<close>

section \<open>The thread\<close>

text \<open>
  The results of \<open>send_header\<close>, \<open>send_all\<close> and \<open>recv_header\<close> are not looked at. A header
  that was not received holds whatever was in memory: the parameter \<open>junk\<close>.
\<close>

definition post :: "bool \<Rightarrow> socket \<Rightarrow> MessageHeader \<Rightarrow> bytes list \<Rightarrow> socket" where
  "post be s hdr parts = fold (\<lambda>d s. snd (send_all s d (length d))) parts (snd (send_header be s hdr))"

definition read_reply :: "(nat \<Rightarrow> bool) \<Rightarrow> bool \<Rightarrow> (socket \<Rightarrow> MessageHeader) \<Rightarrow> socket \<Rightarrow> MessageHeader result \<times> socket" where
  "read_reply alloc be junk s =
     (case recv_header be s of
        (r, s) \<Rightarrow>
          (let hdr = (case r of Some hdr \<Rightarrow> hdr | None \<Rightarrow> junk s); n = unat (payload_length hdr)
           in if 0 < payload_length hdr
              then (if alloc n then (case recv_all s n of (_, s) \<Rightarrow> (Value hdr, s)) else (Raised, s))
              else (Value hdr, s)))"

record load_totals =
  total_requests :: u64
  total_success :: u64
  total_latency_ms :: u64

definition load_user :: "nat \<Rightarrow> bytes" where
  "load_user thread_id = ''loadtest_'' @ to_string thread_id"

definition load_name :: "nat \<Rightarrow> bytes" where
  "load_name i = ''file_'' @ to_string i @ ''.dat''"

definition upload_data :: bytes where
  "upload_data = replicate 8192 (CHR ''A'')"

text \<open>One turn of the loop: whether all four answers were the right ones.\<close>

definition load_cycle ::
    "(nat \<Rightarrow> bool) \<Rightarrow> bool \<Rightarrow> (socket \<Rightarrow> MessageHeader) \<Rightarrow> nat \<Rightarrow> socket \<Rightarrow> bool result \<times> socket" where
  "load_cycle alloc be junk i s =
     (let filename = load_name i; len = word_of_nat (length filename);
          s = post be s (make_request UPLOAD (word_of_nat (length upload_data)) len 0) [filename, upload_data]
      in case read_reply alloc be junk s of
           (Raised, s) \<Rightarrow> (Raised, s)
         | (Value ul_resp, s) \<Rightarrow>
      (let s = post be s (make_request DOWNLOAD 0 len 0) [filename]
       in case read_reply alloc be junk s of
            (Raised, s) \<Rightarrow> (Raised, s)
          | (Value dl_resp, s) \<Rightarrow>
      (let s = post be s (make_request LIST 0 0 0) []
       in case read_reply alloc be junk s of
            (Raised, s) \<Rightarrow> (Raised, s)
          | (Value list_resp, s) \<Rightarrow>
      (let s = post be s (make_request DELETE_F 0 len 0) [filename]
       in case read_reply alloc be junk s of
            (Raised, s) \<Rightarrow> (Raised, s)
          | (Value del_resp, s) \<Rightarrow>
              (Value (status ul_resp = status_code CREATED \<and> status dl_resp = status_code OK
                 \<and> status list_resp = status_code OK \<and> status del_resp = status_code OK), s)))))"

text \<open>How long a cycle took, in milliseconds, is the parameter \<open>ms\<close>.\<close>

fun load_loop ::
    "(nat \<Rightarrow> bool) \<Rightarrow> bool \<Rightarrow> (socket \<Rightarrow> MessageHeader) \<Rightarrow> (nat \<Rightarrow> u64) \<Rightarrow> nat list \<Rightarrow> load_totals \<Rightarrow> socket
     \<Rightarrow> unit result \<times> load_totals \<times> socket" where
  "load_loop alloc be junk ms [] tt s = (Value (), tt, s)"
| "load_loop alloc be junk ms (i # is) tt s =
     (case load_cycle alloc be junk i s of
        (Raised, s) \<Rightarrow> (Raised, tt, s)
      | (Value ok, s) \<Rightarrow>
          load_loop alloc be junk ms is
            (tt\<lparr>total_latency_ms := total_latency_ms tt + ms i, total_requests := total_requests tt + 4,
                total_success := total_success tt + (if ok then 4 else 0)\<rparr>) s)"

text \<open>Without a connection (\<open>conn\<close> is None) the thread says so and returns.\<close>

definition client_thread ::
    "(nat \<Rightarrow> bool) \<Rightarrow> bool \<Rightarrow> (socket \<Rightarrow> MessageHeader) \<Rightarrow> (nat \<Rightarrow> u64) \<Rightarrow> nat \<Rightarrow> int \<Rightarrow> socket option \<Rightarrow> load_totals
     \<Rightarrow> unit result \<times> load_totals \<times> socket option" where
  "client_thread alloc be junk ms thread_id num_requests conn tt =
     (case conn of
        None \<Rightarrow> (Value (), tt, None)
      | Some s \<Rightarrow>
          (let username = load_user thread_id;
               s = post be s (make_request LOGIN 0 0 (word_of_nat (length username))) [username]
           in case read_reply alloc be junk s of
                (Raised, s) \<Rightarrow> (Raised, tt, Some s)
              | (Value login_resp, s) \<Rightarrow>
                  (case load_loop alloc be junk ms [0..<nat num_requests] tt s of
                     (Raised, tt, s) \<Rightarrow> (Raised, tt, Some s)
                   | (Value _, tt, s) \<Rightarrow> (Value (), tt, Some (closesocket s)))))"

section \<open>What it sends\<close>

lemma to_string_length: "n < 10 ^ Suc k \<Longrightarrow> length (to_string n) \<le> Suc k"
proof (induction k arbitrary: n)
  case 0
  then show ?case by (simp add: to_string.simps)
next
  case (Suc k)
  then have "length (to_string (n div 10)) \<le> Suc k" by (intro Suc.IH) (simp add: less_mult_imp_div_less)
  then show ?case by (subst to_string.simps) simp
qed

lemma load_lengths: "n < 2 ^ 31 \<Longrightarrow> length (load_user n) < 2 ^ 30 \<and> length (load_name n) < 2 ^ 30"
proof -
  assume "n < 2 ^ 31"
  then have "n < 10 ^ Suc 9" by simp
  from to_string_length [OF this] show ?thesis by (simp add: load_user_def load_name_def)
qed

fun cycle_requests :: "nat \<Rightarrow> request list" where
  "cycle_requests i = [Req UPLOAD [] (load_name i) upload_data, Req DOWNLOAD [] (load_name i) [],
     Req LIST [] [] [], Req DELETE_F [] (load_name i) []]"

definition load_requests :: "nat \<Rightarrow> nat list \<Rightarrow> request list" where
  "load_requests thread_id is = Req LOGIN (load_user thread_id) [] [] # concat (map cycle_requests is)"

lemma post_sends:
  assumes "wire_ok s" and "\<forall>d\<in>set parts. length d < 2 ^ 31"
  shows "sk_tx (post be s hdr parts) = sk_tx s @ header_wire hdr @ concat parts \<and> only_writes s (post be s hdr parts)"
proof -
  have parts: "sk_tx (fold (\<lambda>d s. snd (send_all s d (length d))) ps t) = sk_tx t @ concat ps
      \<and> only_writes t (fold (\<lambda>d s. snd (send_all s d (length d))) ps t)"
    if "wire_ok t" "\<forall>d\<in>set ps. length d < 2 ^ 31" for ps t
    using that
  proof (induction ps arbitrary: t)
    case (Cons d ps)
    then obtain u where u: "send_all t d (length d) = (True, u)" "sk_tx u = sk_tx t @ d" "only_writes t u"
      using send_all_complete [of t d] by auto
    have "wire_ok u" using only_writes_contracts [OF u(3)] Cons.prems(1) by simp
    from Cons.IH [OF this] Cons.prems(2) u show ?case by (auto intro: only_writes_trans)
  qed simp
  obtain t where t: "send_header be s hdr = (True, t)" "sk_tx t = sk_tx s @ header_wire hdr" "only_writes s t"
    using send_all_complete [of s "header_wire hdr"] assms(1) by (auto simp: send_header_wire)
  have "wire_ok t" using only_writes_contracts [OF t(3)] assms(1) by simp
  from parts [OF this assms(2)] t show ?thesis by (auto simp: post_def intro: only_writes_trans)
qed

lemma read_reply_reads:
  assumes "read_reply alloc be junk s = (r, t)" and "\<And>n. alloc n"
  obtains hdr where "r = Value hdr" and "only_reads s t"
proof -
  obtain h u where u: "recv_header be s = (h, u)" by fastforce
  obtain x v where v: "recv_all u (unat (payload_length (case h of Some hdr \<Rightarrow> hdr | None \<Rightarrow> junk u))) = (x, v)" by fastforce
  have "only_reads s u" "only_reads s v"
    using recv_header_reads [OF u] recv_all_reads [OF v] only_reads_trans by blast+
  with assms u v that show thesis by (auto simp: read_reply_def Let_def split: if_splits)
qed

text \<open>A request is posted and an answer read, whatever it is.\<close>

lemma exchange_sends:
  assumes "wire_ok s" and "request_fits r" and "parts = [rq_user r, rq_file r, rq_body r] \<or> concat parts = rq_user r @ rq_file r @ rq_body r"
    and "\<forall>d\<in>set parts. length d < 2 ^ 31" and "hdr = request_header r"
    and "read_reply alloc be junk (post be s hdr parts) = (x, t)" and "\<And>n. alloc n"
  obtains h where "x = Value h" and "wire_ok t" and "sk_tx t = sk_tx s @ request_wire r"
proof -
  note p = post_sends [OF assms(1,4), of be hdr]
  obtain h where h: "x = Value h" "only_reads (post be s hdr parts) t" by (rule read_reply_reads [OF assms(6,7)])
  have "sk_tx t = sk_tx s @ request_wire r"
    using p only_reads_contracts(5) [OF h(2)] assms(3,5) by (auto simp: request_wire_def meta_wire_def)
  moreover have "wire_ok t"
    using only_reads_contracts [OF h(2)] only_writes_contracts [OF p [THEN conjunct2]] assms(1) by simp
  ultimately show thesis using that h(1) by blast
qed

lemma upload_data_simps [simp]: "length upload_data = 8192" "upload_data \<noteq> []"
  by (simp_all add: upload_data_def)

lemma cycle_fits: "i < 2 ^ 31 \<Longrightarrow> r \<in> set (cycle_requests i) \<Longrightarrow> request_fits r"
  using load_lengths [of i] by (auto simp: request_fits_def)

lemma cycle_headers:
  "make_request UPLOAD (word_of_nat (length upload_data)) (word_of_nat (length (load_name i))) 0 = request_header (Req UPLOAD [] (load_name i) upload_data)"
  "make_request DOWNLOAD 0 (word_of_nat (length (load_name i))) 0 = request_header (Req DOWNLOAD [] (load_name i) [])"
  "make_request LIST 0 0 0 = request_header (Req LIST [] [] [])"
  "make_request DELETE_F 0 (word_of_nat (length (load_name i))) 0 = request_header (Req DELETE_F [] (load_name i) [])"
  "make_request LOGIN 0 0 (word_of_nat (length (load_user i))) = request_header (Req LOGIN (load_user i) [] [])"
  by (simp_all add: request_header_def)

lemma cycle_sends:
  assumes "load_cycle alloc be junk i s = (x, t)" and "wire_ok s" and "i < 2 ^ 31" and "\<And>n. alloc n"
  obtains ok where "x = Value ok" and "wire_ok t" and "sk_tx t = sk_tx s @ concat (map request_wire (cycle_requests i))"
proof -
  note len = load_lengths [OF assms(3)]
  note fits = cycle_fits [OF assms(3)]
  have name: "length (load_name i) < 2 ^ 31" using len by simp
  let ?U = "Req UPLOAD [] (load_name i) upload_data" and ?D = "Req DOWNLOAD [] (load_name i) []"
    and ?L = "Req LIST [] [] []" and ?X = "Req DELETE_F [] (load_name i) []"
  obtain x1 s1 where r1: "read_reply alloc be junk (post be s (request_header ?U) [load_name i, upload_data]) = (x1, s1)" by fastforce
  obtain h1 where h1: "x1 = Value h1" "wire_ok s1" "sk_tx s1 = sk_tx s @ request_wire ?U"
    by (rule exchange_sends [OF assms(2) _ _ _ refl r1 assms(4)]) (use fits name in auto)
  obtain x2 s2 where r2: "read_reply alloc be junk (post be s1 (request_header ?D) [load_name i]) = (x2, s2)" by fastforce
  obtain h2 where h2: "x2 = Value h2" "wire_ok s2" "sk_tx s2 = sk_tx s1 @ request_wire ?D"
    by (rule exchange_sends [OF h1(2) _ _ _ refl r2 assms(4)]) (use fits name in auto)
  obtain x3 s3 where r3: "read_reply alloc be junk (post be s2 (request_header ?L) []) = (x3, s3)" by fastforce
  obtain h3 where h3: "x3 = Value h3" "wire_ok s3" "sk_tx s3 = sk_tx s2 @ request_wire ?L"
    by (rule exchange_sends [OF h2(2) _ _ _ refl r3 assms(4)]) (use fits in auto)
  obtain x4 s4 where r4: "read_reply alloc be junk (post be s3 (request_header ?X) [load_name i]) = (x4, s4)" by fastforce
  obtain h4 where h4: "x4 = Value h4" "wire_ok s4" "sk_tx s4 = sk_tx s3 @ request_wire ?X"
    by (rule exchange_sends [OF h3(2) _ _ _ refl r4 assms(4)]) (use fits name in auto)
  show thesis
    using assms(1) r1 r2 r3 r4 h1 h2 h3 h4 that unfolding load_cycle_def Let_def cycle_headers by auto
qed

lemma loop_sends:
  assumes "load_loop alloc be junk ms is tt s = (x, tt', t)" and "wire_ok s" and "\<forall>i\<in>set is. i < 2 ^ 31" and "\<And>n. alloc n"
  shows "x = Value () \<and> wire_ok t \<and> sk_tx t = sk_tx s @ concat (map request_wire (concat (map cycle_requests is)))"
  using assms(1-3)
proof (induction "is" arbitrary: tt s)
  case (Cons i "is")
  obtain y u where y: "load_cycle alloc be junk i s = (y, u)" by fastforce
  obtain ok where ok: "y = Value ok" "wire_ok u" "sk_tx u = sk_tx s @ concat (map request_wire (cycle_requests i))"
    by (rule cycle_sends [OF y Cons.prems(2) _ assms(4)]) (use Cons.prems(3) in auto)
  show ?case using Cons.IH [OF _ ok(2)] Cons.prems(1,3) y ok by (simp del: cycle_requests.simps)
qed simp

section \<open>What it reads\<close>

lemma reply_read:
  assumes "read_reply alloc be junk s = (x, t)" and "wire_ok s" and "\<And>n. alloc n"
    and "sk_rx s = response_wire k reply @ rest" and "length (snd reply) < 2 ^ 31"
  obtains h where "x = Value h" and "status h = status_code (fst reply)" and "sk_rx t = rest" and "wire_ok t"
proof -
  obtain st msg where reply: "reply = (st, msg)" by fastforce
  let ?h = "response_header k st (length msg)"
  have h: "status ?h = status_code st" "unat (payload_length ?h) = length msg"
    using assms(5) by (simp_all add: response_header_def make_response_def unat_of_nat reply)
  obtain u where u: "recv_header be s = (Some ?h, u)" "sk_rx u = msg @ rest" "only_reads s u"
    using recv_header_wire [of s ?h "msg @ rest" be] assms(2,4) by (auto simp: response_wire_def reply)
  note U = only_reads_contracts [OF u(3)]
  obtain v where v: "recv_all u (length msg) = (Some msg, v)" "sk_rx v = rest" "only_reads u v"
    using recv_all_append [of u msg rest] U assms(2,5) u(2) reply by auto
  note V = only_reads_contracts [OF v(3)]
  show thesis
  proof (cases "0 < payload_length ?h")
    case True
    then show thesis using assms(1,2,3) u v h U V reply by (intro that [of ?h]) (auto simp: read_reply_def)
  next
    case False
    then have "msg = []" using h(2) by (simp add: word_gt_0)
    then show thesis using assms(1,2) u h U reply False by (intro that [of ?h]) (auto simp: read_reply_def Let_def)
  qed
qed

text \<open>The answer waits on the stream, after the request has gone out.\<close>

lemma exchange_reads:
  assumes "read_reply alloc be junk (post be s hdr parts) = (x, t)" and "wire_ok s" and "\<forall>d\<in>set parts. length d < 2 ^ 31"
    and "\<And>n. alloc n" and "sk_rx s = response_wire k reply @ rest" and "length (snd reply) < 2 ^ 31"
  obtains h where "x = Value h" and "status h = status_code (fst reply)" and "sk_rx t = rest" and "wire_ok t"
proof -
  note C = only_writes_contracts [OF post_sends [OF assms(2,3), of be hdr, THEN conjunct2]]
  show thesis by (rule reply_read [OF assms(1) _ assms(4) _ assms(6)], use C assms(2,5) in simp, use C assms(5) in simp, rule that)
qed

text \<open>The four answers a cycle hopes for.\<close>

definition good_replies :: "bytes \<Rightarrow> bytes" where
  "good_replies listing =
     response_wire (command_code UPLOAD) (CREATED, ''File uploaded successfully.'')
     @ response_wire (command_code DOWNLOAD) (OK, upload_data)
     @ response_wire (command_code LIST) (OK, listing)
     @ response_wire (command_code DELETE_F) (OK, ''File deleted successfully.'')"

lemma cycle_reads:
  assumes "load_cycle alloc be junk i s = (x, t)" and "wire_ok s" and "i < 2 ^ 31" and "\<And>n. alloc n"
    and "sk_rx s = good_replies listing @ rest" and "length listing < 2 ^ 31"
  shows "x = Value True \<and> sk_rx t = rest"
proof -
  have name: "length (load_name i) < 2 ^ 31" using load_lengths [OF assms(3)] by simp
  let ?len = "word_of_nat (length (load_name i)) :: u64"
  have rx: "sk_rx s = response_wire (command_code UPLOAD) (CREATED, ''File uploaded successfully.'') @
      response_wire (command_code DOWNLOAD) (OK, upload_data) @ response_wire (command_code LIST) (OK, listing) @
      response_wire (command_code DELETE_F) (OK, ''File deleted successfully.'') @ rest"
    using assms(5) by (simp add: good_replies_def del: command_code.simps)
  obtain x1 s1 where r1: "read_reply alloc be junk (post be s (make_request UPLOAD (word_of_nat (length upload_data)) ?len 0)
      [load_name i, upload_data]) = (x1, s1)" by fastforce
  obtain h1 where h1: "x1 = Value h1" "status h1 = status_code CREATED" "wire_ok s1"
      "sk_rx s1 = response_wire (command_code DOWNLOAD) (OK, upload_data) @ response_wire (command_code LIST) (OK, listing) @
        response_wire (command_code DELETE_F) (OK, ''File deleted successfully.'') @ rest"
    by (rule exchange_reads [OF r1 assms(2) _ assms(4) rx]) (use name in simp_all)
  obtain x2 s2 where r2: "read_reply alloc be junk (post be s1 (make_request DOWNLOAD 0 ?len 0) [load_name i]) = (x2, s2)" by fastforce
  obtain h2 where h2: "x2 = Value h2" "status h2 = status_code OK" "wire_ok s2"
      "sk_rx s2 = response_wire (command_code LIST) (OK, listing) @ response_wire (command_code DELETE_F) (OK, ''File deleted successfully.'') @ rest"
    by (rule exchange_reads [OF r2 h1(3) _ assms(4) h1(4)]) (use name in simp_all)
  obtain x3 s3 where r3: "read_reply alloc be junk (post be s2 (make_request LIST 0 0 0) []) = (x3, s3)" by fastforce
  obtain h3 where h3: "x3 = Value h3" "status h3 = status_code OK" "wire_ok s3"
      "sk_rx s3 = response_wire (command_code DELETE_F) (OK, ''File deleted successfully.'') @ rest"
    by (rule exchange_reads [OF r3 h2(3) _ assms(4) h2(4)]) (use assms(6) in simp_all)
  obtain x4 s4 where r4: "read_reply alloc be junk (post be s3 (make_request DELETE_F 0 ?len 0) [load_name i]) = (x4, s4)" by fastforce
  obtain h4 where h4: "x4 = Value h4" "status h4 = status_code OK" "sk_rx s4 = rest"
    by (rule exchange_reads [OF r4 h3(3) _ assms(4) h3(4)]) (use name in simp_all)
  show ?thesis
    using assms(1) r1 r2 r3 r4 h1 h2 h3 h4 unfolding load_cycle_def Let_def by (auto simp del: status_code.simps)
qed

section \<open>What the server answers\<close>

text \<open>The abstract server's answers to a cycle, and the store after it: the file is gone again.\<close>

lemma cycle_session:
  assumes "u \<noteq> []" and "spec_session lst (cycle_requests i @ rs) u M = (out, su, M')"
  obtains out' where "spec_session (\<lambda>j. lst (4 + j)) rs u (M((u, load_name i) := None)) = (out', su, M')"
    and "out = good_replies (lst 2) @ out'"
proof -
  have shift: "(\<lambda>j. lst (Suc (Suc (Suc (Suc j))))) = (\<lambda>j. lst (4 + j))" by (rule ext, rule arg_cong [of _ _ lst]) arith
  obtain out' su' M'' where rest: "spec_session (\<lambda>j. lst (4 + j)) rs u (M((u, load_name i) := None)) = (out', su', M'')"
    by (metis prod_cases3)
  have two: "lst (Suc (Suc 0)) = lst 2" by (simp add: numeral_2_eq_2)
  have "out = good_replies (lst 2) @ out' \<and> su' = su \<and> M'' = M'"
    using assms rest unfolding good_replies_def two [symmetric]
    by (simp add: shift fun_upd_idem_iff split: prod.splits del: command_code.simps)
  with rest show thesis by (intro that) auto
qed

lemma cycle_listing: "listings_short lst (cycle_requests i @ rs) \<Longrightarrow> length (lst 2) < 2 ^ 31 \<and> listings_short (\<lambda>j. lst (4 + j)) rs"
proof -
  have shift: "(\<lambda>j. lst (Suc (Suc (Suc (Suc j))))) = (\<lambda>j. lst (4 + j))" by (rule ext, rule arg_cong [of _ _ lst]) arith
  show "listings_short lst (cycle_requests i @ rs) \<Longrightarrow> length (lst 2) < 2 ^ 31 \<and> listings_short (\<lambda>j. lst (4 + j)) rs"
    by (simp add: shift numeral_2_eq_2)
qed

text \<open>All cycles are answered with what they hope for.\<close>

lemma loop_succeeds:
  assumes "load_loop alloc be junk ms is tt s = (x, tt', t)" and "wire_ok s" and "\<forall>i\<in>set is. i < 2 ^ 31" and "\<And>n. alloc n"
    and "u \<noteq> []" and "spec_session lst (concat (map cycle_requests is)) u M = (out, su, M')"
    and "listings_short lst (concat (map cycle_requests is))" and "prefix out (sk_rx s)"
  shows "total_requests tt' = total_requests tt + word_of_nat (4 * length is)
    \<and> total_success tt' = total_success tt + word_of_nat (4 * length is)"
  using assms(1-3,6-8)
proof (induction "is" arbitrary: tt s lst M out)
  case (Cons i "is")
  obtain out' where out': "spec_session (\<lambda>j. lst (4 + j)) (concat (map cycle_requests is)) u (M((u, load_name i) := None)) = (out', su, M')"
      "out = good_replies (lst 2) @ out'"
    using cycle_session [OF assms(5), of lst i "concat (map cycle_requests is)" M out su M'] Cons.prems(4)
    by (auto simp del: cycle_requests.simps spec_session.simps)
  have short: "length (lst 2) < 2 ^ 31" "listings_short (\<lambda>j. lst (4 + j)) (concat (map cycle_requests is))"
    using cycle_listing [of lst i "concat (map cycle_requests is)"] Cons.prems(5) by (simp_all del: cycle_requests.simps)
  obtain rest where rest: "sk_rx s = good_replies (lst 2) @ out' @ rest" using Cons.prems(6) out'(2) by (auto simp: prefix_def)
  have i: "i < 2 ^ 31" using Cons.prems(3) by simp
  obtain y v where y: "load_cycle alloc be junk i s = (y, v)" by fastforce
  have good: "y = Value True" "sk_rx v = out' @ rest" using cycle_reads [OF y Cons.prems(2) i assms(4) rest short(1)] by simp_all
  have "wire_ok v" by (rule cycle_sends [OF y Cons.prems(2) i assms(4)]) auto
  let ?tt = "tt\<lparr>total_latency_ms := total_latency_ms tt + ms i, total_requests := total_requests tt + 4,
      total_success := total_success tt + 4\<rparr>"
  have later: "\<forall>i\<in>set is. i < 2 ^ 31" and pre: "prefix out' (sk_rx v)" using Cons.prems(3) good(2) by simp_all
  have loop: "load_loop alloc be junk ms is ?tt v = (x, tt', t)" using Cons.prems(1) y good(1) by simp
  have "total_requests tt' = total_requests ?tt + word_of_nat (4 * length is)
      \<and> total_success tt' = total_success ?tt + word_of_nat (4 * length is)"
    by (rule Cons.IH [OF loop \<open>wire_ok v\<close> later out'(1) short(2) pre])
  then show ?case by (simp add: add.assoc)
qed simp

lemma load_session_ok:
  assumes "\<forall>i\<in>set is. (u, load_name i) \<in> N \<and> i < 2 ^ 31" and "u \<noteq> []"
  shows "session_ok N u (concat (map cycle_requests is))"
  using assms
proof (induction "is")
  case (Cons i "is")
  have "request_fits r" if "r \<in> set (cycle_requests i)" for r using cycle_fits [OF _ that] Cons.prems by simp
  with Cons show ?case by (simp add: request_ok_def next_user_def)
qed simp

lemma length_load_requests: "length (load_requests thread is) = Suc (4 * length is)"
  by (simp add: load_requests_def length_concat o_def sum_list_triv)

lemma thread_sends:
  assumes "wire_ok s" and "\<And>m. alloc m" and "thread_id < 2 ^ 31" and "num_requests < 2 ^ 31" and "n = nat num_requests"
    and "client_thread alloc be junk ms thread_id num_requests (Some s) tt = (r, tt', Some c)"
  obtains h s1 s2 where
    "read_reply alloc be junk (post be s (request_header (Req LOGIN (load_user thread_id) [] [])) [load_user thread_id]) = (Value h, s1)"
    and "wire_ok s1" and "load_loop alloc be junk ms [0..<n] tt s1 = (Value (), tt', s2)" and "r = Value ()"
    and "sk_tx c = sk_tx s @ concat (map request_wire (load_requests thread_id [0..<n]))"
proof -
  let ?u = "load_user thread_id" and ?L = "Req LOGIN (load_user thread_id) [] []"
  have u: "length ?u < 2 ^ 30" using load_lengths [OF assms(3)] by simp
  have fits: "request_fits ?L" using u by (simp add: request_fits_def)
  have small: "\<forall>i\<in>set [0..<n]. i < 2 ^ 31" using assms(4,5) by auto
  obtain x s1 where hello: "read_reply alloc be junk (post be s (request_header ?L) [?u]) = (x, s1)" by fastforce
  obtain h where h: "x = Value h" "wire_ok s1" "sk_tx s1 = sk_tx s @ request_wire ?L"
    by (rule exchange_sends [OF assms(1) fits _ _ refl hello assms(2)]) (use u in simp_all)
  obtain y tt1 s2 where loop: "load_loop alloc be junk ms [0..<n] tt s1 = (y, tt1, s2)" by (metis prod_cases3)
  have sends: "y = Value ()" "sk_tx s2 = sk_tx s1 @ concat (map request_wire (concat (map cycle_requests [0..<n])))"
    using loop_sends [OF loop h(2) small assms(2)] by simp_all
  have "r = Value ()" "tt' = tt1" "sk_tx c = sk_tx s @ concat (map request_wire (load_requests thread_id [0..<n]))"
    using assms(6) hello h loop sends
    unfolding client_thread_def option.case Let_def cycle_headers assms(5) [symmetric] load_requests_def
    by (auto simp: closesocket_def)
  with hello h(1,2) loop sends(1) show thesis by (intro that [of h s1 s2]) simp_all
qed

lemma thread_counts:
  assumes "client_thread alloc be junk ms thread_id num_requests (Some s) tt = (r, tt', Some c)"
    and "wire_ok s" and "\<And>m. alloc m" and "thread_id < 2 ^ 31" and "num_requests < 2 ^ 31" and "n = nat num_requests"
    and "spec_session lst (load_requests thread_id [0..<n]) [] M = (out, su, M')"
    and "listings_short lst (load_requests thread_id [0..<n])" and "prefix out (sk_rx s)"
  shows "total_requests tt' = total_requests tt + word_of_nat (4 * n)
    \<and> total_success tt' = total_success tt + word_of_nat (4 * n)"
proof -
  let ?u = "load_user thread_id" and ?hello = "''Welcome, '' @ load_user thread_id @ ''!''" and ?cs = "concat (map cycle_requests [0..<n])"
  have u: "?u \<noteq> []" "length ?u < 2 ^ 30" using load_lengths [OF assms(4)] by (simp_all add: load_user_def)
  have small: "\<forall>i\<in>set [0..<n]. i < 2 ^ 31" using assms(5,6) by auto
  obtain h s1 s2 where c: "read_reply alloc be junk (post be s (request_header (Req LOGIN ?u [] [])) [?u]) = (Value h, s1)"
      "wire_ok s1" "load_loop alloc be junk ms [0..<n] tt s1 = (Value (), tt', s2)"
    by (rule thread_sends [OF assms(2-6,1)], rule that)
  obtain out1 where out1: "spec_session (\<lambda>i. lst (Suc i)) ?cs ?u M = (out1, su, M')"
      "out = response_wire (command_code LOGIN) (OK, ?hello) @ out1"
    using assms(7) by (auto simp: load_requests_def split: prod.splits)
  obtain rest where rest: "sk_rx s = response_wire (command_code LOGIN) (OK, ?hello) @ out1 @ rest"
    using assms(9) out1(2) by (auto simp: prefix_def)
  have len: "length (snd (OK, ?hello)) < 2 ^ 31" "\<forall>d\<in>set [?u]. length d < 2 ^ 31" using u(2) by simp_all
  obtain h' where "sk_rx s1 = out1 @ rest" by (rule exchange_reads [OF c(1) assms(2) len(2) assms(3) rest len(1)])
  then have pre: "prefix out1 (sk_rx s1)" by simp
  have tail: "listings_short (\<lambda>i. lst (Suc i)) ?cs" using assms(8) by (simp add: load_requests_def)
  from loop_succeeds [OF c(3,2) small assms(3) u(1) out1(1) tail pre] show ?thesis by simp
qed

end
