(* ===== verification/Load_Run.thy ===== *)
theory Load_Run
  imports Load_Test Many_Sessions Startup
begin

text \<open>
  src/tests/load_test.cpp as a whole: \<open>main\<close> with its threads on one side, as many sessions of the
  server on the other, on one shared disk and index. What \<open>main\<close> prints is left out.
\<close>

section \<open>The program\<close>

text \<open>
  The threads share nothing but the three counters, and to these they only add, so they are run
  one after the other here (\<open>threads_any_order\<close> below). An exception that leaves a thread ends the
  program. \<open>conns\<close> are the threads' connections, before and after.
\<close>

definition no_totals :: load_totals where
  "no_totals = \<lparr>total_requests = 0, total_success = 0, total_latency_ms = 0\<rparr>"

fun load_threads ::
    "(nat \<Rightarrow> bool) \<Rightarrow> bool \<Rightarrow> (socket \<Rightarrow> MessageHeader) \<Rightarrow> (nat \<Rightarrow> nat \<Rightarrow> u64) \<Rightarrow> int \<Rightarrow> nat list \<Rightarrow> load_totals
     \<Rightarrow> (nat \<Rightarrow> socket option) \<Rightarrow> unit result \<times> load_totals \<times> (nat \<Rightarrow> socket option)" where
  "load_threads alloc be junk ms num_requests [] tt conns = (Value (), tt, conns)"
| "load_threads alloc be junk ms num_requests (i # is) tt conns =
     (case client_thread alloc be junk (ms i) i num_requests (conns i) tt of
        (Raised, tt, c) \<Rightarrow> (Raised, tt, conns(i := c))
      | (Value _, tt, c) \<Rightarrow> load_threads alloc be junk ms num_requests is tt (conns(i := c)))"

definition load_arguments :: "bytes list \<Rightarrow> (int \<times> int) result" where
  "load_arguments argv =
     (if 3 \<le> length argv
      then (case stoi (argv ! 1) of
              Raised \<Rightarrow> Raised
            | Value num_threads \<Rightarrow>
                (case stoi (argv ! 2) of
                   Raised \<Rightarrow> Raised
                 | Value reqs_per_thread \<Rightarrow> Value (num_threads, reqs_per_thread)))
      else Value (10, 100))"

definition load_main ::
    "int \<Rightarrow> bytes list \<Rightarrow> (nat \<Rightarrow> bool) \<Rightarrow> bool \<Rightarrow> (socket \<Rightarrow> MessageHeader) \<Rightarrow> (nat \<Rightarrow> nat \<Rightarrow> u64)
     \<Rightarrow> (nat \<Rightarrow> socket option) \<Rightarrow> unit result \<times> load_totals \<times> (nat \<Rightarrow> socket option)" where
  "load_main wsa_result argv alloc be junk ms conns =
     (case load_arguments argv of
        Raised \<Rightarrow> (Raised, no_totals, conns)
      | Value (num_threads, reqs_per_thread) \<Rightarrow>
          (case winsock_guard wsa_result of
             Raised \<Rightarrow> (Raised, no_totals, conns)
           | Value _ \<Rightarrow> load_threads alloc be junk ms reqs_per_thread [0..<nat num_threads] no_totals conns))"

section \<open>The order of the threads\<close>

definition tally :: "load_totals \<Rightarrow> load_totals \<Rightarrow> load_totals" where
  "tally d tt = \<lparr>total_requests = total_requests d + total_requests tt, total_success = total_success d + total_success tt,
     total_latency_ms = total_latency_ms d + total_latency_ms tt\<rparr>"

lemma tally_simps [simp]:
  "total_requests (tally d tt) = total_requests d + total_requests tt"
  "total_success (tally d tt) = total_success d + total_success tt"
  "total_latency_ms (tally d tt) = total_latency_ms d + total_latency_ms tt"
  "tally no_totals tt = tt" "tally tt no_totals = tt" "tally (tally d e) tt = tally d (tally e tt)"
  by (simp_all add: tally_def no_totals_def add.assoc)

lemma tally_commutes: "tally d (tally e tt) = tally e (tally d tt)"
  by (simp add: tally_def add.left_commute)

lemma load_loop_adds:
  "load_loop alloc be junk ms is tt s = (x, tt', t) \<Longrightarrow> load_loop alloc be junk ms is (tally d tt) s = (x, tally d tt', t)"
proof (induction "is" arbitrary: tt s)
  case (Cons i "is")
  obtain y u where y: "load_cycle alloc be junk i s = (y, u)" by fastforce
  show ?case
  proof (cases y)
    case (Value ok)
    let ?tt = "tt\<lparr>total_latency_ms := total_latency_ms tt + ms i, total_requests := total_requests tt + 4,
        total_success := total_success tt + (if ok then 4 else 0)\<rparr>"
    have "load_loop alloc be junk ms is (tally d ?tt) u = (x, tally d tt', t)"
      using Cons.prems y Value by (intro Cons.IH) simp
    then show ?thesis using y Value by (simp add: tally_def add.assoc)
  qed (use Cons.prems y in simp)
qed simp

lemma client_thread_adds:
  "client_thread alloc be junk ms i n conn tt = (r, tt', c) \<Longrightarrow>
   client_thread alloc be junk ms i n conn (tally d tt) = (r, tally d tt', c)"
  using load_loop_adds [of alloc be junk ms "[0..<nat n]" tt _ _ _ _ d]
  by (fastforce simp: client_thread_def Let_def split: option.splits prod.splits result.splits)

lemma client_thread_from_zero:
  assumes "client_thread alloc be junk ms i n conn no_totals = (r, d, c)"
  shows "client_thread alloc be junk ms i n conn tt = (r, tally tt d, c)"
  using client_thread_adds [OF assms, of tt] by simp

text \<open>Threads that end regularly give the same counts and leave the same connections in any order.\<close>

lemma load_threads_sum:
  assumes "distinct is" and "\<And>i. i \<in> set is \<Longrightarrow> client_thread alloc be junk (ms i) i n (conns i) no_totals = (Value (), d i, c i)"
  shows "load_threads alloc be junk ms n is tt conns = (Value (), fold (\<lambda>i. tally (d i)) is tt, \<lambda>i. if i \<in> set is then c i else conns i)"
  using assms
proof (induction "is" arbitrary: tt conns)
  case (Cons i "is")
  have "client_thread alloc be junk (ms i) i n (conns i) tt = (Value (), tally tt (d i), c i)"
    by (rule client_thread_from_zero [OF Cons.prems(2)]) simp
  moreover have "tally tt (d i) = tally (d i) tt" using tally_commutes [of tt "d i" no_totals] by simp
  moreover have "load_threads alloc be junk ms n is (tally (d i) tt) (conns(i := c i)) = (Value (), fold (\<lambda>i. tally (d i)) is (tally (d i) tt),
      \<lambda>j. if j \<in> set is then c j else (conns(i := c i)) j)"
    using Cons.prems by (intro Cons.IH) auto
  ultimately show ?case using Cons.prems(1) by (auto simp: fun_eq_iff)
qed simp

lemma threads_any_order:
  assumes "distinct is" and "\<And>i. i \<in> set is \<Longrightarrow> client_thread alloc be junk (ms i) i n (conns i) no_totals = (Value (), d i, c i)"
    and "mset js = mset is"
  shows "load_threads alloc be junk ms n js tt conns = load_threads alloc be junk ms n is tt conns"
proof -
  have js: "distinct js" "set js = set is" using assms(1,3) by (metis mset_eq_imp_distinct_iff, metis mset_eq_setD)
  have "fold (\<lambda>i. tally (d i)) js = fold (\<lambda>i. tally (d i)) is"
    by (rule fold_multiset_equiv [OF _ assms(3)]) (auto simp: tally_commutes)
  then show ?thesis using load_threads_sum [OF assms(1,2), of tt] load_threads_sum [of js alloc be junk ms n conns d c tt] js assms(2) by simp
qed

section \<open>One session among many\<close>

text \<open>The part of the store that belongs to a user.\<close>

definition own :: "bytes \<Rightarrow> store \<Rightarrow> store" where
  "own u M = (\<lambda>(v, n). if v = u then M (v, n) else None)"

lemma own_simps [simp]:
  "own u M (u, n) = M (u, n)" "own u (\<lambda>k. None) = (\<lambda>k. None)" "own u (M((u, n) := x)) = (own u M)((u, n) := x)"
  by (simp_all add: own_def fun_eq_iff)

lemma spec_reply_here:
  assumes "spec_reply l r su M = (reply, su', M')" and "su = [] \<or> su = u" and "u \<noteq> []"
  shows "spec_reply l r su (own u M) = (reply, su', own u M')"
proof -
  obtain c v n b where r: "r = Req c v n b" by (cases r)
  show ?thesis
  proof (cases "su = []")
    case True
    then show ?thesis using assms(1) r by (cases c) auto
  next
    case False
    then show ?thesis using assms r by (cases c) (auto split: if_splits option.splits)
  qed
qed

lemma own_elsewhere: "spec_reply l r su M = (reply, su', M') \<Longrightarrow> su \<noteq> u \<Longrightarrow> own u M' = own u M"
  by (auto simp: own_def fun_eq_iff spec_reply_own)

lemma never_user_turn: "never_user u [(su, r # rs, out)] \<Longrightarrow> never_user u [(next_user su r, rs, out')]"
  by (auto simp: never_user_def next_user_def)

text \<open>
  The answers a session gets while others take their turns are those it would get alone, as long as
  no other session is one of its user.
\<close>

lemma session_alone:
  assumes "spec_turns N cs M sched cs' M'" and "i < length cs" and "cs ! i = (su, rs, out)" and "u \<noteq> []"
    and "su = [] \<or> su = u" and "\<forall>r\<in>set rs. rq_command r = LOGIN \<longrightarrow> rq_user r = u"
    and "\<forall>j<length cs. j \<noteq> i \<longrightarrow> never_user u [cs ! j]"
  obtains lst served left outp su' where "rs = served @ left" and "cs' ! i = (su', left, out @ outp)"
    and "spec_session lst served su (own u M) = (outp, su', own u M')" and "listings_short lst served"
  using assms
proof (induction arbitrary: su rs out thesis rule: spec_turns.induct)
  case (spec_end cs M)
  then show ?case by (intro spec_end.prems(1) [of "[]" rs _ "[]"]) auto
next
  case (spec_turn j cs sj r rj oj M l reply sj' M1 sched cs' M')
  let ?x = "(sj', rj, oj @ response_wire (command_code (rq_command r)) reply)"
  have sj': "sj' = next_user sj r" using spec_reply_user [of l r sj M] spec_turn.hyps(5) by simp
  show ?case
  proof (cases "j = i")
    case True
    have here: "sj = su" "rs = r # rj" "oj = out" using spec_turn.hyps(2) spec_turn.prems(3) True by simp_all
    have others: "\<forall>k<length (cs[j := ?x]). k \<noteq> i \<longrightarrow> never_user u [cs[j := ?x] ! k]" using spec_turn.prems(7) True by simp
    have user: "sj' = [] \<or> sj' = u" using spec_turn.prems(5,6) here sj' by (auto simp: next_user_def)
    have len: "i < length (cs[j := ?x])" and at: "cs[j := ?x] ! i = ?x" and logins: "\<forall>r\<in>set rj. rq_command r = LOGIN \<longrightarrow> rq_user r = u"
      using spec_turn.prems(2,6) here True by simp_all
    show ?thesis
    proof (rule spec_turn.IH [OF _ len at spec_turn.prems(4) user logins others])
      fix lst served left outp su'
      assume go: "rj = served @ left" "cs' ! i = (su', left, (oj @ response_wire (command_code (rq_command r)) reply) @ outp)"
        "spec_session lst served sj' (own u M1) = (outp, su', own u M')" "listings_short lst served"
      have "spec_reply l r su (own u M) = (reply, sj', own u M1)"
        by (rule spec_reply_here [OF _ spec_turn.prems(5,4)]) (use spec_turn.hyps(5) here in simp)
      then have "spec_session (case_nat l lst) (r # served) su (own u M)
          = (response_wire (command_code (rq_command r)) reply @ outp, su', own u M')" using go(3) by simp
      moreover have "listings_short (case_nat l lst) (r # served)" using go(4) spec_turn.hyps(4) by (simp add: listable_def)
      ultimately show thesis using go(1,2) here by (intro spec_turn.prems(1) [of "r # served" left su'
            "response_wire (command_code (rq_command r)) reply @ outp" "case_nat l lst"]) simp_all
    qed
  next
    case False
    have other: "never_user u [(sj, r # rj, oj)]" using spec_turn.hyps(1,2) spec_turn.prems(7) False by metis
    then have "sj \<noteq> u" by (simp add: never_user_def)
    then have same: "own u M1 = own u M" by (rule own_elsewhere [OF spec_turn.hyps(5)])
    have others: "\<forall>k<length (cs[j := ?x]). k \<noteq> i \<longrightarrow> never_user u [cs[j := ?x] ! k]"
      using spec_turn.prems(7) never_user_turn [OF other] sj' spec_turn.hyps(1) by (auto simp: nth_list_update)
    have at: "i < length (cs[j := ?x])" "cs[j := ?x] ! i = (su, rs, out)" using spec_turn.prems(2,3) False by simp_all
    show ?thesis by (rule spec_turn.IH [OF spec_turn.prems(1) at spec_turn.prems(4-6) others]) (simp_all add: same)
  qed
qed

lemma request_wire_nonempty: "request_wire r \<noteq> []"
proof
  assume "request_wire r = []"
  then have "length (header_wire (request_header r)) = 0" by (simp add: request_wire_def meta_wire_def)
  then show False by simp
qed

lemma spec_turns_length: "spec_turns N cs M sched cs' M' \<Longrightarrow> length cs' = length cs"
  by (induction rule: spec_turns.induct) simp_all

section \<open>Listings that stay short\<close>

text \<open>What a turn without a rename does to the index, whatever else it does.\<close>

lemma save_index: "save_file u n sz w s = (b, v, t) \<Longrightarrow>
    w_index v = w_index w \<or> w_index v = add_file (w_index w) (user_dir u) n sz (w_clock w (w_time w))"
  by (auto simp: save_file_def save_try_def save_body_def Let_def split: prod.splits option.splits bool.splits result.splits if_splits)

lemma delete_index: "delete_file u n w = (b, v) \<Longrightarrow> w_index v = w_index w \<or> w_index v = remove_file (w_index w) (user_dir u) n"
  by (auto simp: delete_file_def Let_def split: prod.splits result.splits if_splits)

lemma turn_index:
  assumes "turn (su, s, True) w = (y, v)" and "rq_command r \<noteq> RENAME" and "request_fits r" and "wire_ok s"
    and "sk_rx s = request_wire r @ rest" and "\<And>m. w_alloc w m"
  shows "w_index v = w_index w \<or> w_index v = remove_file (w_index w) (user_dir su) (rq_file r)
    \<or> rq_command r = UPLOAD \<and> (\<exists>sz. w_index v = add_file (w_index w) (user_dir su) (rq_file r) sz (w_clock w (w_time w)))"
proof -
  obtain p a where a: "serve_request su w s = dispatch (request_header r) (rq_user r) (rq_file r) p su w a"
    by (rule request_read [OF assms(3-6)])
  obtain oc su' w' t where d: "serve_request su w s = (oc, su', w', t)" by (metis prod_cases4)
  have "v = w'" using assms(1) d by (cases oc) simp_all
  with d a assms(2) show ?thesis
    by (cases "rq_command r") (auto simp: dispatch_def send_file_def Let_def split: prod.splits bool.splits if_splits
        simp del: command_code.simps dest!: respond_rest save_index delete_index stream_frame)
qed

text \<open>An index that holds only the test's files, with short time stamps.\<close>

definition test_files :: "nat \<Rightarrow> world \<Rightarrow> bool" where
  "test_files n w \<longleftrightarrow> (\<forall>d f sz time. idx_look (w_index w) (d, f) = Some (sz, time) \<longrightarrow> f \<in> load_name ` {..<n} \<and> length time \<le> 40)"

lemma length_concat_le: "(\<And>x. x \<in> set xs \<Longrightarrow> length x \<le> k) \<Longrightarrow> length (concat xs) \<le> k * length xs"
  by (induction xs) (auto simp: add_mono)

lemma test_files_listing:
  assumes "test_files n w" and "index_ok (w_index w)" and "n \<le> 2 ^ 24"
  shows "length (list_files u w) < 2 ^ 31"
proof -
  obtain fs where fs: "list_files u w = render_listing fs" "distinct (map fst fs)"
      "set fs = {(f, sz, time). idx_look (w_index w) (normalize_path (user_dir u), f) = Some (sz, time)}"
    using list_files_shape [OF assms(2)] by metis
  have entry: "f \<in> load_name ` {..<n} \<and> length time \<le> 40" if "(f, sz, time) \<in> set fs" for f sz time
    using that assms(1) unfolding fs(3) test_files_def by blast
  have "length fs = card (set (map fst fs))" using distinct_card [OF fs(2)] by simp
  also have "\<dots> \<le> card (load_name ` {..<n})" by (rule card_mono) (use entry in force)+
  also have "\<dots> \<le> n" using card_image_le [of "{..<n}" load_name] by simp
  finally have few: "length fs \<le> n" .
  have line: "length (f @ '' ('' @ to_string (unat sz) @ '' bytes) - '' @ time @ [CHR 0x0A]) \<le> 100" if e: "(f, sz, time) \<in> set fs" for f sz time
  proof -
    obtain j where j: "f = load_name j" "j < n" using entry [OF e] by auto
    then have "length (to_string j) \<le> Suc 7" using assms(3) by (intro to_string_length) simp
    moreover have "length (to_string (unat sz)) \<le> Suc 19"
      by (rule to_string_length) (use unsigned_less [of sz, where 'a = nat] in simp)
    ultimately show ?thesis using entry [OF e] j(1) by (simp add: load_name_def)
  qed
  have "length (render_listing fs) \<le> 100 * length fs + 7"
  proof (cases "fs = []")
    case False
    let ?line = "\<lambda>(f, sz, time). f @ '' ('' @ to_string (unat sz) @ '' bytes) - '' @ time @ [CHR 0x0A]"
    have "length x \<le> 100" if "x \<in> set (map ?line fs)" for x using that line by (auto simp del: append.simps list.size)
    then have "length (concat (map ?line fs)) \<le> 100 * length (map ?line fs)" by (rule length_concat_le)
    then show ?thesis using False by (simp add: render_listing_def)
  qed (simp add: render_listing_def)
  also have "\<dots> < 2 ^ 31" using few assms(3) by simp
  finally show ?thesis using fs(1) by simp
qed

definition test_request :: "nat \<Rightarrow> request \<Rightarrow> bool" where
  "test_request n r \<longleftrightarrow> rq_command r \<noteq> RENAME \<and> (rq_command r = UPLOAD \<longrightarrow> rq_file r \<in> load_name ` {..<n})"

lemma test_files_turn:
  assumes "turn (su, s, True) w = (y, v)" and "test_request n r" and "request_fits r" and "wire_ok s"
    and "sk_rx s = request_wire r @ rest" and "\<And>m. w_alloc w m" and "test_files n w" and "\<And>j. length (w_clock w j) \<le> 40"
  shows "test_files n v"
proof -
  have "rq_command r \<noteq> RENAME" using assms(2) by (simp add: test_request_def)
  from turn_index [OF assms(1) this assms(3-6)] show ?thesis
    using assms(2,7,8) unfolding test_files_def test_request_def
    by (elim disjE) (auto simp: idx_look_remove_file idx_look_add_file split: if_splits)
qed

lemma script_fits: "script_ok N su rs \<Longrightarrow> r \<in> set rs \<Longrightarrow> request_fits r"
  by (induction rs arbitrary: su) (auto simp: request_ok_def)

lemma test_listings_fit:
  assumes "serving N (length sched) w" and "list_all2 (answers N) cs ss" and "due sched (to_come cs)"
    and "\<forall>rs\<in>set (to_come cs). \<forall>r\<in>set rs. test_request n r" and "test_files n w" and "n \<le> 2 ^ 24"
    and "\<And>j. length (w_clock w j) \<le> 40"
  shows "listings_fit sched (to_come cs) ss w"
  using assms(1-5,7)
proof (induction sched arbitrary: cs ss w)
  case (Cons i sched)
  have i: "i < length cs" "to_come cs ! i \<noteq> []" using Cons.prems(3) by simp_all
  obtain su r rs out where c: "cs ! i = (su, r # rs, out)"
  proof (cases "cs ! i")
    case (fields su rs out)
    with i show thesis by (cases rs) (auto simp: to_come_def intro: that)
  qed
  have x: "answers N (su, r # rs, out) (ss ! i)" using list_all2_nthD [OF Cons.prems(2) i(1)] c by simp
  have hd: "to_come cs ! i = r # rs" using i(1) c by (simp add: to_come_def)
  have "index_ok (w_index w)" using Cons.prems(1) by (simp add: serving_def in_step_def)
  then have fit: "length (list_files su w) < 2 ^ 31" for su by (rule test_files_listing [OF Cons.prems(5) _ assms(6)])
  have room: "serving N (Suc (length sched)) w" using Cons.prems(1) by simp
  obtain lst reply su' M' y v where
      y: "turn (ss ! i) w = (y, v)" "serving N (length sched) v"
      "answers N (su', rs, out @ response_wire (command_code (rq_command r)) reply) y" "env_of v = env_of w"
    by (rule turn_answers [OF room x fit], rule that)
  let ?cs = "cs[i := (su', rs, out @ response_wire (command_code (rq_command r)) reply)]"
  have come: "to_come ?cs = (to_come cs)[i := rs]" by (simp add: to_come_def map_update)
  have "test_request n r" "\<forall>r\<in>set rs. test_request n r"
    using Cons.prems(4) hd i(1) nth_mem [of i "to_come cs"] by (metis length_to_come list.set_intros)+
  then have tests: "\<forall>rs\<in>set (to_come ?cs). \<forall>r\<in>set rs. test_request n r"
    using Cons.prems(4) unfolding come by (auto dest!: set_update_subset_insert [THEN subsetD])
  obtain s where s: "ss ! i = (su, s, True)" "wire_ok s" "sk_rx s = request_wire r @ concat (map request_wire rs)" "request_fits r"
    using x by (cases "ss ! i") (auto simp: request_ok_def split: if_splits)
  have alloc: "\<And>m. w_alloc w m" using Cons.prems(1) by (simp add: serving_def)
  have files: "test_files n v"
    using test_files_turn [OF _ \<open>test_request n r\<close> s(4,2,3) alloc Cons.prems(5,6)] y(1) s(1) by simp
  have seats: "list_all2 (answers N) ?cs (ss[i := y])" using list_all2_update_cong [OF Cons.prems(2) y(3)] .
  have "w_clock v = w_clock w" using y(4) by (simp add: env_of_def)
  then have "listings_fit sched (to_come ?cs) (ss[i := y]) v"
    using Cons.prems(3,6) hd come by (intro Cons.IH [OF y(2) seats _ tests files]) simp_all
  then show ?case using y(1) fit hd come by simp
qed simp

section \<open>All threads\<close>

lemma load_user_inj: "load_user i = load_user j \<longleftrightarrow> i = j"
  using digits_value_to_string by (auto simp: load_user_def) metis

lemma load_requests_logins: "r \<in> set (load_requests i is) \<Longrightarrow> rq_command r = LOGIN \<Longrightarrow> rq_user r = load_user i"
  by (auto simp: load_requests_def)

lemma load_requests_test: "r \<in> set (load_requests i [0..<n]) \<Longrightarrow> test_request n r"
  by (auto simp: load_requests_def test_request_def)

lemma session_script_ok: "session_ok N su rs \<Longrightarrow> script_ok N su rs"
  by (induction rs arbitrary: su) auto

lemma load_script_ok:
  assumes "i < 2 ^ 31" and "n \<le> 2 ^ 31" and "\<forall>j<n. (load_user i, load_name j) \<in> N"
  shows "script_ok N [] (load_requests i [0..<n])"
proof -
  have u: "load_user i \<noteq> []" "length (load_user i) < 2 ^ 30" using load_lengths [OF assms(1)] by (simp_all add: load_user_def)
  have "session_ok N (load_user i) (concat (map cycle_requests [0..<n]))" using load_session_ok [of "[0..<n]" "load_user i" N] assms u(1) by auto
  then have "session_ok N [] (load_requests i [0..<n])" using u(2) by (simp add: load_requests_def request_ok_def next_user_def request_fits_def)
  then show ?thesis by (rule session_script_ok)
qed

text \<open>What a thread sends does not depend on the answers it gets.\<close>

lemma client_thread_socket: "client_thread alloc be junk ms i n (Some s) tt = (r, tt', x) \<Longrightarrow> x \<noteq> None"
  by (auto simp: client_thread_def Let_def split: prod.splits result.splits)

definition thread_wire :: "nat \<Rightarrow> nat \<Rightarrow> bytes" where
  "thread_wire i n = concat (map request_wire (load_requests i [0..<n]))"

lemma threads_end:
  assumes "load_threads alloc be junk ms num_requests is tt conns = (r, tt', conns')" and "\<And>m. alloc m" and "num_requests < 2 ^ 31"
    and "n = nat num_requests" and "distinct is"
    and "\<forall>i\<in>set is. i < 2 ^ 31 \<and> conns i = Some (s i) \<and> wire_ok (s i) \<and> sk_tx (s i) = []"
  shows "r = Value () \<and> (\<forall>i\<in>set is. \<exists>c. conns' i = Some c \<and> sk_tx c = thread_wire i n) \<and> (\<forall>i. i \<notin> set is \<longrightarrow> conns' i = conns i)"
  using assms(1,5,6)
proof (induction "is" arbitrary: tt conns)
  case (Cons i "is")
  have i: "i < 2 ^ 31" "conns i = Some (s i)" "wire_ok (s i)" "sk_tx (s i) = []" using Cons.prems(3) by simp_all
  obtain x tt1 y where t0: "client_thread alloc be junk (ms i) i num_requests (Some (s i)) tt = (x, tt1, y)" by (metis prod_cases3)
  then obtain c where c: "y = Some c" using client_thread_socket by fastforce
  have fin: "x = Value ()" "sk_tx c = thread_wire i n"
    using thread_sends [OF i(3) assms(2) i(1) assms(3,4) t0 [unfolded c]] i(4) unfolding thread_wire_def by (metis append_Nil)+
  have "load_threads alloc be junk ms num_requests is tt1 (conns(i := Some c)) = (r, tt', conns')"
    using Cons.prems(1) t0 c fin(1) i(2) by simp
  from Cons.IH [OF this] Cons.prems(2,3) fin(2) show ?case by (auto simp: fun_upd_def)
qed simp

lemma threads_count:
  assumes "load_threads alloc be junk ms num_requests is tt conns = (r, tt', conns')" and "\<And>m. alloc m" and "num_requests < 2 ^ 31"
    and "n = nat num_requests" and "distinct is"
    and "\<forall>i\<in>set is. i < 2 ^ 31 \<and> conns i = Some (s i) \<and> wire_ok (s i) \<and> sk_tx (s i) = []"
    and "\<And>i. i \<in> set is \<Longrightarrow> \<exists>lst M out su M'. spec_session lst (load_requests i [0..<n]) [] M = (out, su, M')
      \<and> listings_short lst (load_requests i [0..<n]) \<and> prefix out (sk_rx (s i))"
  shows "total_requests tt' = total_requests tt + word_of_nat (4 * n * length is)
    \<and> total_success tt' = total_success tt + word_of_nat (4 * n * length is)"
  using assms(1,5-7)
proof (induction "is" arbitrary: tt conns)
  case (Cons i "is")
  have i: "i < 2 ^ 31" "conns i = Some (s i)" "wire_ok (s i)" "sk_tx (s i) = []" using Cons.prems(3) by simp_all
  obtain x tt1 y where t0: "client_thread alloc be junk (ms i) i num_requests (Some (s i)) tt = (x, tt1, y)" by (metis prod_cases3)
  then obtain c where c: "y = Some c" using client_thread_socket by fastforce
  obtain lst M out su M' where sp: "spec_session lst (load_requests i [0..<n]) [] M = (out, su, M')"
      "listings_short lst (load_requests i [0..<n])" "prefix out (sk_rx (s i))" using Cons.prems(4) [of i] by auto
  have one: "total_requests tt1 = total_requests tt + word_of_nat (4 * n)" "total_success tt1 = total_success tt + word_of_nat (4 * n)"
    using thread_counts [OF t0 [unfolded c] i(3) assms(2) i(1) assms(3,4) sp] by simp_all
  have "x = Value ()" by (rule thread_sends [OF i(3) assms(2) i(1) assms(3,4) t0 [unfolded c]])
  then have rest: "load_threads alloc be junk ms num_requests is tt1 (conns(i := Some c)) = (r, tt', conns')"
    using Cons.prems(1) t0 c i(2) by simp
  have "total_requests tt' = total_requests tt1 + word_of_nat (4 * n * length is)
      \<and> total_success tt' = total_success tt1 + word_of_nat (4 * n * length is)"
    by (rule Cons.IH [OF rest]) (use Cons.prems(2-4) in auto)
  then show ?case by (simp add: one algebra_simps)
qed simp

text \<open>Alone, the requests of a thread leave the store without the test's files.\<close>

fun files_gone :: "bytes \<Rightarrow> nat list \<Rightarrow> store \<Rightarrow> store" where
  "files_gone u [] M = M"
| "files_gone u (i # is) M = files_gone u is (M((u, load_name i) := None))"

lemma load_session_store:
  assumes "u \<noteq> []" and "spec_session lst (concat (map cycle_requests is)) u M = (out, su, M')"
  shows "M' = files_gone u is M"
  using assms(2)
proof (induction "is" arbitrary: lst M out)
  case (Cons i "is")
  obtain out' where "spec_session (\<lambda>j. lst (4 + j)) (concat (map cycle_requests is)) u (M((u, load_name i) := None)) = (out', su, M')"
    by (rule cycle_session [OF assms(1), of lst i "concat (map cycle_requests is)" M out su M'])
      (use Cons.prems in \<open>simp del: cycle_requests.simps spec_session.simps\<close>)
  from Cons.IH [OF this] show ?case by (simp add: fun_upd_def)
qed simp

lemma files_gone_empty: "files_gone u is (\<lambda>k. None) = (\<lambda>k. None)"
proof (induction "is")
  case (Cons i "is")
  then show ?case by (simp add: fun_upd_idem)
qed simp

lemma load_session_empty:
  assumes "spec_session lst (load_requests i is) [] (\<lambda>k. None) = (out, su, M')"
  shows "M' = (\<lambda>k. None)"
proof -
  obtain out1 where "spec_session (\<lambda>j. lst (Suc j)) (concat (map cycle_requests is)) (load_user i) (\<lambda>k. None) = (out1, su, M')"
    using assms by (auto simp: load_requests_def split: prod.splits)
  from load_session_store [OF _ this] show ?thesis by (simp add: load_user_def files_gone_empty)
qed

lemma fresh_store:
  assumes "in_step N w" and "w_index w = []"
  shows "store_of N w = (\<lambda>k. None)"
proof
  fix k :: "bytes \<times> bytes"
  obtain u f where k: "k = (u, f)" by (cases k)
  show "store_of N w k = None"
  proof (cases "(u, f) \<in> N")
    case True
    then have "size_on_disk (w_fs w) u f = None"
      using assms by (auto simp: in_step_def idx_size_def idx_look_def)
    then show ?thesis using True k by (auto simp: store_of_def size_on_disk_def content_of_def split: option.splits node.splits)
  qed (simp add: k store_of_def)
qed

section \<open>The property\<close>

text \<open>C8: the load test passes on this server. \<open>main\<close> runs its T threads of n cycles each, the server one
  session for each of them on one disk and index, empty at first; each thread and its session
  read what the other sends, on connections without errors that may cut the bytes into any
  pieces, and the sessions take their turns in any order until every request has been answered. Then every
  cycle of every thread has got the four answers it wants, all requests are counted as
  successes (modulo 2^64), and the server's store is empty again.\<close>

theorem load_test_passes:
  assumes "load_arguments argv = Value (int T, int n)" and "T < 2 ^ 31" and "n \<le> 2 ^ 24" and "\<And>m. alloc m"
    and "load_main 0 argv alloc be junk ms (\<lambda>i. Some (s i)) = (r, tt, conns)"
    and "turns sched (map (\<lambda>i. ([], k i, True)) [0..<T]) w = (ss, v)"
    and "\<And>i. i < T \<Longrightarrow> wire_ok (s i) \<and> sk_tx (s i) = [] \<and> wire_ok (k i) \<and> sk_tx (k i) = []"
    and "\<And>i. i < T \<Longrightarrow> sk_rx (s i) = sk_tx (fst (snd (ss ! i))) \<and> sk_rx (k i) = sk_tx (the (conns i))"
    and "due sched (map (\<lambda>i. load_requests i [0..<n]) [0..<T])" and "\<And>i. i < T \<Longrightarrow> sk_rx (fst (snd (ss ! i))) = []"
    and "serving N (length sched) w" and "w_index w = []" and "\<And>j. length (w_clock w j) \<le> 40"
    and "\<And>i j. i < T \<Longrightarrow> j < n \<Longrightarrow> (load_user i, load_name j) \<in> N"
  shows "r = Value () \<and> total_requests tt = word_of_nat (4 * n * T) \<and> total_success tt = word_of_nat (4 * n * T)
    \<and> store_of N v = (\<lambda>k. None)"
proof -
  let ?cs = "map (\<lambda>i. ([], load_requests i [0..<n], [])) [0..<T]" and ?ss = "map (\<lambda>i. ([], k i, True)) [0..<T]"
  let ?M = "store_of N w"
  have threads: "load_threads alloc be junk ms (int n) [0..<T] no_totals (\<lambda>i. Some (s i)) = (r, tt, conns)"
    using assms(1,5) by (simp add: load_main_def winsock_guard_def)
  have small: "int n < 2 ^ 31" "n = nat (int n)" "distinct [0..<T]" using assms(3) by simp_all
  have conns: "\<forall>i\<in>set [0..<T]. i < 2 ^ 31 \<and> Some (s i) = Some (s i) \<and> wire_ok (s i) \<and> sk_tx (s i) = []" using assms(2,7) by auto
  note ends = threads_end [OF threads assms(4) small conns]
  have rx: "sk_rx (k i) = thread_wire i n" if i: "i < T" for i
  proof -
    have "\<exists>c. conns i = Some c \<and> sk_tx c = thread_wire i n" using ends i by simp
    with assms(8) [OF i] show ?thesis by auto
  qed
  have ok: "script_ok N [] (load_requests i [0..<n])" if "i < T" for i
    using that assms(2,3,14) by (intro load_script_ok) auto
  have seats: "list_all2 (answers N) ?cs ?ss"
    using ok rx assms(7) by (auto simp: list_all2_conv_all_nth thread_wire_def)
  have come: "to_come ?cs = map (\<lambda>i. load_requests i [0..<n]) [0..<T]" by (simp add: to_come_def)
  then have due: "due sched (to_come ?cs)" using assms(9) by simp
  have tests: "\<forall>rs\<in>set (to_come ?cs). \<forall>r\<in>set rs. test_request n r" unfolding come using load_requests_test by auto
  have "test_files n w" using assms(12) by (simp add: test_files_def idx_look_def)
  then have fit: "listings_fit sched (to_come ?cs) ?ss w"
    by (rule test_listings_fit [OF assms(11) seats due tests _ assms(3,13)])
  obtain cs' where cs': "spec_turns N ?cs ?M sched cs' (store_of N v)" "list_all2 (answers N) cs' ss"
    using turns_simulate [OF assms(11) seats due fit assms(6)] by blast
  have empty: "?M = (\<lambda>k. None)" using fresh_store [OF _ assms(12)] assms(11) by (simp add: serving_def)
  have alone: "\<exists>lst outp su'. spec_session lst (load_requests i [0..<n]) [] (\<lambda>k. None) = (outp, su', own (load_user i) (store_of N v))
      \<and> listings_short lst (load_requests i [0..<n]) \<and> sk_rx (s i) = outp" if i: "i < T" for i
  proof -
    have at: "i < length ?cs" "?cs ! i = ([], load_requests i [0..<n], [])" using i by simp_all
    have apart: "\<forall>j<length ?cs. j \<noteq> i \<longrightarrow> never_user (load_user i) [?cs ! j]"
      using load_requests_logins by (auto simp: never_user_def load_user_inj) (simp add: load_user_def)
    have logins: "\<forall>r\<in>set (load_requests i [0..<n]). rq_command r = LOGIN \<longrightarrow> rq_user r = load_user i"
      using load_requests_logins by blast
    obtain lst served left outp su' where o: "load_requests i [0..<n] = served @ left" "cs' ! i = (su', left, [] @ outp)"
        "spec_session lst served [] (own (load_user i) ?M) = (outp, su', own (load_user i) (store_of N v))" "listings_short lst served"
      by (rule session_alone [OF cs'(1) at _ _ logins apart], simp add: load_user_def, simp, rule that)
    have "length cs' = T" "length ss = length cs'" using cs' spec_turns_length [OF cs'(1)] list_all2_lengthD [OF cs'(2)] by simp_all
    then have a: "answers N (su', left, outp) (ss ! i)" using list_all2_nthD [OF cs'(2), of i] i o(2) by simp
    then have "concat (map request_wire left) = []" using assms(10) [OF i] by (cases "ss ! i") simp
    then have "left = []" by (cases left) (simp_all add: request_wire_nonempty)
    moreover have "sk_rx (s i) = outp" using a assms(8) [OF i] by (cases "ss ! i") simp
    ultimately show ?thesis using o by (intro exI [of _ lst]) (simp add: empty)
  qed
  have "total_requests tt = total_requests no_totals + word_of_nat (4 * n * length [0..<T])
      \<and> total_success tt = total_success no_totals + word_of_nat (4 * n * length [0..<T])"
    by (rule threads_count [OF threads assms(4) small conns]) (use alone in fastforce)
  moreover have "store_of N v (u, f) = None" for u f
  proof (cases "\<exists>i<T. u = load_user i")
    case True
    then obtain i where i: "i < T" "u = load_user i" by blast
    with alone [OF i(1)] load_session_empty have "own u (store_of N v) = (\<lambda>k. None)" by blast
    then show ?thesis using own_simps(1) by metis
  next
    case False
    show ?thesis
    proof (cases "u = []")
      case True
      have "(u, f) \<notin> N" using True assms(11) by (auto simp: serving_def in_step_def ordinary_def clean_name_def)
      then show ?thesis by (simp add: store_of_def)
    next
      case u: False
      have "never_user u ?cs" using False u load_requests_logins by (fastforce simp: never_user_def)
      then show ?thesis using spec_turns_own [OF cs'(1)] empty by simp
    qed
  qed
  ultimately show ?thesis using ends by (auto simp: no_totals_def)
qed

text \<open>Two threads with one cycle each, their sessions taking turns.\<close>

lemma to_come_after: "spec_turns N cs M sched cs' M' \<Longrightarrow> to_come cs' = fold (\<lambda>i qs. qs[i := tl (qs ! i)]) sched (to_come cs)"
proof (induction rule: spec_turns.induct)
  case (spec_turn i cs su r rs out M lst reply su' M' sched cs' M'')
  have "to_come cs ! i = r # rs" using spec_turn.hyps(1,2) by (simp add: to_come_def)
  then show ?case using spec_turn.IH by (simp add: to_come_def map_update)
qed simp

definition pair_names :: "(bytes \<times> bytes) set" where
  "pair_names = {(load_user 0, load_name 0), (load_user (Suc 0), load_name 0)}"

definition in_turn :: "nat list" where
  "in_turn = [0, 1, 0, 1, 1, 0, 1, 0, 1, 0]"

lemma pair_texts: "load_user 0 = ''loadtest_0''" "load_user (Suc 0) = ''loadtest_1''" "load_name 0 = ''file_0.dat''"
  by code_simp+

lemma pair_serving: "serving pair_names (length in_turn) (sample_world [])"
proof -
  have names: "clean_name ''loadtest_0''" "plain_name ''loadtest_0''" "clean_name ''loadtest_1''" "plain_name ''loadtest_1''"
    "plain_name ''file_0.dat''" "is_valid_filename ''file_0.dat''"
    by (simp_all add: clean_name_def plain_name_def is_valid_filename_def)
  have "ordinary (sample_disk []) pair_names" using names by (auto simp: ordinary_def pair_names_def pair_texts)
  then have "in_step pair_names (sample_world [])" using names
    by (auto simp: in_step_def pair_names_def pair_texts size_on_disk_def idx_size_def idx_look_def way_clear_def)
  moreover from this have "store_of pair_names (sample_world []) = (\<lambda>k. None)" by (rule fresh_store) simp
  moreover have "room (length in_turn) (sample_world [])" by (simp add: room_def sample_world_def in_turn_def)
  ultimately show ?thesis using names by (simp add: serving_def pair_names_def pair_texts)
qed

lemma pair_requests: "map (\<lambda>i. load_requests i [0..<1]) [0..<2] = [load_requests 0 [0], load_requests 1 [0]]"
  by (simp add: numeral_2_eq_2)

lemma pair_due: "due in_turn (map (\<lambda>i. load_requests i [0..<1]) [0..<2])"
  unfolding pair_requests by (simp add: in_turn_def load_requests_def)

lemma pair_all_read:
  assumes "turns in_turn (map (\<lambda>i. ([], prompt_socket (thread_wire i 1), True)) [0..<2]) (sample_world []) = (ss, v)" and "i < 2"
  shows "sk_rx (fst (snd (ss ! i))) = []"
proof -
  let ?cs = "map (\<lambda>i. ([], load_requests i [0..<1], [])) [0..<2]" and ?ss = "map (\<lambda>i. ([], prompt_socket (thread_wire i 1), True)) [0..<2]"
  have names: "(load_user i, load_name j) \<in> pair_names" if "i < 2" "j < 1" for i j
    using that by (auto simp: pair_names_def less_2_cases_iff)
  have "script_ok pair_names [] (load_requests i [0..<1])" if "i < 2" for i using that names by (intro load_script_ok) auto
  then have seats: "list_all2 (answers pair_names) ?cs ?ss" by (auto simp: list_all2_conv_all_nth thread_wire_def)
  have come: "to_come ?cs = map (\<lambda>i. load_requests i [0..<1]) [0..<2]" by (simp add: to_come_def)
  then have due: "due in_turn (to_come ?cs)" using pair_due by simp
  have tests: "\<forall>rs\<in>set (to_come ?cs). \<forall>r\<in>set rs. test_request 1 r" unfolding come using load_requests_test by auto
  have "listings_fit in_turn (to_come ?cs) ?ss (sample_world [])"
    by (rule test_listings_fit [OF pair_serving seats due tests]) (simp_all add: test_files_def idx_look_def)
  from turns_simulate [OF pair_serving seats due this assms(1)] obtain cs' where
      cs': "spec_turns pair_names ?cs (store_of pair_names (sample_world [])) in_turn cs' (store_of pair_names v)"
      "list_all2 (answers pair_names) cs' ss" by blast
  have "to_come cs' = [[], []]"
    unfolding to_come_after [OF cs'(1)] come pair_requests by (simp add: in_turn_def load_requests_def)
  moreover have "length cs' = 2" using spec_turns_length [OF cs'(1)] by simp
  ultimately have "fst (snd (cs' ! i)) = []" using assms(2)
    by (cases "cs' ! i") (auto simp: to_come_def less_2_cases_iff split_def dest: arg_cong [where f = "\<lambda>xs. xs ! i"])
  moreover have "answers pair_names (cs' ! i) (ss ! i)" using list_all2_nthD [OF cs'(2)] assms(2) \<open>length cs' = 2\<close> by simp
  ultimately show ?thesis by (cases "cs' ! i"; cases "ss ! i") auto
qed

theorem load_test_passes_witness:
  "let (ss, v) = turns in_turn (map (\<lambda>i. ([], prompt_socket (thread_wire i 1), True)) [0..<2]) (sample_world []);
       (r, tt, conns) = load_main 0 [''load_test'', ''2'', ''1''] (\<lambda>m. True) True (\<lambda>s. make_request QUIT 0 0 0) (\<lambda>i j. 25)
         (\<lambda>i. Some (trickle_socket (sk_tx (fst (snd (ss ! i))))))
   in r = Value () \<and> total_requests tt = 8 \<and> total_success tt = 8"
proof -
  let ?ss = "map (\<lambda>i. ([], prompt_socket (thread_wire i 1), True)) [0..<2]" and ?argv = "[''load_test'', ''2'', ''1'']"
  obtain ss v where run: "turns in_turn ?ss (sample_world []) = (ss, v)" by fastforce
  let ?s = "\<lambda>i. trickle_socket (sk_tx (fst (snd (ss ! i))))"
  let ?main = "load_main 0 ?argv (\<lambda>m. True) True (\<lambda>s. make_request QUIT 0 0 0) (\<lambda>i j. 25) (\<lambda>i. Some (?s i))"
  obtain r tt conns where main: "?main = (r, tt, conns)" by (metis prod_cases3)
  have args: "load_arguments ?argv = Value (int 2, int 1)" by code_simp
  then have "load_threads (\<lambda>m. True) True (\<lambda>s. make_request QUIT 0 0 0) (\<lambda>i j. 25) (int 1) [0..<2] no_totals (\<lambda>i. Some (?s i)) = (r, tt, conns)"
    using main by (simp add: load_main_def winsock_guard_def)
  from threads_end [OF this, of 1 ?s] have "\<exists>c. conns i = Some c \<and> sk_tx c = thread_wire i 1" if "i < 2" for i using that by simp
  then have sent: "sk_tx (the (conns i)) = thread_wire i 1" if "i < 2" for i using that by fastforce
  have names: "(load_user i, load_name j) \<in> pair_names" if "i < 2" "j < 1" for i j
    using that by (auto simp: pair_names_def less_2_cases_iff)
  have "r = Value () \<and> total_requests tt = word_of_nat (4 * 1 * 2) \<and> total_success tt = word_of_nat (4 * 1 * 2)
      \<and> store_of pair_names v = (\<lambda>k. None)"
    by (rule load_test_passes [OF args _ _ _ main run _ _ pair_due pair_all_read [OF run] pair_serving _ _ names])
      (use sent in auto)
  then show ?thesis using run main by simp
qed

end
