(* ===== verification/Spec2Isabelle.thy ===== *)
theory Spec2Isabelle
  imports Logger Solo_Steps Pool_Termination Startup End_To_End World_Safety Client_Safety Whole_Server Load_Run
begin

text \<open>
  A multi-threaded file storage server and its command-line client, C++17 over Winsock
  (src/src/common, src/src/server, src/src/client), with a load test (src/tests).

  \<^bold>\<open>The program.\<close> The server's main thread accepts clients and pushes one task per client into a
  bounded queue; a fixed pool of workers pops tasks and serves each client until it leaves
  (\<open>handle_client\<close>). A message is a 32-byte header in network byte order followed by user name, file
  name and payload, whose lengths the header announces. A session logs in by name and then
  uploads, downloads, lists, deletes and renames files below \<open>storage/<user>\<close>; an index in memory answers
  whether a file exists and how large it is, and a table of reference-counted shared mutexes, keyed by
  path, orders sessions that work on one file. Log messages go through a queue of their own to a
  printing thread. The client turns typed lines into requests and shows what is answered.

  \<^bold>\<open>The theories\<close>, in the order in which they build on each other:

  \<^item> \<open>Prelude\<close>: bytes, constants of common/types.h, association lists for \<open>std::unordered_map\<close>, and the shared
    interfaces: \<open>byte_source\<close> and \<open>byte_sink\<close> (what exact-length I/O promises its callers) and
    \<open>invariant_of_steps\<close> (invariants of a step relation, through which every concurrent component is proved).
  \<^item> \<open>Winsock\<close>, \<open>File_System\<close>: the parts of the platform the program calls. A socket carries the bytes still to
    come and those written, and two functions that choose how many bytes each call moves or which
    error it gives; a disk is a tree with Windows path resolution, and a function that says which calls fail.
  \<^item> \<open>Net_Utils\<close> (network_utils.cpp), \<open>Protocol\<close> (protocol.h, protocol.cpp): \<open>recv_all\<close>, \<open>send_all\<close>, the header and whole messages.
  \<^item> \<open>Metadata\<close> (metadata_manager.cpp), \<open>Lock_Manager\<close>, \<open>File_Manager\<close> (file_manager.cpp): the index, the table of locks,
    and the five file operations on the shared state \<open>world\<close> (disk, index, locks).
    \<open>Paths\<close>: which names stay inside the storage directory.
    \<open>File_Store\<close>: each operation on each of its branches. \<open>Store_Sync\<close>: index and disk stay in step.
  \<^item> \<open>Lock_Protocol\<close>: any number of sessions that take, lock, unlock, give back or leak lock references.
    \<open>Concurrent_Store\<close>: the file operations of any number of sessions, cut into the steps between which others
    may run, on one disk and one index. \<open>Solo_Steps\<close>: run alone these steps do what the operations of \<open>File_Manager\<close> do.
  \<^item> \<open>Server\<close>: \<open>handle_client\<close> of server.cpp, with every early exit. \<open>Server_Spec\<close>: an abstract server over a map from
    (user, file name) to contents, and the refinement of it by whole sessions.
    \<open>World_Safety\<close>: what stays well-formed under any input and any faults. \<open>Many_Sessions\<close>: any number of sessions
    taking turns on one shared state. \<open>Whole_Server\<close>: these sessions as the tasks of the thread pool, with the test
    of \<open>running_\<close> before every request.
  \<^item> \<open>Task_Queue\<close> (task_queue.cpp), \<open>Thread_Pool\<close> (thread_pool.cpp, \<open>start\<close>, \<open>stop\<close> and the destructor in server.cpp),
    \<open>Logger\<close> (logger.cpp): step relations over the program points of all threads, condition variables included.
    \<open>Pool_Termination\<close>: a measure that every step of a server that is shutting down decreases, and where it can get stuck.
  \<^item> \<open>Client\<close>, \<open>Cli\<close> (client.cpp, cli.cpp): every operation on socket, local disk and screen; trimming, splitting and
    executing typed lines. \<open>Client_Spec\<close>: one request, one response and one effect on the local disk per
    operation. \<open>Client_Trace\<close>: what has been sent, whatever is answered.
    \<open>Client_Safety\<close>: what no server can do to the user's disk.
  \<^item> \<open>End_To_End\<close> and this theory: both programs joined by a connection, each reading what the other writes.
  \<^item> \<open>Startup\<close>: the constructor of \<open>Server\<close> and both \<open>main\<close> functions, on any disk.
  \<^item> \<open>Load_Test\<close>, \<open>Load_Run\<close> (tests/load_test.cpp): one thread of the load test; \<open>main\<close> with all of them, joined to the sessions of
    \<open>Many_Sessions\<close>.

  \<^bold>\<open>How the model corresponds.\<close> Records and datatypes have the fields and constructors of the C++ types (the field
  names of the header are those of \<open>MessageHeader\<close>); the numbers of the protocol are words of their width, and
  the casts of \<open>size_t\<close> to \<open>int\<close> are written out (\<open>c_int\<close>). A C++ exception is \<open>Raised\<close>, a normal return \<open>Value\<close>; a function
  that changes state returns it. Streams, sockets and disk are threaded through in the order of the calls.
  Every loop is a total function by a measure (bytes still wanted, bytes still to come, lines still to
  read), so no fuel is used and every function of the model is shown to return. \<open>session_loop\<close> ends because
  each turn takes a header off the bytes that come. Concurrency is explicit where threads
  share state: what a thread does while it holds a mutex is one step, a condition variable has a step for
  the test of its predicate, for falling asleep and for waking up, and notification without the mutex is
  a step of its own, which is what the lost wake-up of the logger needs.

  \<^bold>\<open>What is assumed.\<close> Theorems name what they need: \<open>recv_contract\<close> and \<open>send_contract\<close> (a call moves at most what was
  asked for, and \<open>recv\<close> at least one byte while bytes are there), \<open>recv_reliable\<close> and \<open>send_reliable\<close> (no error), together \<open>wire_ok\<close>; \<open>healthy\<close> (no
  disk call fails); that allocations succeed; that names are \<open>ordinary\<close> (they resolve to
  \<open>storage/<user>/<name>\<close>) where the code does not check them, and \<open>proper_name\<close>, which says the same of the names themselves under
  the documented rules of Windows (\<open>windows_resolve\<close> of theory \<open>Paths\<close>: final periods and spaces dropped, device names, no
  difference between cases); that requests do not overlap, in \<open>Many_Sessions\<close>, \<open>Whole_Server\<close> and \<open>Load_Run\<close>; which
  clients let their sessions end, for the termination of the shutdown; \<open>room\<close> (fewer than \<open>2 ^ 32 - 1\<close> references to a lock). Error
  theorems assume the fault instead. How bytes are cut into pieces is never assumed.

  \<^bold>\<open>What the lemmas show.\<close> Bytes: exact transfer below 2 GiB, failure from there on, and round trips of
  messages between hosts of either byte order. Store: each operation on each branch, the
  invariant that index and disk agree, and the refinement of the abstract map by requests, sessions, several
  sessions in any order of their turns, the whole server with its acceptor, queue, workers and shutdown (both as long as
  requests do not overlap), and, at the end, by client and server together; the load test, run against it, passes. A listing's order is that
  of a hash map, so its text is left to the server and required to tell the truth. State: whatever bytes come in and
  whichever disk calls fail, index, lock table and disk stay well-formed (\<open>world_typed\<close>), and
  whatever a server answers, its client's disk changes at the downloaded files only. Concurrency: order, bounds and lost wake-ups of the queue; the life
  cycle of the server, a bound on the steps its shutdown takes, and that it hangs exactly when a worker is held up by a client that never
  leaves; exclusion by locks, and that under them the file operations of all sessions
  take effect in one order and never block one another for good, cut into steps that agree with the code's operations. What is
  answered from the index without a lock (404, the size announced before a download) is an event of its own: it fits the order
  whenever nobody is changing the file, and need not otherwise. Start-up: which failures end the server, and what an error
  while the index is rebuilt leaves it to serve. Faults: uploads and downloads that break off, disk writes that fail,
  names that escape, local reads that fail in the middle of an upload, the shutdown races.

  \<^bold>\<open>Not modelled.\<close> \<open>WSAStartup\<close>, \<open>getaddrinfo\<close>, \<open>connect\<close>, \<open>bind\<close> and
  \<open>listen\<close> are answers of the environment; texts on \<open>std::cerr\<close> and the calls that only log are left out of the
  operations (the logger itself is modelled), and so is what the load test prints and measures. The operations of \<open>File_Manager\<close> run whole;
  \<open>Concurrent_Store\<close> interleaves them over an abstract disk (a map from keys to contents, without directories,
  disk errors and listings), \<open>Many_Sessions\<close> and \<open>Whole_Server\<close> interleave whole requests over the real one, and no theory
  overlaps whole requests. \<open>sv_step\<close> lets a session end at any time; which sessions do is a hypothesis of
  \<open>Pool_Termination\<close>. Examples are evaluated with \<open>lexical_resolve\<close>, a simple resolver of
  paths; no theorem outside \<open>Paths\<close> and \<open>Lock_Protocol\<close> rests on it. Time stamps are a parameter.
\<close>

section \<open>Client and server together\<close>

text \<open>C1: client and server agree. Let a user type any session (logins, uploads, downloads,
  listings, deletions, renames, then quit) at the command line of a connected client, let \<open>handle_client\<close>
  serve the connection, and let each side read exactly what the other sends. Then both come to
  a regular end with nothing left unread, the server's disk and index have changed as the
  abstract server's map says, the listings told the truth about that map, and the local disk
  holds what its downloads deliver.
  Nothing is assumed of how the bytes are cut into pieces on the way, nor that replies come at all.\<close>

theorem client_and_server_agree:
  assumes "joined running w active k c s (map typed ops @ [''quit'']) (r, v, on) (r', w', active', t)"
    and "wire_ok s" and "wire_ok k" and "\<And>n. c_alloc c n" and "c_username c = []" and "desk src P D (c_fs c)"
    and "ops_fit src P D [] ops" and "serving N (Suc (length ops)) w" and "session_ok N [] (ops_requests src [] ops)"
    and "\<And>j. running j" and "listings_short (listing_at [] w k) (ops_requests src [] ops)"
    and "spec_session (listing_at [] w k) (ops_requests src [] ops) [] (store_of N w) = (out, su, M)"
  shows "r = Value () \<and> \<not> on \<and> \<not> is_connected v \<and> r' = Value () \<and> \<not> sk_open t \<and> active' = active
    \<and> sk_rx (last (c_closed v)) = [] \<and> sk_rx t = [] \<and> store_of N w' = M \<and> in_step N w'
    \<and> fs_at (c_fs v) = session_disk (c_fs c) src [] (store_of N w) ops (fs_at (c_fs c))
    \<and> listings_true N (listing_at [] w k) (ops_requests src [] ops) [] (store_of N w)"
proof -
  let ?R = "ops_requests src [] ops" and ?M = "store_of N w" and ?q = "Req QUIT [] [] []"
  let ?bye = "response_wire 7 (OK, ''Goodbye!'')"
  from assms(1) have j: "c_socket c = Some s" "sk_tx s = []" "sk_tx k = []" "run_lines (map typed ops @ [''quit'']) c True = (r, v, on)"
      "handle_client running w active k = (r', w', active', t)" "sk_rx s = sk_tx t" "sk_rx k = sent v"
    by (simp_all add: joined_def)
  note fits = serving_fits [OF assms(8)]
  have fit: "ops_fit src P D (c_username c) ops" "listings_short (listing_at [] w k) (ops_requests src (c_username c) ops)"
      "spec_session (listing_at [] w k) (ops_requests src (c_username c) ops) (c_username c) ?M = (out, su, M)"
    using assms(5,7,11,12) by simp_all
  have "prefix out (sk_tx t)" using joined_progress [OF assms(1-11) order_refl] assms(12) by simp
  then obtain rest where "sk_rx s = out @ rest" using j(6) by (auto simp: prefix_def)
  then obtain v1 t1 where v1: "run_lines (map typed ops @ [''quit'']) c True = run_lines [''quit''] v1 True" "c_socket v1 = Some t1"
      "sk_tx t1 = sk_tx s @ concat (map request_wire ?R)" "wire_ok t1"
    using client_session [OF j(1) assms(2,4,6) fit(1) fits fit(2,3)] assms(5) by metis
  have "run_lines [''quit''] v1 True = (r, v, on)" by (rule trans [OF v1(1) [symmetric] j(4)])
  then have "follows v1 (request_wire ?q) v" using quit_line_sends [OF v1(2,4)] by (simp del: run_lines.simps)
  then have "prefix (sk_tx t1 @ request_wire ?q) (sent v)" by (rule follows_sent_prefix [OF _ v1(2)])
  then obtain rest' where rest': "sk_rx k = concat (map request_wire ?R) @ request_wire ?q @ rest'"
    using v1(3) j(2,7) by (auto simp: prefix_def)
  have "serving N (Suc (length ?R)) w" "request_fits ?q" using assms(8) by (simp_all add: request_fits_def)
  note srv = session_served [OF this(1) assms(9) this(2) assms(3) rest' assms(10-12) j(5)]
  then have "sk_rx s = out @ ?bye @ []" using j(3,6) by simp
  then obtain v2 t2 where v2: "run_lines (map typed ops @ [''quit'']) c True = (Value (), v2, False)" "c_socket v2 = None"
      "c_closed v2 = c_closed c @ [t2]" "sk_rx t2 = []" "sk_tx t2 = sk_tx s @ concat (map request_wire ?R) @ request_wire ?q"
      "fs_at (c_fs v2) = session_disk (c_fs c) src [] ?M ops (fs_at (c_fs c))"
    using client_whole_session [OF j(1) assms(2,4,6) fit(1) fits fit(2,3), of 7 "(OK, ''Goodbye!'')" "[]"] assms(5) by auto
  have v: "r = Value ()" "v = v2" "\<not> on" using v2(1) j(4) by simp_all
  have "sk_rx k = concat (map request_wire ?R) @ request_wire ?q"
    using j(2,7) v2(2,3,5) v(2) by (simp add: sent_def)
  then have "rest' = []" using rest' by simp
  with srv v v2 show ?thesis by (simp add: is_connected_def)
qed

text \<open>A user who lists the files, renames one and fetches it under its new name.\<close>

definition demo_ops :: "op list" where
  "demo_ops = [Op_Login ''bob'', Op_List, Op_Rename ''a'' ''b'', Op_Download ''b'']"

lemma demo_ops_ok:
  "ops_fit (\<lambda>p. ''hello'') {''note.txt''} {''b''} [] demo_ops"
  "session_ok bob_names [] (ops_requests (\<lambda>p. ''hello'') [] demo_ops)"
  by (simp_all add: demo_ops_def request_fits_def typable_def typed_argument_def command_names request_ok_def next_user_def
      bob_names_def)

theorem client_and_server_agree_witness:
  "\<exists>s k r v on r' w' t. joined (\<lambda>j. True) demo_world 3 k ((demo_client (sk_rx s))\<lparr>c_username := []\<rparr>) s
       (map typed demo_ops @ [''quit'']) (r, v, on) (r', w', 3, t)
     \<and> r = Value () \<and> store_of bob_names w' (''bob'', ''b'') = Some ''xyz''
     \<and> fs_at (c_fs v) [''downloads'', ''b''] = Some (File ''xyz'')"
proof -
  let ?src = "\<lambda>p :: bytes. ''hello''" and ?q = "Req QUIT [] [] []" and ?bye = "response_wire 7 (OK, ''Goodbye!'')"
  let ?R = "ops_requests ?src [] demo_ops" and ?M = "store_of bob_names demo_world"
  let ?k = "prompt_socket (concat (map request_wire ?R) @ request_wire ?q @ [])"
  let ?lst = "listing_at [] demo_world ?k"
  have short: "listings_short ?lst ?R" "listings_short ?lst (ops_requests ?src (c_username c) demo_ops)" if "c_username c = []" for c
    using demo_listing [of ?k] demo_short that by (simp_all add: demo_ops_def)
  obtain out su M where sp: "spec_session ?lst ?R [] ?M = (out, su, M)" by (metis prod_cases3)
  let ?s = "trickle_socket (out @ ?bye @ [])"
  let ?c = "(demo_client (sk_rx ?s))\<lparr>c_username := []\<rparr>"
  have short0: "listings_short ?lst ?R" and short1: "listings_short ?lst (ops_requests ?src (c_username ?c) demo_ops)"
    using short [of ?c] by simp_all
  have desk: "desk ?src {''note.txt''} {''b''} (c_fs ?c)" using demo_desk [of "sk_rx ?s"] by simp
  have c: "c_socket ?c = Some ?s" "wire_ok ?s" "\<And>n. c_alloc ?c n" "wire_ok ?k" by simp_all
  have srv_ok: "serving bob_names (Suc (length demo_ops)) demo_world" "serving bob_names (Suc (length ?R)) demo_world"
    using serving_less [OF demo_serving] by (simp_all add: demo_ops_def)
  have fits: "request_fits ?q" by (simp add: request_fits_def)
  obtain r' w' a t where run: "handle_client (\<lambda>j. True) demo_world 3 ?k = (r', w', a, t)" by (metis prod_cases4)
  have srv: "sk_tx t = sk_tx ?k @ out @ ?bye" "a = 3"
    using session_served [OF srv_ok(2) demo_ops_ok(2) fits c(4) _ TrueI short0 sp run, of "[]"] by simp_all
  have fit: "ops_fit ?src {''note.txt''} {''b''} (c_username ?c) demo_ops" "length (snd (OK, ''Goodbye!'')) < 2 ^ 31"
      "spec_session ?lst (ops_requests ?src (c_username ?c) demo_ops) (c_username ?c) ?M = (out, su, M)"
      "sk_rx ?s = out @ ?bye @ []"
    using demo_ops_ok(1) sp by simp_all
  obtain v u where v: "run_lines (map typed demo_ops @ [''quit'']) ?c True = (Value (), v, False)" "c_socket v = None"
      "c_closed v = c_closed ?c @ [u]" "sk_tx u = sk_tx ?s @ concat (map request_wire (ops_requests ?src (c_username ?c) demo_ops)) @ request_wire ?q"
    by (rule client_whole_session [OF c(1,2,3) desk fit(1) serving_fits [OF srv_ok(1)] short1 fit(3,4,2)], rule that)
  have joined: "joined (\<lambda>j. True) demo_world 3 ?k ?c ?s (map typed demo_ops @ [''quit'']) (Value (), v, False) (r', w', 3, t)"
    using c(1) v run srv by (simp add: joined_def sent_def del: run_lines.simps)
  have M: "M (''bob'', ''b'') = Some ''xyz''" using sp by (auto simp: demo_ops_def demo_content demo_store)
  have "session_disk (c_fs ?c) ?src [] ?M demo_ops (fs_at (c_fs ?c)) [''downloads'', ''b''] = Some (File ''xyz'')"
    by (simp add: demo_ops_def demo_content demo_store)
  with client_and_server_agree [OF joined c(2,4,3) _ desk demo_ops_ok(1) srv_ok(1) demo_ops_ok(2) TrueI short0 sp] M
  have "Value () = Value () \<and> store_of bob_names w' (''bob'', ''b'') = Some ''xyz''
      \<and> fs_at (c_fs v) [''downloads'', ''b''] = Some (File ''xyz'')" by simp
  then show ?thesis
    by (intro exI [of _ ?s] exI [of _ ?k] exI [of _ "Value ()"] exI [of _ v] exI [of _ False] exI [of _ r'] exI [of _ w']
        exI [of _ t] conjI joined) simp_all
qed

end
